(* ===== verification/Tru_Prelude.thy ===== *)
theory Tru_Prelude
  imports Main "HOL-Library.Word" "HOL-Library.AList"
begin

section \<open>Prelude: bytes, maps, time\<close>

text \<open>
  What every component of the model shares.  Go's fixed-width integers are words, a byte
  slice is a list of bytes, a Go map is an association list with distinct keys (so that
  \<open>len\<close> computes), and an instant or a \<open>time.Duration\<close> is an integer number of
  nanoseconds.  Errors are values of the sum type \<open>go_error + 'a\<close>, \<open>Inl\<close> for the error.
\<close>

unbundle bit_operations_syntax

type_synonym u8 = "8 word"
type_synonym u32 = "32 word"
type_synonym i64 = "64 word"
type_synonym bytes = "u8 list"
type_synonym time = int
type_synonym duration = int
type_synonym ('k, 'v) gomap = "('k \<times> 'v) list"

text \<open>
  Facts the component proofs share: \<open>wire_simps\<close> turn encoders and decoders into each
  other, \<open>frame_simps\<close> say which parts of a state an operation leaves alone, and
  \<open>inv_intros\<close> say that an operation keeps an invariant.
\<close>

named_theorems wire_simps
named_theorems frame_simps
named_theorems inv_intros

subsection \<open>Errors\<close>

text \<open>The error values the library returns, one constructor per \<open>errors.New\<close> or call that can fail.\<close>

datatype go_error =
    ErrChannelDestroyed
  | ErrChannelAlreadyDestroyed
  | ErrTruClosed
  | ErrEOF
  | ErrUnexpectedEOF
  | ErrPacketNotFound
  | ErrWrongDelivery
  | ErrDeliveryTimeout
  | ErrCrypt
  | ErrConnectTimeout
  | ErrWrongServerAnswer
  | ErrNoChannel
  | ErrWrongDone
  | ErrWrongStatus
  | ErrWrongAddress
  | ErrWrongPort
  | ErrWrongParameter
  | ErrPanic

subsection \<open>Go's integer division\<close>

text \<open>Go's \<open>/\<close> truncates towards zero.\<close>

definition go_div :: "int \<Rightarrow> int \<Rightarrow> int" where
  "go_div a b = sgn a * sgn b * (\<bar>a\<bar> div \<bar>b\<bar>)"

lemma go_div_nonneg: "0 \<le> a \<Longrightarrow> 0 < b \<Longrightarrow> go_div a b = a div b"
  by (cases "a = 0") (auto simp: go_div_def)

subsection \<open>Time units and timers\<close>

abbreviation microsecond :: duration where "microsecond \<equiv> 1000"
abbreviation millisecond :: duration where "millisecond \<equiv> 1000000"
abbreviation second :: duration where "second \<equiv> 1000000000"

text \<open>
  A \<open>*time.Timer\<close> made by \<open>time.AfterFunc\<close>: not yet made (nil), armed to fire at an
  instant, or stopped.
\<close>

datatype timer = NoTimer | Armed time | Stopped

text \<open>\<open>t.Stop()\<close> on a timer that exists.\<close>

fun timer_stop :: "timer \<Rightarrow> timer" where
  "timer_stop NoTimer = NoTimer"
| "timer_stop (Armed t) = Stopped"
| "timer_stop Stopped = Stopped"

lemma timer_stop_not_armed [simp]: "timer_stop t \<noteq> Armed d"
  by (cases t) auto

subsection \<open>Go maps\<close>

abbreviation gm_get :: "('k, 'v) gomap \<Rightarrow> 'k \<Rightarrow> 'v option" where
  "gm_get \<equiv> map_of"

abbreviation gm_set :: "'k \<Rightarrow> 'v \<Rightarrow> ('k, 'v) gomap \<Rightarrow> ('k, 'v) gomap" where
  "gm_set \<equiv> AList.update"

abbreviation gm_del :: "'k \<Rightarrow> ('k, 'v) gomap \<Rightarrow> ('k, 'v) gomap" where
  "gm_del \<equiv> AList.delete"

definition gm_ok :: "('k, 'v) gomap \<Rightarrow> bool" where
  "gm_ok m \<longleftrightarrow> distinct (map fst m)"

lemma gm_ok_Nil [simp]: "gm_ok []"
  by (simp add: gm_ok_def)

lemma gm_ok_set [intro, inv_intros]: "gm_ok m \<Longrightarrow> gm_ok (gm_set k v m)"
  by (simp add: gm_ok_def distinct_update)

lemma gm_ok_del [intro, inv_intros]: "gm_ok m \<Longrightarrow> gm_ok (gm_del k m)"
  by (simp add: gm_ok_def distinct_delete)

lemma gm_get_set [simp]: "gm_get (gm_set k v m) x = (if x = k then Some v else gm_get m x)"
  by (simp add: update_conv')

lemma gm_get_del [simp]: "gm_get (gm_del k m) x = (if x = k then None else gm_get m x)"
  by (simp add: delete_conv')

lemma gm_del_length_le: "length (gm_del k m) \<le> length m"
  by (simp add: AList.length_delete_le)

lemma gm_del_absent: "gm_get m k = None \<Longrightarrow> gm_del k m = m"
  by (simp add: AList.delete_idem map_of_eq_None_iff)

lemma gm_del_length_less: "gm_get m k = Some v \<Longrightarrow> length (gm_del k m) < length m"
proof (induction m)
  case (Cons a m)
  then show ?case
    using gm_del_length_le [of k m] by (cases a) (auto simp: less_Suc_eq_le split: if_splits)
qed simp

lemma gm_length_card: "gm_ok m \<Longrightarrow> length m = card (dom (gm_get m))"
  unfolding gm_ok_def dom_map_of_conv_image_fst
  by (metis distinct_card length_map list.set_map)

subsection \<open>Little-endian words\<close>

text \<open>\<open>binary.LittleEndian.PutUint32\<close> and \<open>binary.Read\<close> of a \<open>uint32\<close>.\<close>

definition put_u32 :: "u32 \<Rightarrow> bytes" where
  "put_u32 x = [ucast x, ucast (drop_bit 8 x), ucast (drop_bit 16 x), ucast (drop_bit 24 x)]"

fun get_u32 :: "bytes \<Rightarrow> u32" where
  "get_u32 (a # b # c # d # r) =
     ucast a OR push_bit 8 (ucast b) OR push_bit 16 (ucast c) OR push_bit 24 (ucast d)"
| "get_u32 r = 0"

lemma length_put_u32 [simp]: "length (put_u32 x) = 4"
  by (simp add: put_u32_def)

lemma get_put_u32 [simp, wire_simps]: "get_u32 (put_u32 x @ r) = x"
proof -
  have "bit (get_u32 (put_u32 x @ r)) n = bit x n" if "n < 32" for n
  proof -
    consider "n < 8" | "8 \<le> n" "n < 16" | "16 \<le> n" "n < 24" | "24 \<le> n"
      by linarith
    then show ?thesis
      using that by cases (auto simp: put_u32_def bit_simps)
  qed
  then show ?thesis
    by (intro bit_word_eqI) simp
qed

text \<open>\<open>binary.Read\<close> into a \<open>uint32\<close>: fewer than four bytes is an error.\<close>

definition read_u32 :: "bytes \<Rightarrow> go_error + (u32 \<times> bytes)" where
  "read_u32 bs =
     (if bs = [] then Inl ErrEOF
      else if length bs < 4 then Inl ErrUnexpectedEOF
      else Inr (get_u32 bs, drop 4 bs))"

lemma read_u32_put [simp, wire_simps]: "read_u32 (put_u32 x @ r) = Inr (x, r)"
proof -
  have "put_u32 x @ r \<noteq> []" "\<not> length (put_u32 x @ r) < 4" "drop 4 (put_u32 x @ r) = r"
    by (simp_all add: put_u32_def)
  then show ?thesis by (simp add: read_u32_def)
qed

text \<open>\<open>binary.Read\<close> into a slice of length \<open>n\<close> (\<open>io.ReadFull\<close>).\<close>

definition read_bytes :: "nat \<Rightarrow> bytes \<Rightarrow> go_error + (bytes \<times> bytes)" where
  "read_bytes n bs =
     (if length bs < n then Inl (if bs = [] then ErrEOF else ErrUnexpectedEOF)
      else Inr (take n bs, drop n bs))"

lemma read_bytes_append [simp, wire_simps]: "read_bytes (length xs) (xs @ ys) = Inr (xs, ys)"
  by (simp add: read_bytes_def)

subsection \<open>Codecs\<close>

text \<open>
  The contract of an encoder and a decoder of the wire formats: on well-formed values
  decoding inverts encoding, and what a buffer decodes to is well formed.  A buffer need not
  be the encoding of its value (the packet header has four bits no decoder reads), so the
  client learns that re-encoding is stable, not that it gives the buffer back.
\<close>

locale codec =
  fixes enc :: "'a \<Rightarrow> bytes"
    and dec :: "bytes \<Rightarrow> go_error + 'a"
    and ok :: "'a \<Rightarrow> bool"
  assumes dec_enc: "ok x \<Longrightarrow> dec (enc x) = Inr x"
    and dec_ok: "dec bs = Inr x \<Longrightarrow> ok x"
begin

lemma enc_inj: "ok x \<Longrightarrow> ok y \<Longrightarrow> enc x = enc y \<Longrightarrow> x = y"
  using dec_enc by (metis sum.inject(2))

lemma dec_enc_dec: "dec bs = Inr x \<Longrightarrow> dec (enc x) = Inr x"
  by (simp add: dec_enc dec_ok)

lemma ok_iff_decodable: "ok x \<longleftrightarrow> (\<exists>bs. dec bs = Inr x)"
  using dec_enc dec_ok by blast

lemma map_dec_enc: "\<forall>x\<in>set xs. ok x \<Longrightarrow> map (\<lambda>x. dec (enc x)) xs = map Inr xs"
  by (simp add: dec_enc)

end

end
