(* ===== verification/Packet.thy ===== *)
theory Packet
  imports Tru_Prelude
begin

section \<open>Packets (packet.go)\<close>

text \<open>
  The packet record, its header codec, the distance between two packet identifiers on the
  circle of \<open>packetIDLimit\<close> values, and the retransmission and delivery fields.  A delivery
  callback is a token that names the caller's function.  \<open>Status()\<close>, \<open>ID()\<close> and their
  setters convert between Go's \<open>int\<close> and the field's width; every value the library passes
  fits, so the model keeps the field's width throughout.
\<close>

subsection \<open>Constants\<close>

abbreviation statusConnect :: u8 where "statusConnect \<equiv> 0"
abbreviation statusConnectServerAnswer :: u8 where "statusConnectServerAnswer \<equiv> 1"
abbreviation statusConnectClientAnswer :: u8 where "statusConnectClientAnswer \<equiv> 2"
abbreviation statusConnectDone :: u8 where "statusConnectDone \<equiv> 3"
abbreviation statusData :: u8 where "statusData \<equiv> 4"
abbreviation statusAck :: u8 where "statusAck \<equiv> 5"
abbreviation statusPing :: u8 where "statusPing \<equiv> 6"
abbreviation statusPong :: u8 where "statusPong \<equiv> 7"
abbreviation statusDisconnect :: u8 where "statusDisconnect \<equiv> 8"
abbreviation statusPunch :: u8 where "statusPunch \<equiv> 9"
abbreviation statusSplit :: u8 where "statusSplit \<equiv> 0x80"
abbreviation statusDataNext :: u8 where "statusDataNext \<equiv> 0x84"

abbreviation maxUdpDataLength :: int where "maxUdpDataLength \<equiv> 65535 - 8"
abbreviation cryptAesLength :: int where "cryptAesLength \<equiv> 28"
abbreviation packetIDLimit :: u32 where "packetIDLimit \<equiv> 0x100000"
abbreviation DeliveryTimeout :: duration where "DeliveryTimeout \<equiv> 5 * second"

subsection \<open>The packet\<close>

record packet =
  p_id :: u32
  p_status :: u8
  p_data :: bytes
  p_time :: time
  p_retransmitTime :: time
  p_retransmitAttempts :: int
  p_delivery :: "nat option"
  p_deliveryTimeout :: duration
  p_deliveryTimer :: timer

definition newPacket :: "time \<Rightarrow> packet" where
  "newPacket now =
     \<lparr>p_id = 0, p_status = 0, p_data = [], p_time = now, p_retransmitTime = 0,
      p_retransmitAttempts = 0, p_delivery = None, p_deliveryTimeout = 0,
      p_deliveryTimer = NoTimer\<rparr>"

definition set_id :: "u32 \<Rightarrow> packet \<Rightarrow> packet" where
  "set_id i p = p\<lparr>p_id := i\<rparr>"

definition set_status :: "u8 \<Rightarrow> packet \<Rightarrow> packet" where
  "set_status s p = p\<lparr>p_status := s\<rparr>"

definition set_data :: "bytes \<Rightarrow> packet \<Rightarrow> packet" where
  "set_data d p = p\<lparr>p_data := d\<rparr>"

lemmas packet_setters = set_id_def set_status_def set_data_def

definition headerLen :: int where
  "headerLen = 4"

definition maxDataLen :: int where
  "maxDataLen = maxUdpDataLength - headerLen - cryptAesLength"

definition packet_len :: "packet \<Rightarrow> int" where
  "packet_len p = headerLen + int (length (p_data p))"

subsection \<open>The header\<close>

definition packStatID :: "packet \<Rightarrow> u32" where
  "packStatID p = (p_id p AND (packetIDLimit - 1)) OR push_bit 24 (ucast (p_status p))"

definition unpackStatID :: "u32 \<Rightarrow> packet \<Rightarrow> packet" where
  "unpackStatID statid p =
     p\<lparr>p_id := statid AND (packetIDLimit - 1), p_status := ucast (drop_bit 24 statid)\<rparr>"

definition marshalBinary :: "packet \<Rightarrow> bytes" where
  "marshalBinary p = put_u32 (packStatID p) @ p_data p"

text \<open>The data field is only assigned when bytes are left, as in the source.\<close>

definition unmarshalBinary :: "bytes \<Rightarrow> packet \<Rightarrow> go_error + packet" where
  "unmarshalBinary bs p =
     (case read_u32 bs of
        Inl e \<Rightarrow> Inl e
      | Inr (statid, rest) \<Rightarrow>
          let p = unpackStatID statid p
          in Inr (if length rest > 0 then set_data rest p else p))"

subsection \<open>Distance\<close>

text \<open>\<open>modSubU\<close>: the subtraction is done in \<open>uint64\<close>, on arguments reduced first.\<close>

definition modSubU :: "u32 \<Rightarrow> u32 \<Rightarrow> i64 \<Rightarrow> int" where
  "modSubU arga argb m =
     (let sub = (ucast arga mod m) + m - (ucast argb mod m) in uint (sub mod m))"

definition distance :: "u32 \<Rightarrow> u32 \<Rightarrow> int" where
  "distance expectedID i =
     (if expectedID = i then 0
      else let diff = modSubU i expectedID 0x100000 in
        if diff < 0x100000 div 2 then diff else diff - 0x100000)"

subsection \<open>Delivery and retransmission fields\<close>

definition setDeliveryTimeout :: "duration \<Rightarrow> packet \<Rightarrow> packet" where
  "setDeliveryTimeout timeout p = p\<lparr>p_deliveryTimeout := timeout\<rparr>"

definition setDelivery :: "time \<Rightarrow> nat option \<Rightarrow> packet \<Rightarrow> packet" where
  "setDelivery now delivery p =
     (case delivery of
        None \<Rightarrow> p
      | Some f \<Rightarrow> p\<lparr>p_delivery := Some f, p_deliveryTimer := Armed (now + p_deliveryTimeout p)\<rparr>)"

definition setRetransmitAttempts :: "int \<Rightarrow> packet \<Rightarrow> packet" where
  "setRetransmitAttempts rta p = p\<lparr>p_retransmitAttempts := rta\<rparr>"

definition packet_setRetransmitTime :: "time \<Rightarrow> duration \<Rightarrow> packet \<Rightarrow> packet" where
  "packet_setRetransmitTime now rtt p = p\<lparr>p_retransmitTime := now + rtt, p_time := now\<rparr>"

text \<open>What the wire carries of a packet, and no operation on the other fields changes it.\<close>

definition wire_of :: "packet \<Rightarrow> u32 \<times> u8 \<times> bytes" where
  "wire_of p = (p_id p, p_status p, p_data p)"

lemma wire_of_frame [simp, frame_simps]:
  "wire_of (setDeliveryTimeout d p) = wire_of p"
  "wire_of (setDelivery now f p) = wire_of p"
  "wire_of (setRetransmitAttempts n p) = wire_of p"
  "wire_of (packet_setRetransmitTime now rtt p) = wire_of p"
  by (simp_all add: wire_of_def setDeliveryTimeout_def setDelivery_def setRetransmitAttempts_def
      packet_setRetransmitTime_def split: option.split)

lemma newPacket_simps [simp]:
  "p_id (newPacket t) = 0" "p_status (newPacket t) = 0" "p_data (newPacket t) = []"
  "p_retransmitAttempts (newPacket t) = 0" "p_delivery (newPacket t) = None"
  by (simp_all add: newPacket_def)

text \<open>The getters; the identifier and the status are given as integers.\<close>

definition packet_Data :: "packet \<Rightarrow> bytes" where
  "packet_Data p = p_data p"

definition packet_ID :: "packet \<Rightarrow> int" where
  "packet_ID p = uint (p_id p)"

definition packet_Status :: "packet \<Rightarrow> int" where
  "packet_Status p = uint (p_status p)"

definition packet_Delivery :: "packet \<Rightarrow> nat option" where
  "packet_Delivery p = p_delivery p"

definition getRetransmitAttempts :: "packet \<Rightarrow> int" where
  "getRetransmitAttempts p = p_retransmitAttempts p"

definition getRetransmitTime :: "packet \<Rightarrow> time" where
  "getRetransmitTime p = p_retransmitTime p"

subsection \<open>Identifiers below the limit\<close>

definition id_ok :: "u32 \<Rightarrow> bool" where
  "id_ok i \<longleftrightarrow> i < packetIDLimit"

lemma mask_20: "(0xFFFFF :: u32) = mask 20"
  by (simp add: mask_eq_exp_minus_1)

lemma and_limit_mod: "uint (i AND 0xFFFFF :: u32) = uint i mod 2 ^ 20"
  unfolding mask_20 by (simp add: unsigned_take_bit_eq take_bit_eq_mod uint_mod flip: take_bit_eq_mask)

lemma id_ok_iff: "id_ok i \<longleftrightarrow> uint i < 2 ^ 20"
  by (simp add: id_ok_def word_less_def)

lemma id_ok_and [simp]: "id_ok (i AND 0xFFFFF)"
  using and_limit_mod [of i] by (simp add: id_ok_iff)

lemma id_ok_and_id: "id_ok i \<Longrightarrow> i AND 0xFFFFF = i"
  using and_limit_mod [of i] by (simp add: id_ok_iff word_uint_eq_iff)

subsection \<open>The header codec\<close>

lemma packStatID_mask: "packStatID p = (p_id p AND mask 20) OR push_bit 24 (ucast (p_status p))"
  by (simp add: packStatID_def mask_20)

lemma unpack_pack_id: "packStatID p AND 0xFFFFF = p_id p AND 0xFFFFF"
  unfolding mask_20 packStatID_mask
  by (rule bit_word_eqI) (auto simp: bit_simps)

lemma unpack_pack_status: "ucast (drop_bit 24 (packStatID p)) = p_status p"
  unfolding packStatID_mask
  by (rule bit_word_eqI) (auto simp: bit_simps)

lemma unpackStatID_pack:
  "unpackStatID (packStatID p) q =
     q\<lparr>p_id := p_id p AND 0xFFFFF, p_status := p_status p\<rparr>"
  using unpack_pack_id [of p] unpack_pack_status [of p] by (simp add: unpackStatID_def)

lemma unmarshal_marshal [wire_simps]:
  "unmarshalBinary (marshalBinary p) (newPacket now) =
     Inr ((newPacket now)\<lparr>p_id := p_id p AND 0xFFFFF, p_status := p_status p,
                          p_data := p_data p\<rparr>)"
  by (simp add: unmarshalBinary_def marshalBinary_def unpackStatID_pack set_data_def Let_def newPacket_def)

lemma unmarshal_short: "length bs < 4 \<Longrightarrow> \<exists>e. unmarshalBinary bs p = Inl e"
  by (simp add: unmarshalBinary_def read_u32_def)

lemma unmarshal_long: "4 \<le> length bs \<Longrightarrow> \<exists>q. unmarshalBinary bs p = Inr q"
  by (auto simp: unmarshalBinary_def read_u32_def Let_def)

lemma unmarshal_id_ok: "unmarshalBinary bs p = Inr q \<Longrightarrow> id_ok (p_id q)"
  by (auto simp: unmarshalBinary_def unpackStatID_def set_data_def Let_def
      split: sum.splits prod.splits if_splits)

lemma length_marshal [simp]: "length (marshalBinary p) = 4 + length (p_data p)"
  by (simp add: marshalBinary_def)

text \<open>The packet as a codec of its wire view.\<close>

definition wire_enc :: "u32 \<times> u8 \<times> bytes \<Rightarrow> bytes" where
  "wire_enc w = (case w of (i, s, d) \<Rightarrow>
     marshalBinary (set_data d (set_status s (set_id i (newPacket 0)))))"

definition wire_dec :: "bytes \<Rightarrow> go_error + (u32 \<times> u8 \<times> bytes)" where
  "wire_dec bs = map_sum (\<lambda>e. e) wire_of (unmarshalBinary bs (newPacket 0))"

definition wire_ok :: "u32 \<times> u8 \<times> bytes \<Rightarrow> bool" where
  "wire_ok w \<longleftrightarrow> id_ok (fst w)"

interpretation packet_codec: codec wire_enc wire_dec wire_ok
proof unfold_locales
  fix x assume "wire_ok x"
  then show "wire_dec (wire_enc x) = Inr x"
    by (cases x)
      (simp add: wire_dec_def wire_enc_def wire_ok_def wire_simps packet_setters wire_of_def id_ok_and_id)
next
  fix bs x assume "wire_dec bs = Inr x"
  then show "wire_ok x"
    by (cases "unmarshalBinary bs (newPacket 0)")
      (auto simp: wire_dec_def wire_ok_def wire_of_def dest: unmarshal_id_ok)
qed

lemma marshal_wire_enc: "marshalBinary p = wire_enc (wire_of p)"
  by (simp add: wire_enc_def wire_of_def marshalBinary_def packStatID_def packet_setters)

subsection \<open>The distance on the circle\<close>

lemma modSubU_limit: "modSubU a b 0x100000 = (uint a - uint b) mod 2 ^ 20"
proof -
  let ?a = "uint a mod 2 ^ 20" and ?b = "uint b mod 2 ^ 20"
  have ua: "uint (ucast a mod (0x100000 :: i64)) = ?a" and ub: "uint (ucast b mod (0x100000 :: i64)) = ?b"
    by (simp_all add: uint_mod uint_up_ucast is_up)
  have bounds: "0 \<le> ?a" "?a < 2 ^ 20" "0 \<le> ?b" "?b < 2 ^ 20"
    by simp_all
  have "uint ((ucast a mod 0x100000) + 0x100000 - (ucast b mod (0x100000 :: i64))) = ?a + 2 ^ 20 - ?b"
    using bounds by (simp add: uint_word_ariths ua ub take_bit_eq_mod mod_simps mod_pos_pos_trivial)
  then have "modSubU a b 0x100000 = (?a + 2 ^ 20 - ?b) mod 2 ^ 20"
    by (simp add: modSubU_def uint_mod)
  also have "\<dots> = ((?a - ?b) + 2 ^ 20) mod 2 ^ 20"
    by (rule arg_cong [where f = "\<lambda>x. x mod 2 ^ 20"]) simp
  also have "\<dots> = (uint a - uint b) mod 2 ^ 20"
    by (simp only: mod_add_self2 mod_diff_eq)
  finally show ?thesis .
qed

text \<open>The distance is the representative of \<open>id - expectedID\<close> in the half-open window.\<close>

lemma distance_bounds: "- (2 ^ 19) \<le> distance e i" "distance e i < 2 ^ 19"
  by (auto simp: distance_def modSubU_limit Let_def)

lemma distance_cong: "distance e i mod 2 ^ 20 = (uint i - uint e) mod 2 ^ 20"
  by (auto simp: distance_def modSubU_limit Let_def mod_simps)

lemma window_unique:
  fixes x y :: int
  assumes "x mod 2 ^ 20 = y mod 2 ^ 20" "- (2 ^ 19) \<le> x" "x < 2 ^ 19" "- (2 ^ 19) \<le> y" "y < 2 ^ 19"
  shows "x = y"
proof -
  from assms(1) obtain k where k: "x - y = 2 ^ 20 * k"
    by (auto simp: mod_eq_dvd_iff dvd_def)
  with assms(2-5) have "k < 1" "- 1 < k"
    by simp_all
  then have "k = 0" by simp
  with k show ?thesis by simp
qed

lemma distance_eqI:
  assumes "d mod 2 ^ 20 = (uint i - uint e) mod 2 ^ 20" "- (2 ^ 19) \<le> d" "d < 2 ^ 19"
  shows "distance e i = d"
  by (rule window_unique) (use assms distance_bounds [of e i] distance_cong [of e i] in simp_all)

lemma distance_zero_iff:
  assumes "id_ok e" "id_ok i"
  shows "distance e i = 0 \<longleftrightarrow> e = i"
proof
  assume "distance e i = 0"
  then have "uint i mod 2 ^ 20 = uint e mod 2 ^ 20"
    using distance_cong [of e i] by (simp add: mod_eq_dvd_iff mod_0_imp_dvd)
  then show "e = i"
    using assms by (simp add: id_ok_iff word_uint_eq_iff)
qed (simp add: distance_def)

subsection \<open>Properties\<close>



text \<open>
  The distance between two identifiers is the number in the window from -2^19 to 2^19 - 1 that
  is congruent to their difference modulo 2^20, whatever the 32-bit values are: the subtraction
  on 64-bit words does not wrap.
\<close>

lemma distance_spec:
  "distance e i mod 2 ^ 20 = (uint i - uint e) mod 2 ^ 20 \<and> - (2 ^ 19) \<le> distance e i \<and> distance e i < 2 ^ 19"
  using distance_bounds distance_cong by blast

text \<open>
  C23: The packet format. Unmarshalling a marshalled packet gives its identifier, status and
  data back when the identifier is below the limit of 2^20; a buffer is refused exactly when it
  is shorter than the four header bytes; and what any other buffer unmarshals to has an
  identifier below the limit.
\<close>

lemma header_roundtrip:
  assumes "id_ok (p_id p)"
  shows "(\<exists>q. unmarshalBinary (marshalBinary p) (newPacket now) = Inr q \<and> wire_of q = wire_of p) \<and>
     ((\<exists>e. unmarshalBinary bs (newPacket now) = Inl e) \<longleftrightarrow> length bs < 4) \<and>
     (\<forall>q. unmarshalBinary bs (newPacket now) = Inr q \<longrightarrow> id_ok (p_id q))"
proof (intro conjI allI impI)
  show "\<exists>q. unmarshalBinary (marshalBinary p) (newPacket now) = Inr q \<and> wire_of q = wire_of p"
    using assms by (simp add: unmarshal_marshal wire_of_def id_ok_and_id)
  show "(\<exists>e. unmarshalBinary bs (newPacket now) = Inl e) \<longleftrightarrow> length bs < 4"
    using unmarshal_short [of bs "newPacket now"] unmarshal_long [of bs "newPacket now"] by force
qed (rule unmarshal_id_ok)

lemma header_roundtrip_witness:
  "\<exists>q. unmarshalBinary (marshalBinary (set_id 5 (newPacket 0))) (newPacket 0) = Inr q \<and>
     wire_of q = wire_of (set_id 5 (newPacket 0))"
  using header_roundtrip [of "set_id 5 (newPacket 0)" 0 "[]"] by (simp add: id_ok_def packet_setters newPacket_def)

end
