(* ===== verification/Split.thy ===== *)
theory Split
  imports Packet
begin

section \<open>Splitting and combining large packets (split.go)\<close>

text \<open>
  \<open>splitPacket\<close> is the loop of the source over an arbitrary \<open>writeTo\<close> callback that
  threads a state and returns an identifier and an error; \<open>fragments\<close> is its
  specification.  \<open>combine_packet\<close> is one call of \<open>combinePacket.packet\<close>.
\<close>

subsection \<open>splitPacket\<close>

type_synonym 's writer = "bytes \<Rightarrow> u8 \<Rightarrow> 's \<Rightarrow> (u32 \<times> go_error option) \<times> 's"

text \<open>The \<open>maxDataLen\<close> closure at the head of \<open>splitPacket\<close>: zero stands for the UDP maximum.\<close>

definition split_limit :: "int \<Rightarrow> int" where
  "split_limit chMax = (if chMax \<noteq> 0 then chMax else maxDataLen)"

text \<open>
  The \<open>for\<close> loop, \<open>i\<close> counted from 0.  A negative limit makes \<open>data[:maxDataLen]\<close> panic; a
  zero limit, with which the loop would not end, is excluded by \<open>split_limit\<close> and shares that
  branch.
\<close>

function split_loop ::
  "'s writer \<Rightarrow> int \<Rightarrow> nat \<Rightarrow> u32 \<Rightarrow> bytes \<Rightarrow> 's \<Rightarrow> (u32 \<times> go_error option) \<times> 's"
where
  "split_loop writeTo m i rid data s =
     (if int (length data) \<le> m then
        (case writeTo data 0 s of
           ((j, err), s') \<Rightarrow> ((if i = 0 then j else rid, err), s'))
      else if m \<le> 0 then ((rid, Some ErrPanic), s)
      else
        (case writeTo (take (nat m) data) statusSplit s of
           ((rid', Some e), s') \<Rightarrow> ((rid', Some e), s')
         | ((rid', None), s') \<Rightarrow> split_loop writeTo m (Suc i) rid' (drop (nat m) data) s'))"
  by pat_completeness auto
termination
  by (relation "measure (\<lambda>(writeTo, m, i, rid, data, s). length data)") auto

declare split_loop.simps [simp del]

definition splitPacket ::
  "int \<Rightarrow> 's writer \<Rightarrow> bytes \<Rightarrow> 's \<Rightarrow> (u32 \<times> go_error option) \<times> 's" where
  "splitPacket chMax writeTo data s = split_loop writeTo (split_limit chMax) 0 0 data s"

subsection \<open>The fragments a message is cut into\<close>

function fragments :: "nat \<Rightarrow> bytes \<Rightarrow> (bytes \<times> u8) list" where
  "fragments m data =
     (if length data \<le> m \<or> m = 0 then [(data, 0)]
      else (take m data, statusSplit) # fragments m (drop m data))"
  by pat_completeness auto
termination
  by (relation "measure (\<lambda>(m, data). length data)") auto

declare fragments.simps [simp del]

lemma fragments_short: "length data \<le> m \<Longrightarrow> fragments m data = [(data, 0)]"
  by (simp add: fragments.simps)

lemma fragments_long:
  "m < length data \<Longrightarrow> 0 < m \<Longrightarrow>
   fragments m data = (take m data, statusSplit) # fragments m (drop m data)"
  by (simp add: fragments.simps [of m data])

lemma fragments_not_Nil [simp]: "fragments m data \<noteq> []"
  by (subst fragments.simps) simp

text \<open>Nothing is lost, duplicated or reordered.\<close>

lemma concat_fragments: "concat (map fst (fragments m data)) = data"
proof (induction m data rule: fragments.induct)
  case (1 m data)
  then show ?case
    by (cases "length data \<le> m \<or> m = 0") (auto simp: fragments.simps [of m data])
qed

lemma fragments_shape:
  assumes "0 < m"
  shows "\<exists>init d. fragments m data = map (\<lambda>x. (x, statusSplit)) init @ [(d, 0)]
     \<and> (\<forall>x\<in>set init. length x = m) \<and> length d \<le> m \<and> concat init @ d = data
     \<and> (init \<noteq> [] \<longrightarrow> d \<noteq> [])"
  using assms
proof (induction m data rule: fragments.induct)
  case (1 m data)
  show ?case
  proof (cases "length data \<le> m")
    case True
    then show ?thesis by (intro exI [of _ "[]"] exI [of _ data]) (simp add: fragments_short)
  next
    case False
    then obtain init d where *:
      "fragments m (drop m data) = map (\<lambda>x. (x, statusSplit)) init @ [(d, 0)]"
      "\<forall>x\<in>set init. length x = m" "length d \<le> m" "concat init @ d = drop m data"
      "init \<noteq> [] \<longrightarrow> d \<noteq> []"
      using 1 by auto
    have "d \<noteq> []"
    proof (cases "init = []")
      case True
      with * False show ?thesis by auto
    qed (use * in auto)
    with * False 1(2) show ?thesis
      by (intro exI [of _ "take m data # init"] exI [of _ d]) (simp add: fragments_long)
  qed
qed

lemma fragments_length_le:
  "0 < m \<Longrightarrow> (d, s) \<in> set (fragments m data) \<Longrightarrow> length d \<le> m"
  using fragments_shape [of m data] by fastforce

text \<open>Running a writer over a list of fragments, stopping at the first error of a split part.\<close>

fun write_all :: "'s writer \<Rightarrow> (bytes \<times> u8) list \<Rightarrow> 's \<Rightarrow> go_error option \<times> 's" where
  "write_all w [] s = (None, s)"
| "write_all w ((d, sp) # fs) s =
     (case w d sp s of
        ((_, Some e), s') \<Rightarrow> (Some e, s')
      | ((_, None), s') \<Rightarrow> write_all w fs s')"

lemma split_loop_write_all:
  assumes "0 < m"
  shows "(\<lambda>((rid, err), s'). (err, s')) (split_loop w m i rid data s) = write_all w (fragments (nat m) data) s"
  using assms
proof (induction w m i rid data s rule: split_loop.induct)
  case (1 w m i rid data s)
  show ?case
  proof (cases "int (length data) \<le> m")
    case True
    then show ?thesis
      by (auto simp: split_loop.simps [of w m i rid data s] fragments_short split: prod.splits option.splits)
  next
    case False
    then have "fragments (nat m) data = (take (nat m) data, statusSplit) # fragments (nat m) (drop (nat m) data)"
      using 1(2) by (intro fragments_long) auto
    with False 1 show ?thesis
      by (auto simp: split_loop.simps [of w m i rid data s] split: prod.splits option.splits)
  qed
qed

text \<open>What every write of a piece keeps, the whole loop keeps.\<close>

lemma split_loop_keeps_pieces:
  assumes "\<And>d sp s. sp = 0 \<or> sp = statusSplit \<Longrightarrow> P s \<Longrightarrow> P (snd (w d sp s))" "P s"
  shows "P (snd (split_loop w m i rid data s))"
  using assms
proof (induction w m i rid data s rule: split_loop.induct)
  case (1 w m i rid data s)
  consider (last) "int (length data) \<le> m" | (panic) "\<not> int (length data) \<le> m" "m \<le> 0"
    | (part) "\<not> int (length data) \<le> m" "\<not> m \<le> 0" by blast
  then show ?case
  proof cases
    case last
    then show ?thesis
      using 1(2) [OF _ 1(3), of 0 data] by (subst split_loop.simps) (simp add: split_def)
  next
    case panic
    then show ?thesis using 1(3) by (subst split_loop.simps) simp
  next
    case part
    obtain rid' err s' where w: "w (take (nat m) data) statusSplit s = ((rid', err), s')"
      by (metis prod.collapse)
    then have "P s'" using 1(2) [OF _ 1(3), of statusSplit "take (nat m) data"] by simp
    then show ?thesis
      using 1 part w by (subst split_loop.simps) (cases err; simp)
  qed
qed

lemma split_loop_keeps:
  assumes "\<And>d sp s. P s \<Longrightarrow> P (snd (w d sp s))" "P s"
  shows "P (snd (split_loop w m i rid data s))"
  by (rule split_loop_keeps_pieces [where P = P, OF assms])

subsection \<open>combinePacket\<close>

record combinePacket =
  cb_combine :: bool
  cb_data :: bytes
  cb_first :: "packet option"

definition combine_clear :: combinePacket where
  "combine_clear = \<lparr>cb_combine = False, cb_data = [], cb_first = None\<rparr>"

text \<open>The four cases of the switch, in order; the last is a switch no case matches.\<close>

definition combine_packet :: "packet \<Rightarrow> combinePacket \<Rightarrow> go_error + (packet option \<times> combinePacket)" where
  "combine_packet pac c =
     (if \<not> cb_combine c \<and> p_status pac = statusDataNext then
        Inr (None, \<lparr>cb_combine = True, cb_data = p_data pac, cb_first = Some pac\<rparr>)
      else if cb_combine c \<and> p_status pac = statusDataNext then
        Inr (None, c\<lparr>cb_data := cb_data c @ p_data pac\<rparr>)
      else if cb_combine c \<and> p_status pac = statusData then
        (case cb_first c of
           None \<Rightarrow> Inl ErrPanic
         | Some f \<Rightarrow>
             Inr (Some (set_status statusData (set_data (cb_data c @ p_data pac) f)), combine_clear))
      else if \<not> cb_combine c \<and> p_status pac = statusData then Inr (Some pac, c)
      else Inr (None, c))"

text \<open>A collection under way has its first packet.\<close>

definition combine_ok :: "combinePacket \<Rightarrow> bool" where
  "combine_ok c \<longleftrightarrow> (if cb_combine c then cb_first c \<noteq> None else c = combine_clear)"

lemma combine_ok_clear [simp, inv_intros]: "combine_ok combine_clear"
  by (simp add: combine_ok_def combine_clear_def)

lemma combine_ok_step [inv_intros]:
  "combine_ok c \<Longrightarrow> combine_packet pac c = Inr (r, c') \<Longrightarrow> combine_ok c'"
  by (auto simp: combine_ok_def combine_packet_def combine_clear_def split: if_splits option.splits)

lemma combine_no_panic: "combine_ok c \<Longrightarrow> \<exists>r. combine_packet pac c = Inr r"
  by (auto simp: combine_ok_def combine_packet_def combine_clear_def split: option.splits)

text \<open>Feeding a list of packets, with the messages that come out.\<close>

fun combine_all :: "packet list \<Rightarrow> combinePacket \<Rightarrow> packet list \<times> combinePacket" where
  "combine_all [] c = ([], c)"
| "combine_all (p # ps) c =
     (case combine_packet p c of
        Inl e \<Rightarrow> ([], c)
      | Inr (r, c') \<Rightarrow>
          (let (out, c'') = combine_all ps c'
           in (case r of None \<Rightarrow> out | Some q \<Rightarrow> q # out, c'')))"

lemma combine_all_ok [inv_intros]: "combine_ok c \<Longrightarrow> combine_ok (snd (combine_all ps c))"
proof (induction ps arbitrary: c)
  case (Cons p ps)
  obtain r c' where r: "combine_packet p c = Inr (r, c')"
    using combine_no_panic [OF Cons.prems] by fast
  with Cons show ?case
    by (simp add: split_def Let_def combine_ok_step)
qed simp

lemma combine_all_append:
  assumes "combine_ok c"
  shows "combine_all (ps @ qs) c =
     (let (o1, c1) = combine_all ps c; (o2, c2) = combine_all qs c1 in (o1 @ o2, c2))"
  using assms
proof (induction ps arbitrary: c)
  case Nil
  then show ?case by (simp add: split_def)
next
  case (Cons p ps)
  obtain r c' where r: "combine_packet p c = Inr (r, c')"
    using combine_no_panic [OF Cons.prems] by fast
  with Cons show ?case
    by (simp add: split_def Let_def combine_ok_step split: option.split)
qed

text \<open>A run of split parts after the first is collected.\<close>

lemma combine_all_parts:
  "\<forall>p\<in>set ps. p_status p = statusDataNext \<Longrightarrow>
   combine_all ps \<lparr>cb_combine = True, cb_data = d, cb_first = Some f\<rparr> =
     ([], \<lparr>cb_combine = True, cb_data = d @ concat (map p_data ps), cb_first = Some f\<rparr>)"
  by (induction ps arbitrary: d) (auto simp: combine_packet_def)

text \<open>
  The packets of one message, in order, combine to exactly that message: its data, under the
  identity of the first packet, and the collector is clear again.
\<close>

lemma combine_all_message:
  assumes parts: "\<forall>p\<in>set ps. p_status p = statusDataNext"
    and last: "p_status l = statusData"
  shows "combine_all (ps @ [l]) combine_clear =
     ([set_status statusData (set_data (concat (map p_data (ps @ [l]))) (hd (ps @ [l])))], combine_clear)"
proof (cases ps)
  case Nil
  with last show ?thesis
    by (simp add: combine_packet_def combine_clear_def packet_setters)
next
  case (Cons p qs)
  then have first: "combine_packet p combine_clear =
      Inr (None, \<lparr>cb_combine = True, cb_data = p_data p, cb_first = Some p\<rparr>)"
    using parts by (simp add: combine_packet_def combine_clear_def)
  have qs: "\<forall>p\<in>set qs. p_status p = statusDataNext"
    using parts Cons by simp
  have "combine_all (qs @ [l]) \<lparr>cb_combine = True, cb_data = p_data p, cb_first = Some p\<rparr> =
     ([set_status statusData (set_data (p_data p @ concat (map p_data qs) @ p_data l) p)], combine_clear)"
    using last
    by (subst combine_all_append)
      (simp_all add: combine_ok_def combine_all_parts [OF qs] combine_packet_def)
  then show ?thesis
    by (simp add: Cons first)
qed

subsection \<open>Properties\<close>

text \<open>A writer that collects what it is given, for the statement about \<open>splitPacket\<close>.\<close>

definition collect :: "(bytes \<times> u8) list writer" where
  "collect d sp s = ((0, None), s @ [(d, sp)])"

lemma write_all_collect: "write_all collect frs s = (None, s @ frs)"
  by (induction frs arbitrary: s) (auto simp: collect_def)

lemma splitPacket_collect:
  assumes "0 < split_limit m"
  shows "snd (splitPacket m collect data []) = fragments (nat (split_limit m)) data"
proof -
  have "(\<lambda>((rid, err), s'). (err, s')) (splitPacket m collect data []) = (None, fragments (nat (split_limit m)) data)"
    unfolding splitPacket_def split_loop_write_all [OF assms] write_all_collect by simp
  then show ?thesis by (auto simp: split_def)
qed

text \<open>
  Splitting a message. With a maximum data length that is not negative, the pieces handed to the
  writer are the message cut in order, none longer than the limit (the UDP maximum when it is
  zero), and all of them but the last carry the split flag.
\<close>

lemma split_pieces:
  assumes "0 \<le> m"
  shows "let frs = snd (splitPacket m collect data []) in
     concat (map fst frs) = data \<and> (\<forall>x\<in>set frs. int (length (fst x)) \<le> split_limit m) \<and>
     map snd frs = replicate (length frs - 1) statusSplit @ [0]"
proof -
  define frs where "frs = snd (splitPacket m collect data [])"
  have m: "0 < split_limit m"
    using assms(1) by (simp add: split_limit_def maxDataLen_def headerLen_def)
  have frs: "frs = fragments (nat (split_limit m)) data"
    unfolding frs_def by (rule splitPacket_collect [OF m])
  obtain init d where shape: "frs = map (\<lambda>x. (x, statusSplit)) init @ [(d, 0)]"
    using fragments_shape [of "nat (split_limit m)" data] m frs by auto
  have "int (length (fst x)) \<le> split_limit m" if "x \<in> set frs" for x
    using fragments_length_le [of "nat (split_limit m)" "fst x" "snd x" data] that m frs by simp
  moreover have "map snd frs = replicate (length frs - 1) statusSplit @ [0]"
    unfolding shape by (simp add: o_def map_replicate_const)
  ultimately show ?thesis
    using concat_fragments [of "nat (split_limit m)" data] frs by (simp add: Let_def flip: frs_def)
qed

text \<open>
  C24: Combining. When the packets of several messages arrive in order, each message as some
  split packets and a last one, the collector gives exactly these messages, in order, each with
  the concatenated data under the identity of its first packet, and is clear again after each.
\<close>

lemma reassembly:
  assumes "\<forall>g\<in>set gs. (\<forall>p\<in>set (fst g). p_status p = statusDataNext) \<and> p_status (snd g) = statusData"
  shows "combine_all (concat (map (\<lambda>g. fst g @ [snd g]) gs)) combine_clear =
     (map (\<lambda>g. set_status statusData (set_data (concat (map p_data (fst g @ [snd g]))) (hd (fst g @ [snd g])))) gs,
      combine_clear)"
  using assms
proof (induction gs)
  case (Cons g gs)
  have "combine_all (fst g @ [snd g]) combine_clear =
      ([set_status statusData (set_data (concat (map p_data (fst g @ [snd g]))) (hd (fst g @ [snd g])))], combine_clear)"
    using Cons.prems by (intro combine_all_message) simp_all
  then show ?case
    using Cons combine_all_append [of combine_clear "fst g @ [snd g]" "concat (map (\<lambda>g. fst g @ [snd g]) gs)"]
    by (simp add: Let_def split_def del: combine_all.simps)
qed simp

lemma reassembly_witness:
  "map p_data (fst (combine_all [set_status statusDataNext (set_data [1] (newPacket 0)),
     set_status statusData (set_data [2] (newPacket 0))] combine_clear)) = [[1, 2]]"
  using reassembly [of "[([set_status statusDataNext (set_data [1] (newPacket 0))], set_status statusData (set_data [2] (newPacket 0)))]"]
  by (simp add: packet_setters del: combine_all.simps)

end
