(* ===== verification/Packet_Store.thy ===== *)
theory Packet_Store
  imports Packet
begin

section \<open>Interfaces of the packet queues\<close>

text \<open>
  The contracts the rest of the library relies on.  \<open>packet_store\<close> is what both queues offer:
  packets kept under their identifier.  \<open>fifo_store\<close> adds what the send queue promises while
  identifiers are fresh: the packets in the order they were added.  \<open>serial\<close> is the arithmetic
  of sequence numbers, a circle of identifiers \<open>rep n\<close> on which distances are right inside
  a window.
\<close>

locale packet_store =
  fixes get :: "'q \<Rightarrow> u32 \<Rightarrow> packet option"
    and add :: "packet \<Rightarrow> 'q \<Rightarrow> 'q"
    and del :: "u32 \<Rightarrow> 'q \<Rightarrow> packet option \<times> 'q"
    and len :: "'q \<Rightarrow> nat"
    and empty :: 'q
    and inv :: "'q \<Rightarrow> bool"
  assumes inv_empty: "inv empty"
    and inv_add: "inv q \<Longrightarrow> inv (add p q)"
    and inv_del: "inv q \<Longrightarrow> inv (snd (del i q))"
    and get_empty: "get empty i = None"
    and get_add: "inv q \<Longrightarrow> get (add p q) i = (if i = p_id p then Some p else get q i)"
    and fst_del: "inv q \<Longrightarrow> fst (del i q) = get q i"
    and get_del: "inv q \<Longrightarrow> get (snd (del i q)) j = (if j = i then None else get q j)"
    and get_id: "inv q \<Longrightarrow> get q i = Some p \<Longrightarrow> p_id p = i"
    and finite_get: "inv q \<Longrightarrow> finite (dom (get q))"
    and len_card: "inv q \<Longrightarrow> len q = card (dom (get q))"
begin

lemma dom_add: "inv q \<Longrightarrow> dom (get (add p q)) = insert (p_id p) (dom (get q))"
  by (auto simp: dom_def get_add)

lemma dom_del: "inv q \<Longrightarrow> dom (get (snd (del i q))) = dom (get q) - {i}"
  by (auto simp: dom_def get_del split: if_splits)

lemma len_add:
  "inv q \<Longrightarrow> len (add p q) = (if get q (p_id p) = None then Suc (len q) else len q)"
  by (auto simp: len_card inv_add dom_add finite_get card_insert_if)

lemma len_del:
  "inv q \<Longrightarrow> len (snd (del i q)) = (if get q i = None then len q else len q - 1)"
  by (simp add: len_card inv_del dom_del card_Diff_singleton_if domIff)

lemma len_0_iff: "inv q \<Longrightarrow> len q = 0 \<longleftrightarrow> (\<forall>i. get q i = None)"
  by (auto simp: len_card finite_get dom_def)

lemma len_empty: "len empty = 0"
  by (simp add: len_0_iff inv_empty get_empty)

text \<open>A packet that was added is returned once, whatever else is added and deleted around it.\<close>

lemma del_add: "inv q \<Longrightarrow> fst (del (p_id p) (add p q)) = Some p"
  by (simp add: fst_del inv_add get_add)

lemma del_twice: "inv q \<Longrightarrow> fst (del i (snd (del i q))) = None"
  by (simp add: fst_del inv_del get_del)

lemma get_fold_add:
  "inv q \<Longrightarrow> inv (fold add ps q) \<and>
   get (fold add ps q) i = (case find (\<lambda>p. p_id p = i) (rev ps) of Some p \<Rightarrow> Some p | None \<Rightarrow> get q i)"
proof (induction ps rule: rev_induct)
  case (snoc p ps)
  then show ?case by (simp add: inv_add get_add)
qed simp

end

locale fifo_store = packet_store get add del len empty inv
  for get :: "'q \<Rightarrow> u32 \<Rightarrow> packet option"
    and add :: "packet \<Rightarrow> 'q \<Rightarrow> 'q"
    and del :: "u32 \<Rightarrow> 'q \<Rightarrow> packet option \<times> 'q"
    and len :: "'q \<Rightarrow> nat"
    and empty :: 'q
    and inv :: "'q \<Rightarrow> bool" +
  fixes items :: "'q \<Rightarrow> packet list"
    and fifo :: "'q \<Rightarrow> bool"
  assumes fifo_inv: "fifo q \<Longrightarrow> inv q"
    and fifo_empty: "fifo empty"
    and fifo_add: "fifo q \<Longrightarrow> get q (p_id p) = None \<Longrightarrow> fifo (add p q)"
    and fifo_del: "fifo q \<Longrightarrow> fifo (snd (del i q))"
    and items_empty: "items empty = []"
    and items_add: "items (add p q) = items q @ [p]"
    and items_del: "fifo q \<Longrightarrow> items (snd (del i q)) = filter (\<lambda>p. p_id p \<noteq> i) (items q)"
    and items_distinct: "fifo q \<Longrightarrow> distinct (map p_id (items q))"
    and get_items: "fifo q \<Longrightarrow> get q i = Some p \<longleftrightarrow> p \<in> set (items q) \<and> p_id p = i"
begin

lemma dom_items: "fifo q \<Longrightarrow> dom (get q) = p_id ` set (items q)"
  by (auto simp: dom_def get_items)

lemma len_items: "fifo q \<Longrightarrow> len q = length (items q)"
  using distinct_card [of "map p_id (items q)"]
  by (simp add: len_card fifo_inv dom_items items_distinct)

text \<open>Deleting every identifier that is queued, in any order, leaves the queue empty.\<close>

lemma items_fold_del:
  "fifo q \<Longrightarrow> fifo (fold (\<lambda>i q. snd (del i q)) is q) \<and>
   items (fold (\<lambda>i q. snd (del i q)) is q) = filter (\<lambda>p. p_id p \<notin> set is) (items q)"
  by (induction "is" arbitrary: q) (auto simp: fifo_del items_del intro: filter_cong)

lemma drained:
  "fifo q \<Longrightarrow> p_id ` set (items q) \<subseteq> set is \<Longrightarrow> items (fold (\<lambda>i q. snd (del i q)) is q) = []"
  by (auto simp: items_fold_del filter_empty_conv)

end

locale serial =
  fixes nxt :: "u32 \<Rightarrow> u32"
    and dist :: "u32 \<Rightarrow> u32 \<Rightarrow> int"
    and rep :: "nat \<Rightarrow> u32"
    and half :: nat
  assumes nxt_rep: "nxt (rep n) = rep (Suc n)"
    and dist_rep: "- int half \<le> int n - int e \<Longrightarrow> int n - int e < int half \<Longrightarrow>
                   dist (rep e) (rep n) = int n - int e"
begin

lemma rep_inj: "rep m = rep n \<Longrightarrow> m \<le> n \<Longrightarrow> n < m + half \<Longrightarrow> m = n"
  using dist_rep [of n m] dist_rep [of m m] by simp

lemma rep_inj_window:
  "rep m = rep n \<Longrightarrow> m \<in> {e..<e + half} \<Longrightarrow> n \<in> {e..<e + half} \<Longrightarrow> m = n"
  using rep_inj [of m n] rep_inj [of n m] by (cases "m \<le> n") auto

lemma dist_pos_iff:
  "e < n + half + 1 \<Longrightarrow> n < e + half \<Longrightarrow> 0 < dist (rep e) (rep n) \<longleftrightarrow> e < n"
  "e < n + half + 1 \<Longrightarrow> n < e + half \<Longrightarrow> dist (rep e) (rep n) < 0 \<longleftrightarrow> n < e"
  "e < n + half + 1 \<Longrightarrow> n < e + half \<Longrightarrow> dist (rep e) (rep n) = 0 \<longleftrightarrow> n = e"
  using dist_rep [of n e] by simp_all

lemma nxt_funpow: "(nxt ^^ k) (rep n) = rep (n + k)"
  by (induction k) (simp_all add: nxt_rep)

end

end
