(* ===== verification/Receive_Queue.thy ===== *)
theory Receive_Queue
  imports Packet_Store
begin

section \<open>Receive queue (receive_queue.go)\<close>

text \<open>
  The queue of packets that arrived ahead of the expected one.  The mutex has no counterpart:
  an operation of the model is one critical section.
\<close>

record receive_queue =
  rq_ma :: "(u32, packet) gomap"

definition rq_init :: receive_queue where
  "rq_init = \<lparr>rq_ma = []\<rparr>"

definition rq_add :: "packet \<Rightarrow> receive_queue \<Rightarrow> receive_queue" where
  "rq_add pac r = r\<lparr>rq_ma := gm_set (p_id pac) pac (rq_ma r)\<rparr>"

definition rq_get :: "receive_queue \<Rightarrow> u32 \<Rightarrow> packet option" where
  "rq_get r i = gm_get (rq_ma r) i"

definition rq_delete :: "u32 \<Rightarrow> receive_queue \<Rightarrow> packet option \<times> receive_queue" where
  "rq_delete i r =
     (case rq_get r i of
        None \<Rightarrow> (None, r)
      | Some pac \<Rightarrow> (Some pac, r\<lparr>rq_ma := gm_del i (rq_ma r)\<rparr>))"

definition rq_len :: "receive_queue \<Rightarrow> nat" where
  "rq_len r = length (rq_ma r)"

text \<open>
  \<open>process\<close>: while the expected packet is queued, send it and delete it.  The callback and the
  channel's expected identifier are functions of a state \<open>'st\<close> (the channel without this queue):
  neither of the program's two callbacks touches the queue.  Go's tail call is the recursion.
\<close>

function process ::
  "('st \<Rightarrow> u32) \<Rightarrow> (packet \<Rightarrow> 'st \<Rightarrow> 'st) \<Rightarrow> receive_queue \<Rightarrow> 'st \<Rightarrow> receive_queue \<times> 'st"
where
  "process expected send r st =
     (case rq_get r (expected st) of
        None \<Rightarrow> (r, st)
      | Some pac \<Rightarrow> process expected send (snd (rq_delete (expected st) r)) (send pac st))"
  by pat_completeness auto
termination
  by (relation "measure (\<lambda>(e, s, r, st). length (rq_ma r))")
    (auto simp: rq_delete_def rq_get_def intro: gm_del_length_less)

declare process.simps [simp del]

text \<open>What every call of the callback keeps, \<open>process\<close> keeps.\<close>

lemma process_keeps:
  assumes "\<And>p st. P st \<Longrightarrow> P (send p st)" "P st"
  shows "P (snd (process expected send r st))"
  using assms
proof (induction expected send r st rule: process.induct)
  case (1 expected send r st)
  then show ?case
    by (subst process.simps) (auto split: option.split)
qed

subsection \<open>The queue is a packet store\<close>

definition rq_ok :: "receive_queue \<Rightarrow> bool" where
  "rq_ok r \<longleftrightarrow> gm_ok (rq_ma r) \<and> (\<forall>i p. rq_get r i = Some p \<longrightarrow> p_id p = i)"

interpretation rq: packet_store rq_get rq_add rq_delete rq_len rq_init rq_ok
proof unfold_locales
  fix q :: receive_queue
  assume "rq_ok q"
  then show "rq_len q = card (dom (rq_get q))"
    using gm_length_card [of "rq_ma q"] by (simp add: rq_ok_def rq_len_def rq_get_def [abs_def])
next
  fix q :: receive_queue
  show "finite (dom (rq_get q))"
    using finite_dom_map_of [of "rq_ma q"] by (simp add: rq_get_def [abs_def])
qed (auto simp: rq_ok_def rq_init_def rq_get_def rq_add_def rq_delete_def split: option.splits if_splits)

lemma process_rq_ok [inv_intros]:
  "rq_ok r \<Longrightarrow> rq_ok (fst (process expected send r st))"
proof (induction expected send r st rule: process.induct)
  case (1 expected send r st)
  then show ?case
    by (subst process.simps) (auto split: option.split intro: rq.inv_del)
qed

subsection \<open>Draining the queue\<close>

text \<open>
  The queue holds exactly the packets numbered by \<open>B\<close>: packet \<open>n\<close> is under \<open>rep n\<close> and its wire
  view is \<open>w n\<close>.
\<close>

definition rq_holds :: "(nat \<Rightarrow> u32 \<times> u8 \<times> bytes) \<Rightarrow> (nat \<Rightarrow> u32) \<Rightarrow> nat set \<Rightarrow> receive_queue \<Rightarrow> bool" where
  "rq_holds w rep B r \<longleftrightarrow> rq_ok r \<and>
     (\<forall>i. rq_get r i = None \<longleftrightarrow> i \<notin> rep ` B) \<and>
     (\<forall>n\<in>B. \<exists>p. rq_get r (rep n) = Some p \<and> wire_of p = w n)"

lemma rq_holds_init [simp]: "rq_holds w rep {} rq_init"
  by (simp add: rq_holds_def rq.inv_empty rq.get_empty)

lemma rq_holds_get: "rq_holds w rep B r \<Longrightarrow> n \<in> B \<Longrightarrow> \<exists>p. rq_get r (rep n) = Some p \<and> wire_of p = w n"
  by (simp add: rq_holds_def)

context serial
begin

lemma holds_add:
  assumes holds: "rq_holds w rep B r" and B: "insert n B \<subseteq> {e..<e + half}"
    and p: "p_id p = rep n" "wire_of p = w n"
  shows "rq_holds w rep (insert n B) (rq_add p r)"
proof -
  have ok: "rq_ok r" using holds by (simp add: rq_holds_def)
  have "m = n" if "m \<in> B" "rep m = rep n" for m
    using that B rep_inj_window [of m n e] by auto
  then show ?thesis
    using holds p unfolding rq_holds_def
    by (auto simp: rq.get_add [OF ok] rq.inv_add [OF ok] split: if_splits)
qed

lemma holds_delete:
  assumes holds: "rq_holds w rep B r" and B: "B \<subseteq> {e..<e + half}" and n: "n \<in> B"
  shows "rq_holds w rep (B - {n}) (snd (rq_delete (rep n) r))"
proof -
  have ok: "rq_ok r" using holds by (simp add: rq_holds_def)
  have inj: "m = n" if "m \<in> B" "rep m = rep n" for m
    using that B n rep_inj_window [of m n e] by (meson subsetD)
  show ?thesis
    unfolding rq_holds_def
  proof (intro conjI allI ballI)
    fix i
    show "rq_get (snd (rq_delete (rep n) r)) i = None \<longleftrightarrow> i \<notin> rep ` (B - {n})"
      using holds inj n by (auto simp: rq_holds_def rq.get_del [OF ok])
  next
    fix m assume "m \<in> B - {n}"
    then show "\<exists>p. rq_get (snd (rq_delete (rep n) r)) (rep m) = Some p \<and> wire_of p = w m"
      using holds inj by (auto simp: rq_holds_def rq.get_del [OF ok])
  qed (rule rq.inv_del [OF ok])
qed

text \<open>
  Draining sends exactly the run of consecutive packets that starts at the expected one, in
  order, and stops at the first gap.
\<close>

lemma process_drain:
  assumes "finite B" "B \<subseteq> {e..<e + half}" "rq_holds w rep B r" "expected st = rep e"
    and step: "\<And>p st n. expected st = rep n \<Longrightarrow> expected (send p st) = rep (Suc n)"
  shows "\<exists>ps. map wire_of ps = map w [e..<e + length ps] \<and>
     {e..<e + length ps} \<subseteq> B \<and> e + length ps \<notin> B \<and>
     (\<exists>r'. process expected send r st = (r', fold send ps st) \<and>
        rq_holds w rep (B - {e..<e + length ps}) r') \<and>
     expected (fold send ps st) = rep (e + length ps)"
  using assms(1-4)
proof (induction "card B" arbitrary: B e r st rule: less_induct)
  case less
  show ?case
  proof (cases "e \<in> B")
    case False
    have "rep e \<notin> rep ` B"
    proof
      assume "rep e \<in> rep ` B"
      then obtain n where n: "n \<in> B" "rep e = rep n" by blast
      with less.prems(2) have "e = n" by (intro rep_inj) auto
      with n False show False by simp
    qed
    then have "rq_get r (expected st) = None"
      using less.prems(3,4) by (simp add: rq_holds_def)
    then have "process expected send r st = (r, st)"
      by (simp add: process.simps)
    with False less.prems show ?thesis
      by (intro exI [of _ "[]"]) simp
  next
    case True
    obtain p where p: "rq_get r (rep e) = Some p" "wire_of p = w e"
      using rq_holds_get [OF less.prems(3) True] by blast
    let ?r = "snd (rq_delete (rep e) r)"
    have IH: "card (B - {e}) < card B" "finite (B - {e})" "B - {e} \<subseteq> {Suc e..<Suc e + half}"
      "rq_holds w rep (B - {e}) ?r" "expected (send p st) = rep (Suc e)"
      using card_Diff1_less [OF less.prems(1) True] less.prems True holds_delete step by auto
    obtain ps r' where ps: "map wire_of ps = map w [Suc e..<Suc e + length ps]"
      "{Suc e..<Suc e + length ps} \<subseteq> B - {e}" "Suc e + length ps \<notin> B - {e}"
      "process expected send ?r (send p st) = (r', fold send ps (send p st))"
      "rq_holds w rep (B - {e} - {Suc e..<Suc e + length ps}) r'"
      "expected (fold send ps (send p st)) = rep (Suc e + length ps)"
      using less.hyps [OF IH] by blast
    have range: "{e..<e + length (p # ps)} = insert e {Suc e..<Suc e + length ps}"
      by auto
    have "[e..<e + length (p # ps)] = e # [Suc e..<Suc e + length ps]"
      using upt_conv_Cons [of e "e + length (p # ps)"] by simp
    moreover have "process expected send r st = (r', fold send (p # ps) st)"
      using p ps(4) less.prems(4) by (subst process.simps) simp
    moreover have "B - {e..<e + length (p # ps)} = B - {e} - {Suc e..<Suc e + length ps}"
      unfolding range by auto
    ultimately show ?thesis
      using True p ps range by (intro exI [of _ "p # ps"]) auto
  qed
qed

end

subsection \<open>Properties\<close>

text \<open>
  C8: The receive queue is a map from identifiers to packets: a lookup after any sequence of
  additions gives the last packet added with that identifier or what was there before, deleting
  gives it once, and the length counts the distinct identifiers.
\<close>

lemma receive_queue_map:
  assumes "rq_ok q"
  shows "rq_get (fold rq_add ps q) i =
       (case find (\<lambda>p. p_id p = i) (rev ps) of Some p \<Rightarrow> Some p | None \<Rightarrow> rq_get q i) \<and>
     fst (rq_delete i q) = rq_get q i \<and> fst (rq_delete i (snd (rq_delete i q))) = None \<and>
     rq_len (rq_add p q) = (if rq_get q (p_id p) = None then Suc (rq_len q) else rq_len q)"
  using assms rq.get_fold_add rq.fst_del rq.del_twice rq.len_add by simp

lemma receive_queue_map_witness:
  "rq_get (fold rq_add [set_id 3 (newPacket 0), set_id 3 (newPacket 1)] rq_init) 3 = Some (set_id 3 (newPacket 1)) \<and>
   rq_len (rq_add (newPacket 0) rq_init) = 1"
  using receive_queue_map [of rq_init "[set_id 3 (newPacket 0), set_id 3 (newPacket 1)]" 3 "newPacket 0"] rq.inv_empty
  by (simp add: packet_setters rq.get_empty rq.len_empty)

end
