(* ===== verification/Send_Queue.thy ===== *)
theory Send_Queue
  imports Packet_Store
begin

section \<open>Send queue (send_queue.go)\<close>

text \<open>
  The packets that wait for their acknowledgement: a \<open>container/list\<close> in sending order and an
  index from identifiers to list elements.  An element is a number that stands for its address
  (\<open>sq_next\<close> is the next one allocated), the list pairs each element with the packet it holds.
  Packets are shared by address in Go; here an update of a queued packet is an update of the
  list.
\<close>

record send_queue =
  sq_queue :: "(nat \<times> packet) list"
  sq_index :: "(u32, nat) gomap"
  sq_next :: nat
  sq_timer :: timer

abbreviation minRTT :: duration where "minRTT \<equiv> 30 * millisecond"
abbreviation maxRTT :: duration where "maxRTT \<equiv> 3000 * millisecond"
abbreviation startRTT :: duration where "startRTT \<equiv> 200 * millisecond"
abbreviation maxRetransmitAttempts :: int where "maxRetransmitAttempts \<equiv> 100"

definition sq_empty :: send_queue where
  "sq_empty = \<lparr>sq_queue = [], sq_index = [], sq_next = 0, sq_timer = NoTimer\<rparr>"

text \<open>\<open>retransmit\<close> (re)arms the timer that runs the pass below in 100 ms.\<close>

definition sq_retransmit_arm :: "time \<Rightarrow> send_queue \<Rightarrow> send_queue" where
  "sq_retransmit_arm now q = q\<lparr>sq_timer := Armed (now + 100 * millisecond)\<rparr>"

definition sq_init :: "time \<Rightarrow> send_queue \<Rightarrow> send_queue" where
  "sq_init now q = sq_retransmit_arm now (q\<lparr>sq_index := []\<rparr>)"

definition sq_destroy :: "send_queue \<Rightarrow> send_queue" where
  "sq_destroy q = q\<lparr>sq_timer := timer_stop (sq_timer q)\<rparr>"

definition sq_add :: "packet \<Rightarrow> send_queue \<Rightarrow> send_queue" where
  "sq_add pac q =
     q\<lparr>sq_queue := sq_queue q @ [(sq_next q, pac)],
       sq_index := gm_set (p_id pac) (sq_next q) (sq_index q),
       sq_next := Suc (sq_next q)\<rparr>"

text \<open>\<open>get\<close> gives the element and the packet it holds.\<close>

definition sq_get :: "send_queue \<Rightarrow> u32 \<Rightarrow> (nat \<times> packet) option" where
  "sq_get q i =
     (case gm_get (sq_index q) i of
        None \<Rightarrow> None
      | Some e \<Rightarrow> map_option (Pair e) (map_of (sq_queue q) e))"

definition sq_delete :: "u32 \<Rightarrow> send_queue \<Rightarrow> packet option \<times> send_queue" where
  "sq_delete i q =
     (case sq_get q i of
        None \<Rightarrow> (None, q)
      | Some (e, pac) \<Rightarrow>
          (Some pac,
           q\<lparr>sq_queue := filter (\<lambda>x. fst x \<noteq> e) (sq_queue q), sq_index := gm_del i (sq_index q)\<rparr>))"

definition sq_getFirst :: "send_queue \<Rightarrow> packet option" where
  "sq_getFirst q = (case sq_queue q of [] \<Rightarrow> None | x # _ \<Rightarrow> Some (snd x))"

definition sq_getRetransmitAttempts :: "send_queue \<Rightarrow> int" where
  "sq_getRetransmitAttempts q =
     (case sq_getFirst q of None \<Rightarrow> 0 | Some pac \<Rightarrow> p_retransmitAttempts pac)"

definition sq_len :: "send_queue \<Rightarrow> nat" where
  "sq_len q = length (sq_index q)"

text \<open>
  One pass of the retransmit timer over the list: packets whose retransmit time has not come
  are skipped; a due packet counts one more attempt, and either exceeds the limit, which stops
  the pass and destroys the channel (the flag of the result), or gets a new retransmit time
  (\<open>setRt\<close>) and goes to the sender.  The result is the list, the packets sent, the flag.
\<close>

fun retransmit_loop ::
  "time \<Rightarrow> (packet \<Rightarrow> packet) \<Rightarrow> (nat \<times> packet) list \<Rightarrow> (nat \<times> packet) list \<times> packet list \<times> bool"
where
  "retransmit_loop now setRt [] = ([], [], False)"
| "retransmit_loop now setRt ((e, pac) # es) =
     (if \<not> p_retransmitTime pac < now then
        (let (es', out, dead) = retransmit_loop now setRt es in ((e, pac) # es', out, dead))
      else
        (let rta = p_retransmitAttempts pac + 1; pac = setRetransmitAttempts rta pac in
         if rta > maxRetransmitAttempts then ((e, pac) # es, [], True)
         else
           (let pac = setRt pac; (es', out, dead) = retransmit_loop now setRt es
            in ((e, pac) # es', pac # out, dead))))"

subsection \<open>Invariants\<close>

definition sq_ok :: "send_queue \<Rightarrow> bool" where
  "sq_ok q \<longleftrightarrow> gm_ok (sq_index q) \<and> distinct (map fst (sq_queue q)) \<and>
     (\<forall>x\<in>set (sq_queue q). fst x < sq_next q) \<and>
     (\<forall>i e. gm_get (sq_index q) i = Some e \<longrightarrow>
        (\<exists>p. map_of (sq_queue q) e = Some p \<and> p_id p = i))"

text \<open>Every list element is indexed, which holds while no queued identifier is added again.\<close>

definition sq_fifo :: "send_queue \<Rightarrow> bool" where
  "sq_fifo q \<longleftrightarrow> sq_ok q \<and> (\<forall>x\<in>set (sq_queue q). gm_get (sq_index q) (p_id (snd x)) = Some (fst x))"

definition sq_items :: "send_queue \<Rightarrow> packet list" where
  "sq_items q = map snd (sq_queue q)"

definition sq_lookup :: "send_queue \<Rightarrow> u32 \<Rightarrow> packet option" where
  "sq_lookup q i = map_option snd (sq_get q i)"

lemma sq_ok_empty [simp]: "sq_ok sq_empty"
  by (simp add: sq_ok_def sq_empty_def)

lemma sq_timer_frame [simp, frame_simps]:
  "sq_timer (sq_add pac q) = sq_timer q" "sq_timer (snd (sq_delete i q)) = sq_timer q"
  by (auto simp: sq_add_def sq_delete_def split: option.split)

lemma sq_okD:
  assumes "sq_ok q"
  shows "gm_ok (sq_index q)" "distinct (map fst (sq_queue q))"
    "x \<in> set (sq_queue q) \<Longrightarrow> fst x < sq_next q"
    "gm_get (sq_index q) i = Some e \<Longrightarrow> \<exists>p. map_of (sq_queue q) e = Some p \<and> p_id p = i"
  using assms by (auto simp: sq_ok_def)

text \<open>With the invariant, the element an index entry names exists.\<close>

lemma sq_get_index:
  assumes "sq_ok q"
  shows "sq_get q i = None \<longleftrightarrow> gm_get (sq_index q) i = None"
  using sq_okD(4) [OF assms] by (force simp: sq_get_def split: option.split)

lemma sq_lookup_None: "sq_ok q \<Longrightarrow> sq_lookup q i = None \<longleftrightarrow> gm_get (sq_index q) i = None"
  by (simp add: sq_lookup_def sq_get_index)

lemma map_of_filter_ne:
  "map_of (filter (\<lambda>x. fst x \<noteq> e) xs) d = (if d = e then None else map_of xs d)"
  by (induction xs) auto

lemma sq_next_fresh: "sq_ok q \<Longrightarrow> map_of (sq_queue q) (sq_next q) = None"
  using sq_okD(3) [of q] by (fastforce simp: map_of_eq_None_iff)

lemma sq_add_find:
  "map_of (sq_queue q @ [(k, p)]) e =
     (case map_of (sq_queue q) e of Some x \<Rightarrow> Some x | None \<Rightarrow> if e = k then Some p else None)"
  by (simp add: map_add_def split: option.split)

lemma sq_ok_add:
  assumes ok: "sq_ok q"
  shows "sq_ok (sq_add p q)"
  unfolding sq_ok_def
proof (intro conjI allI impI ballI)
  show "gm_ok (sq_index (sq_add p q))"
    using sq_okD(1) [OF ok] by (simp add: sq_add_def gm_ok_set)
  show "distinct (map fst (sq_queue (sq_add p q)))"
    using sq_okD(2,3) [OF ok] by (fastforce simp: sq_add_def)
  show "fst x < sq_next (sq_add p q)" if "x \<in> set (sq_queue (sq_add p q))" for x
    using that sq_okD(3) [OF ok, of x] by (auto simp: sq_add_def less_Suc_eq)
  fix i e assume e: "gm_get (sq_index (sq_add p q)) i = Some e"
  show "\<exists>p'. map_of (sq_queue (sq_add p q)) e = Some p' \<and> p_id p' = i"
  proof (cases "i = p_id p")
    case True
    with e have "e = sq_next q" by (simp add: sq_add_def)
    then show ?thesis
      using True sq_next_fresh [OF ok] by (simp add: sq_add_def sq_add_find del: map_of_append)
  next
    case False
    with e have "gm_get (sq_index q) i = Some e" by (simp add: sq_add_def)
    then show ?thesis
      using sq_okD(4) [OF ok, of i e] by (auto simp: sq_add_def sq_add_find simp del: map_of_append)
  qed
qed

lemma sq_lookup_add:
  assumes ok: "sq_ok q"
  shows "sq_lookup (sq_add p q) i = (if i = p_id p then Some p else sq_lookup q i)"
proof (cases "i = p_id p")
  case True
  then show ?thesis
    using sq_next_fresh [OF ok]
    by (simp add: sq_lookup_def sq_get_def sq_add_def sq_add_find del: map_of_append)
next
  case False
  then show ?thesis
    using sq_okD(4) [OF ok, of i]
    by (force simp: sq_lookup_def sq_get_def sq_add_def sq_add_find simp del: map_of_append split: option.split)
qed

text \<open>Two identifiers never share an element.\<close>

lemma sq_index_inj:
  "sq_ok q \<Longrightarrow> gm_get (sq_index q) i = Some e \<Longrightarrow> gm_get (sq_index q) j = Some e \<Longrightarrow> i = j"
  by (metis option.inject sq_okD(4))

lemma sq_get_Some:
  "sq_get q i = Some (e, p) \<longleftrightarrow> gm_get (sq_index q) i = Some e \<and> map_of (sq_queue q) e = Some p"
  by (auto simp: sq_get_def split: option.splits)

lemma sq_ok_delete:
  assumes "sq_ok q"
  shows "sq_ok (snd (sq_delete i q))"
proof (cases "sq_get q i")
  case None
  then show ?thesis using assms by (simp add: sq_delete_def)
next
  case (Some x)
  obtain e p where x: "x = (e, p)" by (cases x)
  have e: "gm_get (sq_index q) i = Some e"
    using Some x by (simp add: sq_get_Some)
  have "d \<noteq> e" if "gm_get (sq_index q) j = Some d" "j \<noteq> i" for j d
    using sq_index_inj [OF assms] that e by blast
  then show ?thesis
    using assms Some x
    by (auto simp: sq_ok_def sq_delete_def map_of_filter_ne distinct_map_filter)
qed

lemma sq_lookup_delete:
  assumes "sq_ok q"
  shows "sq_lookup (snd (sq_delete i q)) j = (if j = i then None else sq_lookup q j)"
proof (cases "sq_get q i")
  case None
  then show ?thesis by (simp add: sq_delete_def sq_lookup_def)
next
  case (Some x)
  obtain e p where x: "x = (e, p)" by (cases x)
  then have "gm_get (sq_index q) j \<noteq> Some e" if "j \<noteq> i"
    using Some sq_index_inj [OF assms, of i e j] that by (auto simp: sq_get_Some)
  then show ?thesis
    using Some x
    by (auto simp: sq_delete_def sq_lookup_def sq_get_def map_of_filter_ne split: option.split)
qed

lemma dom_sq_lookup: "sq_ok q \<Longrightarrow> dom (sq_lookup q) = dom (gm_get (sq_index q))"
  using sq_lookup_None by (auto simp: dom_def)

interpretation sq: packet_store sq_lookup sq_add sq_delete sq_len sq_empty sq_ok
proof unfold_locales
  fix q and i :: u32 assume ok: "sq_ok q"
  show "sq_len q = card (dom (sq_lookup q))"
    using gm_length_card [of "sq_index q"] ok by (simp add: sq_len_def dom_sq_lookup sq_okD(1))
  show "finite (dom (sq_lookup q))"
    by (simp add: dom_sq_lookup ok finite_dom_map_of)
  show "fst (sq_delete i q) = sq_lookup q i"
    by (simp add: sq_delete_def sq_lookup_def split: option.split)
  fix p assume "sq_lookup q i = Some p"
  then show "p_id p = i"
    using sq_okD(4) [OF ok] by (force simp: sq_lookup_def sq_get_Some)
qed (auto simp: sq_ok_add sq_ok_delete sq_lookup_add sq_lookup_delete,
     simp add: sq_lookup_def sq_get_def sq_empty_def)

text \<open>While identifiers are fresh, the queue is the list of its packets in sending order.\<close>

lemma sq_fifo_delete:
  assumes "sq_fifo q"
  shows "sq_items (snd (sq_delete i q)) = filter (\<lambda>p. p_id p \<noteq> i) (sq_items q)"
    and "sq_fifo (snd (sq_delete i q))"
proof -
  have ok: "sq_ok q" and fifo: "\<And>x. x \<in> set (sq_queue q) \<Longrightarrow> gm_get (sq_index q) (p_id (snd x)) = Some (fst x)"
    using assms by (simp_all add: sq_fifo_def)
  have id: "fst x = e \<longleftrightarrow> p_id (snd x) = i"
    if "gm_get (sq_index q) i = Some e" "x \<in> set (sq_queue q)" for x e
    using fifo [OF that(2)] that(1) sq_index_inj [OF ok] by force
  show "sq_items (snd (sq_delete i q)) = filter (\<lambda>p. p_id p \<noteq> i) (sq_items q)"
  proof (cases "sq_get q i")
    case None
    then have "\<forall>p\<in>set (sq_items q). p_id p \<noteq> i"
      using fifo by (auto simp: sq_get_index [OF ok] sq_items_def)
    then show ?thesis
      using None by (simp add: sq_delete_def)
  next
    case (Some x)
    obtain e p where x: "x = (e, p)" by (cases x)
    have "filter (\<lambda>x. fst x \<noteq> e) (sq_queue q) = filter (\<lambda>x. p_id (snd x) \<noteq> i) (sq_queue q)"
      using Some x id by (intro filter_cong) (auto simp: sq_get_Some)
    then show ?thesis
      using Some x by (simp add: sq_delete_def sq_items_def filter_map o_def)
  qed
  show "sq_fifo (snd (sq_delete i q))"
    using sq_ok_delete [OF ok, of i] fifo id
    by (auto simp: sq_fifo_def sq_delete_def sq_get_Some split: option.split)
qed

lemma sq_fifo_add:
  assumes "sq_fifo q" "sq_lookup q (p_id p) = None"
  shows "sq_fifo (sq_add p q)"
proof -
  have ok: "sq_ok q" using assms(1) by (simp add: sq_fifo_def)
  have "p_id (snd x) \<noteq> p_id p" if "x \<in> set (sq_queue q)" for x
    using that assms by (force simp: sq_fifo_def sq_lookup_None [OF ok])
  then show ?thesis
    using assms sq_ok_add [OF ok, of p] by (auto simp: sq_fifo_def sq_add_def)
qed

lemma sq_fifo_distinct:
  assumes "sq_fifo q"
  shows "distinct (map p_id (sq_items q))"
proof -
  have "inj_on (p_id \<circ> snd) (set (sq_queue q))"
  proof (rule inj_onI)
    fix x y assume xy: "x \<in> set (sq_queue q)" "y \<in> set (sq_queue q)" "(p_id \<circ> snd) x = (p_id \<circ> snd) y"
    then have "fst x = fst y"
      using assms unfolding sq_fifo_def by (metis comp_apply option.inject)
    then show "x = y"
      using xy(1,2) assms sq_okD(2) [of q] by (metis eq_key_imp_eq_value prod.collapse sq_fifo_def)
  qed
  moreover have "distinct (sq_queue q)"
    using assms sq_okD(2) [of q] by (simp add: sq_fifo_def distinct_map)
  ultimately show ?thesis
    by (simp add: sq_items_def distinct_map)
qed

lemma sq_fifo_lookup:
  assumes "sq_fifo q"
  shows "sq_lookup q i = Some p \<longleftrightarrow> p \<in> set (sq_items q) \<and> p_id p = i"
proof
  have ok: "sq_ok q" using assms by (simp add: sq_fifo_def)
  show "p \<in> set (sq_items q) \<and> p_id p = i" if "sq_lookup q i = Some p"
    using that sq.get_id [OF ok that]
    by (force simp: sq_lookup_def sq_get_Some sq_items_def dest: map_of_SomeD)
  assume p: "p \<in> set (sq_items q) \<and> p_id p = i"
  then obtain e where e: "(e, p) \<in> set (sq_queue q)" by (auto simp: sq_items_def)
  then have "gm_get (sq_index q) i = Some e"
    using p assms by (force simp: sq_fifo_def)
  then show "sq_lookup q i = Some p"
    using e sq_okD(2) [OF ok] by (simp add: sq_lookup_def sq_get_def)
qed

interpretation sqf: fifo_store sq_lookup sq_add sq_delete sq_len sq_empty sq_ok sq_items sq_fifo
proof unfold_locales
  show "sq_fifo sq_empty" "sq_items sq_empty = []"
    by (simp_all add: sq_fifo_def) (simp_all add: sq_empty_def sq_items_def)
  show "sq_items (sq_add p q) = sq_items q @ [p]" for p q
    by (simp add: sq_items_def sq_add_def)
qed (simp_all add: sq_fifo_delete sq_fifo_add sq_fifo_distinct sq_fifo_lookup, simp add: sq_fifo_def)

lemma sq_fifo_timer [simp]: "sq_fifo (q\<lparr>sq_timer := t\<rparr>) = sq_fifo q" "sq_items (q\<lparr>sq_timer := t\<rparr>) = sq_items q"
  by (simp_all add: sq_fifo_def sq_ok_def sq_items_def)

subsection \<open>The retransmit pass\<close>

text \<open>No packet is added, dropped, reordered or changed on the wire.\<close>

lemma retransmit_loop_frame:
  assumes "\<And>p. wire_of (setRt p) = wire_of p"
  shows "map fst (fst (retransmit_loop now setRt es)) = map fst es"
    and "map (wire_of \<circ> snd) (fst (retransmit_loop now setRt es)) = map (wire_of \<circ> snd) es"
  using assms
  by (induction now setRt es rule: retransmit_loop.induct) (auto simp: Let_def split: prod.split)

lemma sq_ok_views:
  assumes ok: "sq_ok q" and fst: "map fst es = map fst (sq_queue q)"
    and wire: "map (wire_of \<circ> snd) es = map (wire_of \<circ> snd) (sq_queue q)"
  shows "sq_ok (q\<lparr>sq_queue := es\<rparr>)"
proof -
  have eq: "map (\<lambda>(e, p). (e, wire_of p)) es = map (\<lambda>(e, p). (e, wire_of p)) (sq_queue q)"
  proof (rule nth_equalityI)
    show len: "length (map (\<lambda>(e, p). (e, wire_of p)) es) = length (map (\<lambda>(e, p). (e, wire_of p)) (sq_queue q))"
      using arg_cong [OF fst, of length] by simp
    fix i assume "i < length (map (\<lambda>(e, p). (e, wire_of p)) es)"
    then show "map (\<lambda>(e, p). (e, wire_of p)) es ! i = map (\<lambda>(e, p). (e, wire_of p)) (sq_queue q) ! i"
      using len arg_cong [OF fst, of "\<lambda>xs. xs ! i"] arg_cong [OF wire, of "\<lambda>xs. xs ! i"] by (simp add: split_def)
  qed
  have view: "map_option wire_of (map_of es e) = map_option wire_of (map_of (sq_queue q) e)" for e
    using arg_cong [OF eq, of "\<lambda>xs. map_of xs e"] by (simp add: map_of_map)
  have "\<exists>p. map_of es e = Some p \<and> p_id p = i" if "gm_get (sq_index q) i = Some e" for i e
    using sq_okD(4) [OF ok that] view [of e] by (auto simp: wire_of_def)
  moreover have "x \<in> set es \<Longrightarrow> fst x < sq_next q" for x
    using sq_okD(3) [OF ok] arg_cong [OF fst, of set] by (metis (no_types, opaque_lifting) imageE imageI list.set_map)
  ultimately show ?thesis
    using sq_okD(1,2) [OF ok] fst by (simp add: sq_ok_def)
qed

text \<open>What goes out are the due packets, in queue order; all of them unless the channel dies.\<close>

lemma retransmit_loop_sent:
  assumes "\<And>p. wire_of (setRt p) = wire_of p" "\<not> snd (snd (retransmit_loop now setRt es))"
  shows "map wire_of (fst (snd (retransmit_loop now setRt es))) =
     map wire_of (filter (\<lambda>p. p_retransmitTime p < now) (map snd es))"
  using assms
  by (induction now setRt es rule: retransmit_loop.induct) (auto simp: Let_def split: prod.splits if_splits)

lemma retransmit_loop_dead_iff:
  "snd (snd (retransmit_loop now setRt es)) \<longleftrightarrow>
     (\<exists>x\<in>set es. p_retransmitTime (snd x) < now \<and> maxRetransmitAttempts \<le> p_retransmitAttempts (snd x))"
proof (induction now setRt es rule: retransmit_loop.induct)
  case (2 now setRt e pac es)
  then show ?case
    by (cases "p_retransmitTime pac < now"; cases "maxRetransmitAttempts \<le> p_retransmitAttempts pac")
      (simp_all add: Let_def split_def)
qed simp

subsection \<open>Properties\<close>

text \<open>
  The send queue keeps the packets in the order they were written. Adding a packet with a fresh
  identifier puts it last; an acknowledgement removes the packet with that identifier, which it
  returns, and leaves the others in order; and once every queued identifier is acknowledged, in
  any order, the queue is empty.
\<close>

lemma send_queue_order:
  assumes "sq_fifo q"
  shows "sq_items (sq_add p q) = sq_items q @ [p] \<and>
     (sq_lookup q (p_id p) = None \<longrightarrow> sq_fifo (sq_add p q)) \<and>
     fst (sq_delete i q) = find (\<lambda>p. p_id p = i) (sq_items q) \<and>
     sq_items (snd (sq_delete i q)) = filter (\<lambda>p. p_id p \<noteq> i) (sq_items q) \<and> sq_fifo (snd (sq_delete i q)) \<and>
     (p_id ` set (sq_items q) \<subseteq> set is \<longrightarrow> sq_items (fold (\<lambda>i q. snd (sq_delete i q)) is q) = []) \<and>
     sq_len q = length (sq_items q)"
proof -
  have "fst (sq_delete i q) = find (\<lambda>p. p_id p = i) (sq_items q)"
  proof (cases "find (\<lambda>p. p_id p = i) (sq_items q)")
    case None
    then have "\<nexists>p. sq_lookup q i = Some p"
      using sqf.get_items [OF assms, of i] by (auto simp: find_None_iff)
    then show ?thesis using None sq.fst_del [OF sqf.fifo_inv [OF assms]] by simp
  next
    case (Some p)
    then have "p \<in> set (sq_items q) \<and> p_id p = i" by (auto simp: find_Some_iff)
    then show ?thesis using Some sq.fst_del [OF sqf.fifo_inv [OF assms]] sqf.get_items [OF assms, of i p] by simp
  qed
  then show ?thesis
    using assms sqf.items_add sqf.fifo_add sqf.items_del sqf.fifo_del sqf.drained sqf.len_items by simp
qed


end
