(* ===== verification/Statistic.thy ===== *)
theory Statistic
  imports Tru_Prelude
begin

section \<open>Channel statistics (speed.go, statistic.go, statistic_log.go)\<close>

text \<open>
  The per-channel counters and activity times, the packets-per-second meter, and the bounded
  log of main messages.  An instant is nanoseconds since 1970 and not negative.
\<close>

subsection \<open>The speed meter (speed.go)\<close>

abbreviation sumArrayLen :: nat where "sumArrayLen \<equiv> 10"

record speed =
  sp_speed :: int
  sp_current :: nat
  sp_currentSum :: int
  sp_sumArray :: "int list"
  sp_timer :: timer

definition speed_zero :: speed where
  "speed_zero =
     \<lparr>sp_speed = 0, sp_current = 0, sp_currentSum = 0, sp_sumArray = replicate sumArrayLen 0,
      sp_timer = NoTimer\<rparr>"

text \<open>\<open>process\<close> arms the 100 ms timer; when it fires, \<open>speed_tick\<close> runs.\<close>

definition speed_process :: "time \<Rightarrow> speed \<Rightarrow> speed" where
  "speed_process now s = s\<lparr>sp_timer := Armed (now + 100 * millisecond)\<rparr>"

definition speed_destroy :: "speed \<Rightarrow> speed" where
  "speed_destroy s = s\<lparr>sp_timer := timer_stop (sp_timer s)\<rparr>"

definition speed_slot :: "time \<Rightarrow> nat" where
  "speed_slot now = nat (now div 1000000 div 100 mod 10)"

text \<open>\<open>add\<close>; \<open>count\<close> is true for a call without the argument, which counts a packet.\<close>

definition speed_add :: "time \<Rightarrow> bool \<Rightarrow> speed \<Rightarrow> speed" where
  "speed_add now count s =
     (let i = speed_slot now;
          s = (if i \<noteq> sp_current s then
                 (let arr = (sp_sumArray s)[sp_current s := sp_currentSum s]
                  in s\<lparr>sp_sumArray := arr, sp_speed := sum_list arr, sp_currentSum := 0, sp_current := i\<rparr>)
               else s)
      in if count then s\<lparr>sp_currentSum := sp_currentSum s + 1\<rparr> else s)"

definition speed_tick :: "time \<Rightarrow> speed \<Rightarrow> speed" where
  "speed_tick now s = speed_process now (speed_add now False s)"

definition speed_ok :: "speed \<Rightarrow> bool" where
  "speed_ok s \<longleftrightarrow> length (sp_sumArray s) = sumArrayLen \<and> sp_current s < sumArrayLen \<and>
     sp_speed s = sum_list (sp_sumArray s)"

lemma sp_timer_frame [simp, frame_simps]:
  "sp_timer (speed_add now c s) = sp_timer s" "sp_timer (speed_destroy s) = timer_stop (sp_timer s)"
  by (simp_all add: speed_add_def speed_destroy_def Let_def)

lemma speed_slot_less: "speed_slot now < sumArrayLen"
  using pos_mod_bound [of 10 "now div 1000000 div 100"] pos_mod_sign [of 10 "now div 1000000 div 100"]
  by (simp add: speed_slot_def nat_less_iff)

lemma speed_ok_zero [simp, inv_intros]: "speed_ok speed_zero"
  by (simp add: speed_ok_def speed_zero_def sum_list_replicate)

lemma speed_ok_add [inv_intros]: "speed_ok s \<Longrightarrow> speed_ok (speed_add now count s)"
  by (auto simp: speed_ok_def speed_add_def Let_def speed_slot_less)

lemma speed_ok_timer [inv_intros]:
  "speed_ok s \<Longrightarrow> speed_ok (speed_process now s)" "speed_ok s \<Longrightarrow> speed_ok (speed_destroy s)"
  by (simp_all add: speed_ok_def speed_process_def speed_destroy_def)

text \<open>
  The abstract meter: one counter for each of the ten 100 ms slots, where entering a slot
  clears its old counter.
\<close>

definition speed_window :: "speed \<Rightarrow> int list" where
  "speed_window s = (sp_sumArray s)[sp_current s := sp_currentSum s]"

definition window_add :: "nat \<Rightarrow> nat \<Rightarrow> bool \<Rightarrow> int list \<Rightarrow> int list" where
  "window_add cur i count w =
     (let w = (if i \<noteq> cur then w[i := 0] else w) in if count then w[i := w ! i + 1] else w)"

lemma speed_add_refines:
  assumes "speed_ok s"
  shows "speed_window (speed_add now count s) =
     window_add (sp_current s) (speed_slot now) count (speed_window s)"
  using assms speed_slot_less [of now]
  by (auto simp: speed_window_def speed_add_def window_add_def speed_ok_def Let_def)

lemma speed_add_speed:
  "sp_speed (speed_add now count s) =
     (if speed_slot now \<noteq> sp_current s then sum_list (speed_window s) else sp_speed s)"
  by (simp add: speed_add_def speed_window_def Let_def)

subsection \<open>Channel statistic (statistic.go)\<close>

record statistic =
  st_destroyed :: bool
  st_started :: time
  st_lastActivity :: time
  st_lastSend :: time
  st_lastDelayCheck :: time
  st_timer :: timer
  st_sendDelay :: int
  st_tripTime :: duration
  st_tripTimeMidle :: duration
  st_send :: i64
  st_sendSpeed :: speed
  st_ackRecv :: i64
  st_ackRecvDrop :: i64
  st_retransmit :: i64
  st_recv :: i64
  st_recvSpeed :: speed
  st_drop :: i64

abbreviation checkInactiveAfter :: duration where "checkInactiveAfter \<equiv> 500 * millisecond"
abbreviation pingInactiveAfter :: duration where "pingInactiveAfter \<equiv> 4 * second"
abbreviation disconnectInactiveAfter :: duration where "disconnectInactiveAfter \<equiv> 6 * second"

definition stat_zero :: statistic where
  "stat_zero =
     \<lparr>st_destroyed = False, st_started = 0, st_lastActivity = 0, st_lastSend = 0,
      st_lastDelayCheck = 0, st_timer = NoTimer, st_sendDelay = 0, st_tripTime = 0,
      st_tripTimeMidle = 0, st_send = 0, st_sendSpeed = speed_zero, st_ackRecv = 0,
      st_ackRecvDrop = 0, st_retransmit = 0, st_recv = 0, st_recvSpeed = speed_zero, st_drop = 0\<rparr>"

definition stat_setLastActivity :: "time \<Rightarrow> statistic \<Rightarrow> statistic" where
  "stat_setLastActivity now s = s\<lparr>st_lastActivity := now\<rparr>"

definition stat_armActivity :: "time \<Rightarrow> statistic \<Rightarrow> statistic" where
  "stat_armActivity now s = s\<lparr>st_timer := Armed (now + checkInactiveAfter)\<rparr>"

definition stat_init :: "time \<Rightarrow> statistic \<Rightarrow> statistic" where
  "stat_init now s =
     (let s = stat_armActivity now (stat_setLastActivity now (s\<lparr>st_started := now\<rparr>))
      in s\<lparr>st_sendSpeed := speed_process now (st_sendSpeed s),
           st_recvSpeed := speed_process now (st_recvSpeed s)\<rparr>)"

definition stat_destroy :: "statistic \<Rightarrow> statistic" where
  "stat_destroy s =
     s\<lparr>st_timer := timer_stop (st_timer s), st_sendSpeed := speed_destroy (st_sendSpeed s),
       st_recvSpeed := speed_destroy (st_recvSpeed s), st_destroyed := True\<rparr>"

definition stat_setSend :: "time \<Rightarrow> statistic \<Rightarrow> statistic" where
  "stat_setSend now s = s\<lparr>st_send := st_send s + 1, st_sendSpeed := speed_add now True (st_sendSpeed s)\<rparr>"

definition stat_setAckReceived :: "statistic \<Rightarrow> statistic" where
  "stat_setAckReceived s = s\<lparr>st_ackRecv := st_ackRecv s + 1\<rparr>"

definition stat_setAckDropReceived :: "statistic \<Rightarrow> statistic" where
  "stat_setAckDropReceived s = s\<lparr>st_ackRecvDrop := st_ackRecvDrop s + 1\<rparr>"

definition stat_setRecv :: "time \<Rightarrow> statistic \<Rightarrow> statistic" where
  "stat_setRecv now s = s\<lparr>st_recv := st_recv s + 1, st_recvSpeed := speed_add now True (st_recvSpeed s)\<rparr>"

definition stat_setRetransmit :: "statistic \<Rightarrow> statistic" where
  "stat_setRetransmit s = s\<lparr>st_retransmit := st_retransmit s + 1\<rparr>"

definition stat_setDrop :: "statistic \<Rightarrow> statistic" where
  "stat_setDrop s = s\<lparr>st_drop := st_drop s + 1\<rparr>"

definition stat_setSendDelay :: "int \<Rightarrow> statistic \<Rightarrow> statistic" where
  "stat_setSendDelay d s = s\<lparr>st_sendDelay := d\<rparr>"

definition stat_setLastSend :: "time \<Rightarrow> statistic \<Rightarrow> statistic" where
  "stat_setLastSend now s = s\<lparr>st_lastSend := now\<rparr>"

lemmas stat_updates = stat_setLastActivity_def stat_armActivity_def stat_setSend_def
  stat_setAckReceived_def stat_setAckDropReceived_def stat_setRecv_def stat_setRetransmit_def
  stat_setDrop_def stat_setSendDelay_def stat_setLastSend_def

text \<open>
  The activity timer's function: which of the two callbacks it calls, and whether it arms itself
  again.
\<close>

datatype activity = Inactive | Keepalive | Active

definition stat_activity :: "time \<Rightarrow> statistic \<Rightarrow> activity" where
  "stat_activity now s =
     (if now - st_lastActivity s > disconnectInactiveAfter then Inactive
      else if now - st_lastActivity s > pingInactiveAfter then Keepalive
      else Active)"

lemma stat_activity_iff:
  "stat_activity now s = Inactive \<longleftrightarrow> st_lastActivity s + disconnectInactiveAfter < now"
  "stat_activity now s = Keepalive \<longleftrightarrow>
     st_lastActivity s + pingInactiveAfter < now \<and> now \<le> st_lastActivity s + disconnectInactiveAfter"
  "stat_activity now s = Active \<longleftrightarrow> now \<le> st_lastActivity s + pingInactiveAfter"
  by (auto simp: stat_activity_def)

text \<open>The activities in order: a channel that hears nothing only gets worse.\<close>

fun activity_rank :: "activity \<Rightarrow> nat" where
  "activity_rank Inactive = 0"
| "activity_rank Keepalive = 1"
| "activity_rank Active = 2"

lemma activity_rank_inj: "activity_rank a = activity_rank b \<Longrightarrow> a = b"
  by (cases a; cases b) simp_all

instantiation activity :: linorder
begin

definition less_eq_activity :: "activity \<Rightarrow> activity \<Rightarrow> bool" where
  "a \<le> b \<longleftrightarrow> activity_rank a \<le> activity_rank b"

definition less_activity :: "activity \<Rightarrow> activity \<Rightarrow> bool" where
  "a < b \<longleftrightarrow> activity_rank a < activity_rank b"

instance
  by standard (auto simp: less_eq_activity_def less_activity_def intro: activity_rank_inj)

end

lemma stat_activity_antimono:
  assumes "now \<le> now'" "st_lastActivity s' \<le> st_lastActivity s"
  shows "stat_activity now' s' \<le> stat_activity now s"
  using assms by (simp add: less_eq_activity_def stat_activity_def)

text \<open>Which updates leave the destroyed flag and the trip time alone.\<close>

lemma stat_frame [simp, frame_simps]:
  "st_destroyed (stat_setLastActivity t s) = st_destroyed s"
  "st_destroyed (stat_setSend t s) = st_destroyed s"
  "st_destroyed (stat_setAckReceived s) = st_destroyed s"
  "st_destroyed (stat_setAckDropReceived s) = st_destroyed s"
  "st_destroyed (stat_setRecv t s) = st_destroyed s"
  "st_destroyed (stat_setRetransmit s) = st_destroyed s"
  "st_destroyed (stat_setDrop s) = st_destroyed s"
  "st_destroyed (stat_setSendDelay d s) = st_destroyed s"
  "st_destroyed (stat_setLastSend t s) = st_destroyed s"
  "st_destroyed (stat_destroy s)"
  by (simp_all add: stat_updates stat_destroy_def)

lemma stat_frame_timer [simp, frame_simps]:
  "st_timer (stat_setLastActivity t s) = st_timer s"
  "st_timer (stat_setSend t s) = st_timer s"
  "st_timer (stat_setAckReceived s) = st_timer s"
  "st_timer (stat_setAckDropReceived s) = st_timer s"
  "st_timer (stat_setRecv t s) = st_timer s"
  "st_timer (stat_setRetransmit s) = st_timer s"
  "st_timer (stat_setDrop s) = st_timer s"
  "st_timer (stat_setSendDelay d s) = st_timer s"
  "st_timer (stat_setLastSend t s) = st_timer s"
  by (simp_all add: stat_updates)

text \<open>Rows of the printed table: title and lines around the channels, and totals from two on.\<close>

definition stat_numRows :: "nat \<Rightarrow> nat" where
  "stat_numRows n =
     (let numRows = (if n > 1 then n + 1 else n) in if numRows > 0 then numRows + 3 + 1 else numRows)"

text \<open>Queries; their locks are those of the fields.\<close>

definition speed_get :: "speed \<Rightarrow> int" where
  "speed_get s = sp_speed s"

definition stat_isDestroyed :: "statistic \<Rightarrow> bool" where
  "stat_isDestroyed s = st_destroyed s"

definition stat_getLastActivity :: "statistic \<Rightarrow> time" where
  "stat_getLastActivity s = st_lastActivity s"

definition stat_getSendDelay :: "statistic \<Rightarrow> int" where
  "stat_getSendDelay s = st_sendDelay s"

definition stat_getLastSend :: "statistic \<Rightarrow> time" where
  "stat_getLastSend s = st_lastSend s"

subsection \<open>The message log (statistic_log.go)\<close>

abbreviation totalMessages :: nat where "totalMessages \<equiv> 256"

record statistic_log =
  sl_msgs :: "string list"
  sl_showit :: bool

definition sl_empty :: statistic_log where
  "sl_empty = \<lparr>sl_msgs = [], sl_showit = False\<rparr>"

text \<open>\<open>stamp\<close> is the current time in the log's layout.\<close>

definition sl_add :: "string \<Rightarrow> string \<Rightarrow> statistic_log \<Rightarrow> statistic_log" where
  "sl_add stamp msg s =
     (let msgs = sl_msgs s @ [stamp @ '' '' @ msg]
      in s\<lparr>sl_msgs := if length msgs > totalMessages then tl msgs else msgs\<rparr>)"

definition sl_len :: "statistic_log \<Rightarrow> nat" where
  "sl_len s = length (sl_msgs s)"

definition sl_get :: "int \<Rightarrow> statistic_log \<Rightarrow> string" where
  "sl_get i s = (if i < 0 \<or> i \<ge> int (sl_len s) then [] else sl_msgs s ! nat i)"

definition sl_showSwap :: "statistic_log \<Rightarrow> bool \<times> statistic_log" where
  "sl_showSwap s = (let s = s\<lparr>sl_showit := \<not> sl_showit s\<rparr> in (sl_showit s, s))"

lemma sl_add_bound: "sl_len s \<le> totalMessages \<Longrightarrow> sl_len (sl_add stamp msg s) \<le> totalMessages"
  by (simp add: sl_len_def sl_add_def Let_def)

definition last_n :: "nat \<Rightarrow> 'a list \<Rightarrow> 'a list" where
  "last_n n xs = drop (length xs - n) xs"

lemma last_n_snoc:
  assumes "0 < n"
  shows "(if length (last_n n xs @ [x]) > n then tl (last_n n xs @ [x]) else last_n n xs @ [x]) =
     last_n n (xs @ [x])"
proof (cases "n \<le> length xs")
  case True
  then have "tl (drop (length xs - n) xs) = drop (Suc (length xs - n)) xs"
    by (simp add: drop_Suc tl_drop)
  moreover have "drop (length xs - n) xs \<noteq> []"
    using True assms by simp
  ultimately show ?thesis
    using True assms by (simp add: last_n_def tl_append2 Suc_diff_le)
qed (simp add: last_n_def)

text \<open>The log is the last 256 messages ever added.\<close>

lemma sl_add_all:
  "sl_msgs s = last_n totalMessages ms \<Longrightarrow>
   sl_msgs (fold (\<lambda>(stamp, m). sl_add stamp m) xs s) =
     last_n totalMessages (ms @ map (\<lambda>(stamp, m). stamp @ '' '' @ m) xs)"
proof (induction xs arbitrary: s ms)
  case (Cons x xs)
  obtain stamp m where x: "x = (stamp, m)" by (cases x)
  have "sl_msgs (sl_add stamp m s) = last_n totalMessages (ms @ [stamp @ '' '' @ m])"
    using Cons.prems last_n_snoc [of totalMessages ms "stamp @ '' '' @ m"]
    by (simp add: sl_add_def Let_def split: if_splits)
  from Cons.IH [OF this] show ?case
    by (simp add: x)
qed (simp add: last_n_def)

subsection \<open>Properties\<close>



text \<open>
  C39: The speed meter implements one counter for each of the ten 100 ms slots of a second:
  counting a packet adds one to the current slot's counter, entering another slot clears that
  slot's old counter, and the speed then shown is the sum of the counters; a ten-slot array and
  a slot below ten are kept.
\<close>

lemma speed_meter:
  assumes "speed_ok s"
  shows "speed_window (speed_add now count s) =
       window_add (sp_current s) (speed_slot now) count (speed_window s) \<and>
     sp_speed (speed_add now count s) =
       (if speed_slot now \<noteq> sp_current s then sum_list (speed_window s) else sp_speed s) \<and>
     speed_ok (speed_add now count s)"
  using speed_add_refines [OF assms] speed_add_speed speed_ok_add [OF assms] by simp

lemma speed_meter_witness: "speed_window (speed_add 0 True speed_zero) = [1, 0, 0, 0, 0, 0, 0, 0, 0, 0]"
  using speed_meter [OF speed_ok_zero, of 0 True]
  by (simp add: speed_zero_def speed_slot_def speed_window_def window_add_def eval_nat_numeral)

end
