(* ===== verification/Crypt.thy ===== *)
theory Crypt
  imports Tru_Prelude
begin

section \<open>Encryption (crypt.go)\<close>

text \<open>
  What this file of the program adds to Go's cryptographic packages: the XOR and AES-GCM
  packet encryption under a key derived from the session key and the packet identifier, the
  chunked RSA encryption of the handshake, and the session key.  The primitives (hashes, GCM
  seal and open, RSA-OAEP, PEM and PKIX) are the fields of the record \<open>crypto\<close>, an argument of
  the definitions; what the code relies on is the predicate \<open>crypto_laws\<close>.  Randomness (the
  GCM nonce, the OAEP seeds, the session key's characters) is an argument as well, and RSA keys
  are opaque byte strings.
\<close>

datatype parsed_key = ParseError | OtherKey | RsaKey bytes

record crypto =
  cr_md5 :: "bytes \<Rightarrow> bytes"
  cr_sha1 :: "bytes \<Rightarrow> bytes"
  cr_sha256 :: "bytes \<Rightarrow> bytes"
  cr_sha512 :: "bytes \<Rightarrow> bytes"
  cr_seal :: "bytes \<Rightarrow> bytes \<Rightarrow> bytes \<Rightarrow> bytes"
  cr_open :: "bytes \<Rightarrow> bytes \<Rightarrow> bytes \<Rightarrow> bytes option"
  cr_public :: "bytes \<Rightarrow> bytes"
  cr_oaep :: "bytes \<Rightarrow> bytes \<Rightarrow> bytes \<Rightarrow> bytes option"
  cr_unoaep :: "bytes \<Rightarrow> bytes \<Rightarrow> bytes option"
  cr_pkix :: "bytes \<Rightarrow> bytes option"
  cr_parse :: "bytes \<Rightarrow> parsed_key"
  cr_pem :: "bytes \<Rightarrow> bytes"
  cr_unpem :: "bytes \<Rightarrow> bytes option"

record crypt =
  k_private :: bytes
  k_session :: bytes

subsection \<open>What the code relies on\<close>

text \<open>The digest lengths of the four hashes.\<close>

definition hash_laws :: "crypto \<Rightarrow> bool" where
  "hash_laws L \<longleftrightarrow>
     (\<forall>x. length (cr_md5 L x) = 16 \<and> length (cr_sha1 L x) = 20 \<and>
          length (cr_sha256 L x) = 32 \<and> length (cr_sha512 L x) = 64)"

text \<open>GCM appends a 16-byte tag, and opening under the same key and nonce inverts sealing.\<close>

definition gcm_laws :: "crypto \<Rightarrow> bool" where
  "gcm_laws L \<longleftrightarrow>
     (\<forall>key nonce pt. length (cr_seal L key nonce pt) = length pt + 16 \<and>
        cr_open L key nonce (cr_seal L key nonce pt) = Some pt)"

text \<open>
  A 1024-bit key with SHA-256 OAEP encrypts at most \<open>128 - 2 * 32 - 2 = 62\<close> bytes into 128, and
  the private key decrypts what its public key encrypted.
\<close>

definition oaep_laws :: "crypto \<Rightarrow> bool" where
  "oaep_laws L \<longleftrightarrow>
     (\<forall>seed priv msg. length msg \<le> 62 \<longrightarrow>
        (\<exists>c. cr_oaep L seed (cr_public L priv) msg = Some c \<and> length c = 128 \<and>
             cr_unoaep L priv c = Some msg))"

text \<open>PEM and PKIX encodings of the public key of a private key parse back to it.\<close>

definition key_laws :: "crypto \<Rightarrow> bool" where
  "key_laws L \<longleftrightarrow>
     (\<forall>priv. \<exists>a. cr_pkix L (cr_public L priv) = Some a \<and> cr_unpem L (cr_pem L a) = Some a \<and>
        cr_parse L a = RsaKey (cr_public L priv))"

definition crypto_laws :: "crypto \<Rightarrow> bool" where
  "crypto_laws L \<longleftrightarrow> hash_laws L \<and> gcm_laws L \<and> oaep_laws L \<and> key_laws L"

subsection \<open>Packet encryption\<close>

text \<open>\<open>input[i] ^ key[i%kl]\<close>; with an empty key the remainder panics as soon as there is input.\<close>

definition xorEncryptDecrypt :: "bytes \<Rightarrow> bytes \<Rightarrow> go_error + bytes" where
  "xorEncryptDecrypt input key =
     (if key = [] \<and> input \<noteq> [] then Inl ErrPanic
      else Inr (map (\<lambda>i. input ! i XOR key ! (i mod length key)) [0..<length input]))"

text \<open>\<open>aes.NewCipher\<close> accepts keys of 16, 24 and 32 bytes.\<close>

definition aes_key_ok :: "bytes \<Rightarrow> bool" where
  "aes_key_ok key \<longleftrightarrow> length key = 16 \<or> length key = 24 \<or> length key = 32"

abbreviation nonceSize :: nat where "nonceSize \<equiv> 12"

text \<open>The nonce is what \<open>io.ReadFull(rand.Reader, nonce)\<close> gave, \<open>None\<close> when it failed.\<close>

definition encryptAES :: "crypto \<Rightarrow> bytes option \<Rightarrow> bytes \<Rightarrow> bytes \<Rightarrow> go_error + bytes" where
  "encryptAES L rnd key data =
     (if \<not> aes_key_ok key then Inl ErrCrypt
      else case rnd of
        None \<Rightarrow> Inl ErrCrypt
      | Some nonce \<Rightarrow> Inr (nonce @ cr_seal L key nonce data))"

definition decryptAES :: "crypto \<Rightarrow> bytes \<Rightarrow> bytes \<Rightarrow> go_error + bytes" where
  "decryptAES L key data =
     (if \<not> aes_key_ok key then Inl ErrCrypt
      else if length data < nonceSize then Inl ErrPanic
      else case cr_open L key (take nonceSize data) (drop nonceSize data) of
        None \<Rightarrow> Inl ErrCrypt
      | Some out \<Rightarrow> Inr out)"

definition packetKey :: "crypto \<Rightarrow> bytes \<Rightarrow> u32 \<Rightarrow> nat \<Rightarrow> bytes" where
  "packetKey L session i len =
     (let key = session @ put_u32 i in
      if len \<le> 16 then cr_md5 L key
      else if len \<le> 20 then cr_sha1 L key
      else if len \<le> 32 then cr_sha256 L key
      else if len \<le> 64 then cr_sha512 L key
      else cr_sha256 L key)"

definition ison :: "crypt \<Rightarrow> bool" where
  "ison c \<longleftrightarrow> length (k_session c) > 0"

definition encryptPacketData ::
  "crypto \<Rightarrow> bytes option \<Rightarrow> crypt \<Rightarrow> u32 \<Rightarrow> bytes \<Rightarrow> go_error + bytes" where
  "encryptPacketData L rnd c i data =
     (if \<not> ison c then Inr data
      else let l = length data; key = packetKey L (k_session c) i l in
        if l \<le> 64 then xorEncryptDecrypt data key
        else encryptAES L rnd key data)"

definition decryptPacketData :: "crypto \<Rightarrow> crypt \<Rightarrow> u32 \<Rightarrow> bytes \<Rightarrow> go_error + bytes" where
  "decryptPacketData L c i data =
     (if \<not> ison c then Inr data
      else let l = length data; key = packetKey L (k_session c) i l in
        if l \<le> 64 then xorEncryptDecrypt data key
        else decryptAES L key data)"

subsection \<open>The handshake's RSA encryption\<close>

text \<open>
  The loops of \<open>encrypt\<close> and \<open>decrypt\<close> cut their input every \<open>splitby\<close> bytes and append the
  results; \<open>f k\<close> is the call on the \<open>k\<close>-th chunk.
\<close>

function chunk_loop :: "nat \<Rightarrow> (nat \<Rightarrow> bytes \<Rightarrow> bytes option) \<Rightarrow> nat \<Rightarrow> bytes \<Rightarrow> bytes \<Rightarrow> go_error + bytes" where
  "chunk_loop splitby f k rest acc =
     (if rest = [] \<or> splitby = 0 then Inr acc
      else case f k (take splitby rest) of
        None \<Rightarrow> Inl ErrCrypt
      | Some d \<Rightarrow> chunk_loop splitby f (Suc k) (drop splitby rest) (acc @ d))"
  by pat_completeness auto
termination
  by (relation "measure (\<lambda>(n, f, k, rest, acc). length rest)") auto

declare chunk_loop.simps [simp del]

definition rsa_encrypt :: "crypto \<Rightarrow> (nat \<Rightarrow> bytes) \<Rightarrow> bytes \<Rightarrow> bytes \<Rightarrow> go_error + bytes" where
  "rsa_encrypt L seeds pub inp = chunk_loop 62 (\<lambda>k. cr_oaep L (seeds k) pub) 0 inp []"

definition rsa_decrypt :: "crypto \<Rightarrow> crypt \<Rightarrow> bytes \<Rightarrow> go_error + bytes" where
  "rsa_decrypt L c inp = chunk_loop 128 (\<lambda>k. cr_unoaep L (k_private c)) 0 inp []"

definition publicKeyToBytes :: "crypto \<Rightarrow> bytes \<Rightarrow> go_error + bytes" where
  "publicKeyToBytes L key =
     (case cr_pkix L key of None \<Rightarrow> Inl ErrCrypt | Some a \<Rightarrow> Inr (cr_pem L a))"

definition bytesToPublicKey :: "crypto \<Rightarrow> bytes \<Rightarrow> go_error + bytes" where
  "bytesToPublicKey L pub =
     (case cr_unpem L pub of
        None \<Rightarrow> Inl ErrCrypt
      | Some b \<Rightarrow>
          (case cr_parse L b of
             ParseError \<Rightarrow> Inl ErrCrypt
           | OtherKey \<Rightarrow> Inl ErrCrypt
           | RsaKey k \<Rightarrow> Inr k))"

subsection \<open>Session keys\<close>

definition characterRunes :: string where
  "characterRunes = ''abcdefghijklmnopqrstuvwxyzABCDEFGHIJKLMNOPQRSTUVWXYZ0123456789''"

text \<open>\<open>rnd i\<close> is the \<open>i\<close>-th raw draw, which \<open>rnd.Intn\<close> reduces below its argument.\<close>

definition RandomString :: "(nat \<Rightarrow> nat) \<Rightarrow> nat \<Rightarrow> string" where
  "RandomString rnd n = map (\<lambda>i. characterRunes ! (rnd i mod length characterRunes)) [0..<n]"

definition newSHA256Hash :: "crypto \<Rightarrow> (nat \<Rightarrow> nat) \<Rightarrow> nat option \<Rightarrow> bytes" where
  "newSHA256Hash L rnd n =
     cr_sha256 L (map of_char (RandomString rnd (case n of None \<Rightarrow> 32 | Some k \<Rightarrow> k)))"

definition makeSesionKey :: "crypto \<Rightarrow> (nat \<Rightarrow> nat) \<Rightarrow> bytes" where
  "makeSesionKey L rnd = newSHA256Hash L rnd None"

definition setSesionKey :: "bytes \<Rightarrow> crypt \<Rightarrow> crypt" where
  "setSesionKey key c = c\<lparr>k_session := key\<rparr>"

subsection \<open>Lemmas: XOR and AES\<close>

lemma length_xor: "xorEncryptDecrypt xs key = Inr ys \<Longrightarrow> length ys = length xs"
  by (auto simp: xorEncryptDecrypt_def split: if_splits)

lemma xor_involution:
  "xorEncryptDecrypt xs key = Inr ys \<Longrightarrow> xorEncryptDecrypt ys key = Inr xs"
  by (auto simp: xorEncryptDecrypt_def xor.assoc intro: nth_equalityI split: if_splits)

lemma xor_total: "key \<noteq> [] \<Longrightarrow> \<exists>ys. xorEncryptDecrypt xs key = Inr ys"
  by (simp add: xorEncryptDecrypt_def)

lemma packetKey_length:
  "hash_laws L \<Longrightarrow> length (packetKey L s i l) =
     (if l \<le> 16 then 16 else if l \<le> 20 then 20 else if l \<le> 32 then 32 else if l \<le> 64 then 64 else 32)"
  by (simp add: packetKey_def hash_laws_def Let_def)

lemma packetKey_not_Nil: "hash_laws L \<Longrightarrow> packetKey L s i l \<noteq> []"
  using packetKey_length [of L s i l] by (auto split: if_splits)

lemma packetKey_long: "64 < l \<Longrightarrow> 64 < l' \<Longrightarrow> packetKey L s i l = packetKey L s i l'"
  by (simp add: packetKey_def)

lemma aes_roundtrip:
  assumes "gcm_laws L" "aes_key_ok key" "length nonce = nonceSize"
  shows "encryptAES L (Some nonce) key data = Inr (nonce @ cr_seal L key nonce data)"
    and "decryptAES L key (nonce @ cr_seal L key nonce data) = Inr data"
  using assms by (simp_all add: encryptAES_def decryptAES_def gcm_laws_def)

lemma crypt_packet_short:
  assumes "hash_laws L" "length data \<le> 64"
  shows "\<exists>c. encryptPacketData L rnd k i data = Inr c \<and> decryptPacketData L k i c = Inr data \<and>
     length c = length data"
proof (cases "ison k")
  case True
  obtain c where c: "xorEncryptDecrypt data (packetKey L (k_session k) i (length data)) = Inr c"
    using xor_total [OF packetKey_not_Nil [OF assms(1)]] by blast
  with True assms(2) show ?thesis
    using xor_involution [OF c] length_xor [OF c]
    by (simp add: encryptPacketData_def decryptPacketData_def)
qed (simp add: encryptPacketData_def decryptPacketData_def)

lemma crypt_packet_long:
  assumes "crypto_laws L" "64 < length data" "length nonce = nonceSize" "ison k"
  shows "\<exists>c. encryptPacketData L (Some nonce) k i data = Inr c \<and> decryptPacketData L k i c = Inr data \<and>
     length c = length data + 28"
proof -
  let ?key = "packetKey L (k_session k) i (length data)"
  let ?c = "nonce @ cr_seal L ?key nonce data"
  have laws: "hash_laws L" "gcm_laws L"
    using assms(1) by (simp_all add: crypto_laws_def)
  have key: "aes_key_ok ?key"
    using packetKey_length [OF laws(1)] assms(2) by (simp add: aes_key_ok_def)
  have len: "length ?c = length data + 28"
    using laws(2) assms(3) by (simp add: gcm_laws_def)
  then have "packetKey L (k_session k) i (length ?c) = ?key"
    using assms(2) by (intro packetKey_long) simp_all
  then show ?thesis
    using aes_roundtrip [OF laws(2) key assms(3), of data] assms(2,4) len
    by (intro exI [of _ ?c]) (simp add: encryptPacketData_def decryptPacketData_def Let_def)
qed

lemma crypt_packet_off:
  "\<not> ison k \<Longrightarrow> encryptPacketData L rnd k i data = Inr data \<and> decryptPacketData L k i data = Inr data"
  by (simp add: encryptPacketData_def decryptPacketData_def)

text \<open>Decryption looks at the identifier, the buffer and the session key only.\<close>

lemma decrypt_no_panic:
  assumes "hash_laws L"
  shows "decryptPacketData L k i data \<noteq> Inl ErrPanic"
  using xor_total [OF packetKey_not_Nil [OF assms], of data]
  by (auto simp: decryptPacketData_def decryptAES_def Let_def xorEncryptDecrypt_def
      packetKey_not_Nil [OF assms] split: option.splits)

subsection \<open>Lemmas: the chunked RSA encryption\<close>

lemma chunk_loop_Nil [simp]: "chunk_loop n f k [] acc = Inr acc"
  by (simp add: chunk_loop.simps)

lemma chunk_loop_short:
  "rest \<noteq> [] \<Longrightarrow> length rest \<le> n \<Longrightarrow> f k rest = Some d \<Longrightarrow> chunk_loop n f k rest acc = Inr (acc @ d)"
  by (cases "n = 0") (simp_all add: chunk_loop.simps [of n f k rest acc])

lemma chunk_loop_step:
  "0 < n \<Longrightarrow> rest \<noteq> [] \<Longrightarrow> f k (take n rest) = Some d \<Longrightarrow>
   chunk_loop n f k rest acc = chunk_loop n f (Suc k) (drop n rest) (acc @ d)"
  by (simp add: chunk_loop.simps [of n f k rest acc])

text \<open>A chunk that encrypts to exactly \<open>m\<close> bytes each time decrypts chunk by chunk.\<close>

lemma chunk_loop_inverse:
  assumes n: "0 < n" and m: "0 < m"
    and inv: "\<And>k x. length x \<le> n \<Longrightarrow> \<exists>c. f k x = Some c \<and> length c = m \<and> (\<forall>j. g j c = Some x)"
  shows "\<exists>c. chunk_loop n f k xs acc = Inr (acc @ c) \<and> (\<forall>j acc'. chunk_loop m g j c acc' = Inr (acc' @ xs))"
proof (induction "length xs" arbitrary: xs k acc rule: less_induct)
  case less
  show ?case
  proof (cases "xs = []")
    case False
    obtain c where c: "f k (take n xs) = Some c" "length c = m" "\<forall>j. g j c = Some (take n xs)"
      using inv [of "take n xs" k] by auto
    have "length (drop n xs) < length xs"
      using n False by (simp add: length_greater_0_conv)
    then obtain c' where c': "chunk_loop n f (Suc k) (drop n xs) (acc @ c) = Inr ((acc @ c) @ c')"
      "\<forall>j acc'. chunk_loop m g j c' acc' = Inr (acc' @ drop n xs)"
      using less.hyps by blast
    have "chunk_loop n f k xs acc = Inr (acc @ (c @ c'))"
      using chunk_loop_step [of n xs f k c acc] n False c(1) c'(1) by simp
    moreover have "chunk_loop m g j (c @ c') acc' = Inr (acc' @ xs)" for j acc'
      using chunk_loop_step [of m "c @ c'" g j "take n xs" acc'] m c(2,3) c'(2) by auto
    ultimately show ?thesis by blast
  qed (auto intro: exI [of _ "[]"])
qed

lemma rsa_roundtrip:
  assumes "oaep_laws L"
  shows "\<exists>c. rsa_encrypt L seeds (cr_public L (k_private k)) xs = Inr c \<and> rsa_decrypt L k c = Inr xs"
proof -
  have "\<exists>c. chunk_loop 62 (\<lambda>j. cr_oaep L (seeds j) (cr_public L (k_private k))) 0 xs [] = Inr ([] @ c) \<and>
      (\<forall>j acc'. chunk_loop 128 (\<lambda>j. cr_unoaep L (k_private k)) j c acc' = Inr (acc' @ xs))"
    using assms by (intro chunk_loop_inverse) (auto simp: oaep_laws_def)
  then show ?thesis
    by (auto simp: rsa_encrypt_def rsa_decrypt_def)
qed

lemma public_key_roundtrip:
  assumes "key_laws L"
  shows "\<exists>b. publicKeyToBytes L (cr_public L priv) = Inr b \<and> bytesToPublicKey L b = Inr (cr_public L priv)"
proof -
  obtain a where "cr_pkix L (cr_public L priv) = Some a" "cr_unpem L (cr_pem L a) = Some a"
    "cr_parse L a = RsaKey (cr_public L priv)"
    using assms unfolding key_laws_def by blast
  then show ?thesis
    by (simp add: publicKeyToBytes_def bytesToPublicKey_def)
qed

lemma makeSesionKey_length: "hash_laws L \<Longrightarrow> length (makeSesionKey L rnd) = 32"
  by (simp add: makeSesionKey_def newSHA256Hash_def hash_laws_def)

lemma ison_session [simp]: "ison (setSesionKey key c) \<longleftrightarrow> key \<noteq> []"
  by (simp add: ison_def setSesionKey_def)

subsection \<open>An instance of the primitives\<close>

text \<open>
  A concrete instance of the record that satisfies the laws, for the witnesses: digests are the
  input padded or cut to length, the tag is zero bytes, and an OAEP block is the message's
  length, the message and padding.  It is no cipher; it shows that the laws can hold together.
\<close>

definition pad_to :: "nat \<Rightarrow> bytes \<Rightarrow> bytes" where
  "pad_to n xs = take n (xs @ replicate n 0)"

definition plain_crypto :: crypto where
  "plain_crypto =
     \<lparr>cr_md5 = pad_to 16, cr_sha1 = pad_to 20, cr_sha256 = pad_to 32, cr_sha512 = pad_to 64,
      cr_seal = (\<lambda>key nonce pt. pt @ replicate 16 0),
      cr_open = (\<lambda>key nonce ct. Some (take (length ct - 16) ct)),
      cr_public = (\<lambda>k. k),
      cr_oaep = (\<lambda>seed pub msg. Some (pad_to 128 (word_of_nat (length msg) # msg))),
      cr_unoaep = (\<lambda>priv ct. Some (take (unat (hd ct)) (tl ct))),
      cr_pkix = Some, cr_parse = RsaKey, cr_pem = (\<lambda>b. b), cr_unpem = Some\<rparr>"

lemma length_pad_to [simp]: "length (pad_to n xs) = n"
  by (simp add: pad_to_def)

lemma plain_oaep_inverse:
  assumes "length msg \<le> 62"
  shows "cr_unoaep plain_crypto priv (pad_to 128 (word_of_nat (length msg) # msg)) = Some msg"
proof -
  have "unat (word_of_nat (length msg) :: u8) = length msg"
    using assms by (simp add: unsigned_of_nat take_bit_nat_eq_self)
  then show ?thesis
    using assms by (simp add: plain_crypto_def pad_to_def)
qed

lemma plain_crypto_laws: "crypto_laws plain_crypto"
proof -
  have "oaep_laws plain_crypto"
    unfolding oaep_laws_def using plain_oaep_inverse
    by (auto simp: plain_crypto_def)
  then show ?thesis
    by (simp add: crypto_laws_def hash_laws_def gcm_laws_def key_laws_def plain_crypto_def)
qed

subsection \<open>Properties\<close>

text \<open>
  Decrypting an arbitrary received buffer never panics: it gives data or the encryption error,
  and the error only with encryption on and more than 64 bytes.
\<close>

lemma decrypt_errors:
  assumes "hash_laws L"
  shows "decryptPacketData L k i data = Inl ErrCrypt \<and> ison k \<and> 64 < length data \<or>
     (\<exists>d. decryptPacketData L k i data = Inr d)"
proof (cases "decryptPacketData L k i data")
  case (Inl e)
  have "\<exists>d. decryptPacketData L k i data = Inr d" if "length data \<le> 64"
    using xor_total [OF packetKey_not_Nil [OF assms], where xs = data] that
    by (auto simp: decryptPacketData_def Let_def)
  then have "64 < length data" using Inl by fastforce
  moreover have "ison k" using Inl by (auto simp: decryptPacketData_def split: if_splits)
  moreover have "e = ErrCrypt"
    using Inl decrypt_no_panic [OF assms, of k i data] \<open>64 < length data\<close>
    by (auto simp: decryptPacketData_def decryptAES_def Let_def split: if_splits option.splits)
  ultimately show ?thesis using Inl by simp
qed simp

text \<open>
  C17: Packet encryption. What is encrypted under a channel's session key and a packet
  identifier decrypts under them to the same data, on every branch (encryption off, XOR up to 64
  bytes, AES-GCM above); the ciphertext of a short packet is as long as the data, so that it
  selects the same hash again, and that of a long one is 28 bytes longer.
\<close>

lemma packet_encryption:
  assumes "crypto_laws L" "length nonce = nonceSize"
  shows "\<exists>ct. encryptPacketData L (Some nonce) k i data = Inr ct \<and> decryptPacketData L k i ct = Inr data \<and>
     length ct = length data + (if ison k \<and> 64 < length data then 28 else 0)"
proof -
  have h: "hash_laws L" using assms(1) by (simp add: crypto_laws_def)
  consider "length data \<le> 64" | "\<not> ison k" | "64 < length data" "ison k" by linarith
  then show ?thesis
  proof cases
    case 1
    then show ?thesis using crypt_packet_short [OF h 1, where k = k and i = i and rnd = "Some nonce"] by simp
  next
    case 2
    then show ?thesis using crypt_packet_off [OF 2, where L = L and rnd = "Some nonce" and i = i and data = data] by simp
  next
    case 3
    then show ?thesis using crypt_packet_long [OF assms(1) 3(1) assms(2) 3(2), where i = i] 3 by simp
  qed
qed

lemma packet_encryption_witness:
  "\<exists>ct. encryptPacketData plain_crypto (Some (replicate 12 0)) \<lparr>k_private = [], k_session = [9]\<rparr> 3 [1, 2] = Inr ct \<and>
     decryptPacketData plain_crypto \<lparr>k_private = [], k_session = [9]\<rparr> 3 ct = Inr [1, 2]"
  using packet_encryption [OF plain_crypto_laws, of "replicate 12 0" "\<lparr>k_private = [], k_session = [9]\<rparr>" 3 "[1, 2]"] by auto

text \<open>
  C25: The handshake's encryption. Data of any length, cut into chunks of 62 bytes and encrypted
  with a public key, decrypts with the private key chunk by chunk to the same data; and a public
  key survives its encoding to bytes.
\<close>

lemma rsa_chunks:
  assumes "crypto_laws L"
  shows "(\<exists>c. rsa_encrypt L seeds (cr_public L (k_private k)) xs = Inr c \<and> rsa_decrypt L k c = Inr xs) \<and>
     (\<exists>b. publicKeyToBytes L (cr_public L (k_private k)) = Inr b \<and> bytesToPublicKey L b = Inr (cr_public L (k_private k)))"
  using assms rsa_roundtrip [of L] public_key_roundtrip [of L] by (simp add: crypto_laws_def)

lemma rsa_chunks_witness:
  "\<exists>c. rsa_encrypt plain_crypto (\<lambda>_. []) [4] (replicate 70 1) = Inr c \<and>
     rsa_decrypt plain_crypto \<lparr>k_private = [4], k_session = []\<rparr> c = Inr (replicate 70 1)"
  using rsa_chunks [OF plain_crypto_laws, of "\<lambda>_. []" "\<lparr>k_private = [4], k_session = []\<rparr>" "replicate 70 1"]
  by (auto simp: plain_crypto_def)

end
