(* ===== verification/Channel.thy ===== *)
theory Channel
  imports Split Receive_Queue Send_Queue Statistic Crypt
begin

section \<open>Channels (channel.go)\<close>

text \<open>
  The state of one peer and the operations on it.  An operation takes the channel and gives
  the new channel and a list of outputs: packets for the sender goroutine, datagrams written
  at once, packets for the reader goroutine, delivery callbacks, and panics.  What comes from
  outside is an argument: the clock, the AES nonce, what the delay loop reads while other
  goroutines run, and the draw of the testing \<open>drop\<close> flag.  The retransmission timer's function
  is here too, as it works on the whole channel.
\<close>

record channel =
  c_addr :: string
  c_serverMode :: bool
  c_id :: u32
  c_expectedID :: u32
  c_reader :: "nat option"
  c_stat :: statistic
  c_sendQueue :: send_queue
  c_recvQueue :: receive_queue
  c_combine :: combinePacket
  c_maxDataLen :: int
  c_crypt :: crypt
  c_delivered :: "packet list"

datatype out =
    OSend packet
  | OUdp bytes
  | ORead packet
  | ODeliver nat packet
  | OTimeout nat packet
  | OPanic

subsection \<open>Identifiers\<close>

text \<open>The increment of \<open>newID\<close> and \<open>newExpectedID\<close>.\<close>

definition next_id :: "u32 \<Rightarrow> u32" where
  "next_id i = (let i = i + 1 in if i \<ge> packetIDLimit then 0 else i)"

definition newID :: "channel \<Rightarrow> u32 \<times> channel" where
  "newID ch = (c_id ch, ch\<lparr>c_id := next_id (c_id ch)\<rparr>)"

definition newExpectedID :: "channel \<Rightarrow> u32 \<times> channel" where
  "newExpectedID ch =
     (let ch = ch\<lparr>c_expectedID := next_id (c_expectedID ch)\<rparr> in (c_expectedID ch, ch))"

text \<open>The \<open>n\<close>-th identifier of a connection.\<close>

definition rep_id :: "nat \<Rightarrow> u32" where
  "rep_id n = word_of_nat (n mod 2 ^ 20)"

lemma uint_rep_id: "uint (rep_id n) = int n mod 2 ^ 20"
proof -
  have "n mod 2 ^ 20 < 2 ^ 20" by simp
  then have "take_bit 32 (n mod 2 ^ 20) = n mod 2 ^ 20"
    by (intro take_bit_nat_eq_self) simp
  then show ?thesis
    by (simp add: rep_id_def unsigned_of_nat zmod_int)
qed

lemma id_ok_rep [simp]: "id_ok (rep_id n)"
  by (simp add: id_ok_iff uint_rep_id)

lemma rep_id_0: "rep_id 0 = 0"
  by (simp add: rep_id_def)

lemma next_id_uint: "id_ok i \<Longrightarrow> uint (next_id i) = (uint i + 1) mod 2 ^ 20"
proof -
  assume ok: "id_ok i"
  then have "uint (i + 1) = uint i + 1"
    by (simp add: id_ok_iff uint_word_ariths)
  then show ?thesis
    using ok by (cases "uint i + 1 = 2 ^ 20") (auto simp: next_id_def Let_def id_ok_iff word_le_def word_less_def)
qed

lemma id_ok_next [simp, inv_intros]: "id_ok i \<Longrightarrow> id_ok (next_id i)"
  by (simp add: id_ok_iff next_id_uint)

lemma next_id_rep: "next_id (rep_id n) = rep_id (Suc n)"
  by (simp add: word_uint_eq_iff next_id_uint uint_rep_id mod_simps add.commute)

text \<open>The identifiers and the distance form a sequence space with a window of \<open>2 ^ 19\<close>.\<close>

interpretation ids: serial next_id distance rep_id "2 ^ 19"
proof unfold_locales
  show "next_id (rep_id n) = rep_id (Suc n)" for n
    by (rule next_id_rep)
  fix n e :: nat
  assume "- int (2 ^ 19) \<le> int n - int e" "int n - int e < int (2 ^ 19)"
  then show "distance (rep_id e) (rep_id n) = int n - int e"
    by (intro distance_eqI) (simp_all add: uint_rep_id mod_simps)
qed

subsection \<open>Trip time and retransmit time\<close>

definition getTripTime :: "channel \<Rightarrow> duration" where
  "getTripTime ch = st_tripTimeMidle (c_stat ch)"

definition setTripTime :: "time \<Rightarrow> u32 \<Rightarrow> channel \<Rightarrow> go_error + (duration \<times> channel)" where
  "setTripTime now i ch =
     (case sq_get (c_sendQueue ch) i of
        None \<Rightarrow> Inl ErrPacketNotFound
      | Some (_, pac) \<Rightarrow>
          (let tt = now - p_time pac;
               s = (c_stat ch)\<lparr>st_tripTime := tt\<rparr>;
               s = (if st_tripTimeMidle s \<noteq> 0
                    then s\<lparr>st_tripTimeMidle := go_div (st_tripTimeMidle s * 9 + tt) 10\<rparr>
                    else s\<lparr>st_tripTimeMidle := tt\<rparr>)
           in Inr (tt, ch\<lparr>c_stat := s\<rparr>)))"

text \<open>The retransmit delay for a trip time and a number of attempts.\<close>

definition retransmit_rtt :: "duration \<Rightarrow> int \<Rightarrow> duration" where
  "retransmit_rtt tt ra =
     (let rtt = (if tt = 0 then startRTT else minRTT + tt);
          rtt = (if ra > 0 then rtt * (ra + 1) else rtt)
      in if rtt > maxRTT then maxRTT else rtt)"

definition setRetransmitTime :: "time \<Rightarrow> channel \<Rightarrow> packet \<Rightarrow> packet" where
  "setRetransmitTime now ch pac =
     packet_setRetransmitTime now (retransmit_rtt (getTripTime ch) (p_retransmitAttempts pac)) pac"

lemma wire_of_setRetransmitTime [simp, frame_simps]: "wire_of (setRetransmitTime now ch p) = wire_of p"
  by (simp add: setRetransmitTime_def)

lemma retransmit_rtt_bounds:
  assumes "0 \<le> tt" "0 \<le> ra"
  shows "minRTT < retransmit_rtt tt ra" "retransmit_rtt tt ra \<le> maxRTT"
proof -
  define rtt where "rtt = (if tt = 0 then startRTT else minRTT + tt)"
  have "minRTT < rtt" using assms by (simp add: rtt_def)
  moreover from this have "rtt \<le> rtt * (ra + 1)"
    using assms by (simp add: algebra_simps)
  ultimately have "minRTT < rtt * (ra + 1)"
    by (rule less_le_trans)
  with \<open>minRTT < rtt\<close> show "minRTT < retransmit_rtt tt ra" "retransmit_rtt tt ra \<le> maxRTT"
    by (auto simp: retransmit_rtt_def Let_def simp flip: rtt_def)
qed

lemma retransmit_rtt_mono:
  assumes "0 \<le> tt" "0 \<le> ra" "ra \<le> rb"
  shows "retransmit_rtt tt ra \<le> retransmit_rtt tt rb"
proof -
  define rtt where "rtt = (if tt = 0 then startRTT else minRTT + tt)"
  have rtt: "0 \<le> rtt" using assms by (simp add: rtt_def)
  have "rtt * (ra + 1) \<le> rtt * (rb + 1)"
    using rtt assms by (intro mult_left_mono) auto
  moreover have "rtt \<le> rtt * (rb + 1)"
    using rtt assms by (simp add: algebra_simps)
  ultimately show ?thesis
    using assms by (auto simp: retransmit_rtt_def Let_def simp flip: rtt_def)
qed

text \<open>The mean trip time stays between its old value and the measured time.\<close>

lemma setTripTime_mean:
  assumes "setTripTime now i ch = Inr (tt, ch')" "0 \<le> tt" "0 < getTripTime ch"
  shows "min (getTripTime ch) tt \<le> getTripTime ch'" "getTripTime ch' \<le> max (getTripTime ch) tt"
  using assms
  by (auto simp: setTripTime_def getTripTime_def Let_def go_div_nonneg split: option.splits prod.splits)

subsection \<open>Queries of a channel\<close>

definition Destroyed :: "channel \<Rightarrow> bool" where
  "Destroyed ch = stat_isDestroyed (c_stat ch)"

definition Addr :: "channel \<Rightarrow> string" where
  "Addr ch = c_addr ch"

definition channel_String :: "channel \<Rightarrow> string" where
  "channel_String ch = Addr ch"

definition Triptime :: "channel \<Rightarrow> duration" where
  "Triptime ch = getTripTime ch"

definition ServerMode :: "channel \<Rightarrow> bool" where
  "ServerMode ch = c_serverMode ch"

subsection \<open>The send delay\<close>

text \<open>
  The outside of one \<open>writeTo\<close>: the clock after the delay loop, when the delay is computed, and
  after the last sleep, when the packet is made; what the delay loop reads after each of its sleeps;
  the nonce, the \<open>drop\<close> flag and its draw.
\<close>

record wenv =
  we_now :: time
  we_sent :: time
  we_rta :: "nat \<Rightarrow> int"
  we_nonce :: "bytes option"
  we_drop :: int
  we_draw :: int

abbreviation minSendDelay :: int where "minSendDelay \<equiv> 15"

text \<open>The loop over the first packet's attempts; the result is \<open>retransmitDelayCount\<close>.\<close>

function delay_loop :: "(nat \<Rightarrow> int) \<Rightarrow> nat \<Rightarrow> nat" where
  "delay_loop obs k = (if obs k > 0 \<and> k < 20 then delay_loop obs (Suc k) else k)"
  by pat_completeness auto
termination
  by (relation "measure (\<lambda>(obs, k). 20 - k)") auto

declare delay_loop.simps [simp del]

text \<open>
  The time slept before sending, 15 microseconds in each round of the loop and then what is left of
  the current delay, and the channel with the adjusted delay.
\<close>

definition writeToDelay :: "wenv \<Rightarrow> u8 \<Rightarrow> channel \<Rightarrow> duration \<times> channel" where
  "writeToDelay env status ch =
     (if \<not> (\<not> c_serverMode ch \<and> status = statusData) then (0, ch)
      else
        let count = delay_loop (\<lambda>k. if k = 0 then sq_getRetransmitAttempts (c_sendQueue ch) else we_rta env k) 0;
            chSendDelay = st_sendDelay (c_stat ch);
            delay = chSendDelay * microsecond;
            s = c_stat ch;
            s = (if we_now env - st_lastDelayCheck s > 30 * millisecond then
                   (let new = (if count = 0 then
                                 (if st_sendDelay s > 100 then chSendDelay - 10
                                  else if st_sendDelay s > minSendDelay then chSendDelay - 1
                                  else chSendDelay)
                               else chSendDelay + 10)
                    in stat_setSendDelay new (s\<lparr>st_lastDelayCheck := we_now env\<rparr>))
                 else s);
            since = we_now env - st_lastSend s;
            slept = int count * (minSendDelay * microsecond)
        in (slept + (if since < delay then delay - since else 0), ch\<lparr>c_stat := s\<rparr>))"

text \<open>The loop ends at the first look that finds no attempt, at the latest after 20 rounds.\<close>

lemma delay_loop_ends:
  "k \<le> 20 \<Longrightarrow> let n = delay_loop obs k in k \<le> n \<and> n \<le> 20 \<and> (\<forall>j. k \<le> j \<and> j < n \<longrightarrow> 0 < obs j) \<and> (n = 20 \<or> obs n \<le> 0)"
proof (induction obs k rule: delay_loop.induct)
  case (1 obs k)
  show ?case
  proof (cases "obs k > 0 \<and> k < 20")
    case True
    then have "delay_loop obs k = delay_loop obs (Suc k)"
      by (simp add: delay_loop.simps [of obs k])
    then show ?thesis
      using 1(1) [OF True] True unfolding Let_def by (auto simp: Suc_le_eq) (metis le_eq_less_or_eq)+
  next
    case False
    then show ?thesis using 1(2) by (auto simp: delay_loop.simps [of obs k])
  qed
qed

subsection \<open>writeTo\<close>

text \<open>The variadic delivery arguments by type: a callback (which may be nil), a timeout, anything else.\<close>

datatype delivery_arg = DFunc "nat option" | DTimeout duration | DOther

fun parse_delivery :: "nat option \<Rightarrow> duration \<Rightarrow> delivery_arg list \<Rightarrow> go_error + (nat option \<times> duration)" where
  "parse_delivery f t [] = Inr (f, t)"
| "parse_delivery f t (DFunc v # ds) = parse_delivery v t ds"
| "parse_delivery f t (DTimeout v # ds) = parse_delivery f v ds"
| "parse_delivery f t (DOther # ds) = Inl ErrWrongDelivery"

text \<open>
  The part of \<open>writeTo\<close> after the packet's data is known: the packet is made, queued when it
  carries data, and written at once (disconnect), dropped (testing flag) or passed to the sender.
  The queue holds the address of the packet, so the delivery fields set after \<open>add\<close> are those of
  the queued packet.
\<close>

definition writeTo_packet ::
  "wenv \<Rightarrow> channel \<Rightarrow> u32 \<Rightarrow> bytes \<Rightarrow> u8 \<Rightarrow> nat option \<Rightarrow> duration \<Rightarrow> channel \<times> out list"
where
  "writeTo_packet env ch i data stat f timeout =
     (let status = stat AND NOT statusSplit;
          now = we_sent env;
          pac = set_data data (set_status stat (set_id i (newPacket now)));
          pac = (if status = statusData then setRetransmitTime now ch pac else pac);
          pac = (if status = statusData \<and> stat = statusData
                 then setDelivery now f (setDeliveryTimeout timeout pac) else pac);
          ch = (if status = statusData then
                  (let ch = ch\<lparr>c_sendQueue := sq_add pac (c_sendQueue ch)\<rparr>;
                       s = (if stat = statusData then stat_setSend now (c_stat ch) else c_stat ch)
                   in ch\<lparr>c_stat := stat_setLastSend now s\<rparr>)
                else ch)
      in if status = statusDisconnect then (ch, [OUdp (marshalBinary pac)])
         else if we_drop env > 0 \<and> status = statusData \<and> \<not> c_serverMode ch \<and> we_draw env = 0
         then (ch, [])
         else (ch, [OSend pac]))"

definition writeTo ::
  "crypto \<Rightarrow> wenv \<Rightarrow> channel \<Rightarrow> bytes \<Rightarrow> u8 \<Rightarrow> delivery_arg list \<Rightarrow> u32 list \<Rightarrow>
   (u32 \<times> go_error option) \<times> channel \<times> out list"
where
  "writeTo L env ch data stat delivery ids =
     (if st_destroyed (c_stat ch) then ((0, Some ErrChannelDestroyed), ch, [])
      else case parse_delivery None DeliveryTimeout delivery of
        Inl e \<Rightarrow> ((0, Some e), ch, [])
      | Inr (f, timeout) \<Rightarrow>
          (let status = stat AND NOT statusSplit;
               ch = snd (writeToDelay env status ch);
               i = (case ids of [] \<Rightarrow> 0 | j # _ \<Rightarrow> j)
           in if status = statusData then
                (let (i, ch) = newID ch in
                 case encryptPacketData L (we_nonce env) (c_crypt ch) i data of
                   Inl e \<Rightarrow> ((i, Some e), ch, [])
                 | Inr data \<Rightarrow>
                     (let (ch, out) = writeTo_packet env ch i data stat f timeout
                      in ((i, None), ch, out)))
              else
                (let (ch, out) = writeTo_packet env ch i data stat f timeout
                 in ((i, None), ch, out))))"

text \<open>The public \<open>WriteTo\<close>: one \<open>writeTo\<close> for each fragment, with \<open>envs k\<close> around the \<open>k\<close>-th.\<close>

definition channel_writer ::
  "crypto \<Rightarrow> (nat \<Rightarrow> wenv) \<Rightarrow> delivery_arg list \<Rightarrow> (channel \<times> out list \<times> nat) writer"
where
  "channel_writer L envs delivery d split st =
     (case st of (ch, out, k) \<Rightarrow>
        (case writeTo L (envs k) ch d (statusData OR split) delivery [] of
           (r, ch', o') \<Rightarrow> (r, (ch', out @ o', Suc k))))"

definition channel_WriteTo ::
  "crypto \<Rightarrow> (nat \<Rightarrow> wenv) \<Rightarrow> channel \<Rightarrow> bytes \<Rightarrow> delivery_arg list \<Rightarrow>
   (u32 \<times> go_error option) \<times> channel \<times> out list"
where
  "channel_WriteTo L envs ch data delivery =
     (case splitPacket (c_maxDataLen ch) (channel_writer L envs delivery) data (ch, [], 0) of
        (r, (ch', out, _)) \<Rightarrow> (r, ch', out))"

definition writeToPing where "writeToPing L env ch = writeTo L env ch [] statusPing [] []"
definition writeToPong where "writeToPong L env ch = writeTo L env ch [] statusPong [] []"
definition writeToAck where "writeToAck L env ch pac = writeTo L env ch [] statusAck [] [p_id pac]"
definition writeToDisconnect where
  "writeToDisconnect L env ch = writeTo L env ch [] statusDisconnect [] []"

subsection \<open>The retransmission timer\<close>

text \<open>
  The function of the send queue's timer: the pass over the queue, one count for each packet sent
  again, and the timer armed anew unless the pass asks for the channel's destruction (the flag).
  A destroy between the pass and the arming is \<open>late_rearm\<close> below.
\<close>

definition channel_retransmit :: "time \<Rightarrow> channel \<Rightarrow> channel \<times> out list \<times> bool" where
  "channel_retransmit now ch =
     (let q = c_sendQueue ch;
          (es, sent, dead) = retransmit_loop now (setRetransmitTime now ch) (sq_queue q);
          q = q\<lparr>sq_queue := es\<rparr>;
          q = (if dead then q else sq_retransmit_arm now q)
      in (ch\<lparr>c_sendQueue := q, c_stat := fold (\<lambda>_. stat_setRetransmit) sent (c_stat ch)\<rparr>,
          map OSend sent, dead))"

text \<open>
  The delivery timer of the list element \<open>e\<close>, which belongs to the packet and not to the channel:
  the callback gets the packet with the timeout error, and the packet stays in the queue.
\<close>

definition delivery_timer :: "time \<Rightarrow> nat \<Rightarrow> channel \<Rightarrow> channel \<times> out list" where
  "delivery_timer now e ch =
     (case map_of (sq_queue (c_sendQueue ch)) e of
        None \<Rightarrow> (ch, [])
      | Some pac \<Rightarrow>
          (case (p_deliveryTimer pac, p_delivery pac) of
             (Armed t, Some f) \<Rightarrow>
               if t \<le> now then
                 (let q = c_sendQueue ch;
                      es = map (\<lambda>(x, p). (x, if x = e then p\<lparr>p_deliveryTimer := Stopped\<rparr> else p)) (sq_queue q)
                  in (ch\<lparr>c_sendQueue := q\<lparr>sq_queue := es\<rparr>\<rparr>, [OTimeout f pac]))
               else (ch, [])
           | _ \<Rightarrow> (ch, [])))"

text \<open>
  The delivery timer of a packet that has been acknowledged, the \<open>i\<close>-th of the channel's: the \<open>Stop\<close> at
  the acknowledgement goes to the copy of the timer in the packet, and the timer that runs calls the
  same callback when its time comes.
\<close>

definition late_delivery :: "time \<Rightarrow> nat \<Rightarrow> channel \<Rightarrow> channel \<times> out list" where
  "late_delivery now i ch =
     (if i < length (c_delivered ch) then
        let pac = c_delivered ch ! i in
        case (p_deliveryTimer pac, p_delivery pac) of
          (Armed t, Some f) \<Rightarrow>
            if t \<le> now
            then (ch\<lparr>c_delivered := (c_delivered ch)[i := pac\<lparr>p_deliveryTimer := Stopped\<rparr>]\<rparr>, [OTimeout f pac])
            else (ch, [])
        | _ \<Rightarrow> (ch, [])
      else (ch, []))"

text \<open>The timers of the two speed meters.\<close>

definition send_speed_timer :: "time \<Rightarrow> channel \<Rightarrow> channel" where
  "send_speed_timer now ch = ch\<lparr>c_stat := (c_stat ch)\<lparr>st_sendSpeed := speed_tick now (st_sendSpeed (c_stat ch))\<rparr>\<rparr>"

definition recv_speed_timer :: "time \<Rightarrow> channel \<Rightarrow> channel" where
  "recv_speed_timer now ch = ch\<lparr>c_stat := (c_stat ch)\<lparr>st_recvSpeed := speed_tick now (st_recvSpeed (c_stat ch))\<rparr>\<rparr>"

text \<open>
  The functions of a channel's four timers do their work first and then arm the timer again, without
  a lock in between: a destroy that comes there stops the timer that has fired, and the one armed
  after it runs on.  This is that arming, for a channel destroyed meanwhile.
\<close>

datatype own_timer = RetransmitTimer | ActivityTimer | SendSpeedTimer | RecvSpeedTimer

fun late_rearm :: "time \<Rightarrow> own_timer \<Rightarrow> channel \<Rightarrow> channel" where
  "late_rearm now RetransmitTimer ch = ch\<lparr>c_sendQueue := sq_retransmit_arm now (c_sendQueue ch)\<rparr>"
| "late_rearm now ActivityTimer ch = ch\<lparr>c_stat := stat_armActivity now (c_stat ch)\<rparr>"
| "late_rearm now SendSpeedTimer ch = ch\<lparr>c_stat := (c_stat ch)\<lparr>st_sendSpeed := speed_process now (st_sendSpeed (c_stat ch))\<rparr>\<rparr>"
| "late_rearm now RecvSpeedTimer ch = ch\<lparr>c_stat := (c_stat ch)\<lparr>st_recvSpeed := speed_process now (st_recvSpeed (c_stat ch))\<rparr>\<rparr>"

subsection \<open>Properties\<close>

definition sample_wenv :: wenv where
  "sample_wenv =
     \<lparr>we_now = second, we_sent = second, we_rta = (\<lambda>_. 0), we_nonce = Some (replicate 12 0),
      we_drop = 0, we_draw = 0\<rparr>"

definition sample_channel :: channel where
  "sample_channel =
     \<lparr>c_addr = ''a'', c_serverMode = False, c_id = 0, c_expectedID = 0, c_reader = None,
      c_stat = stat_zero\<lparr>st_sendDelay := 15, st_tripTimeMidle := 20 * millisecond\<rparr>, c_sendQueue = sq_empty, c_recvQueue = rq_init,
      c_combine = combine_clear, c_maxDataLen = 0, c_crypt = \<lparr>k_private = [1], k_session = []\<rparr>,
      c_delivered = []\<rparr>"

lemma newID_iterate: "c_id (((\<lambda>ch. snd (newID ch)) ^^ n) ch) = (next_id ^^ n) (c_id ch)"
  by (induction n) (simp_all add: newID_def)

lemma sq_items_update: "sq_items (q\<lparr>sq_queue := es\<rparr>) = map snd es"
  by (simp add: sq_items_def)

lemma channel_retransmit_parts:
  assumes "retransmit_loop now (setRetransmitTime now ch) (sq_queue (c_sendQueue ch)) = (es, sent, dead)"
  shows "fst (snd (channel_retransmit now ch)) = map OSend sent" "snd (snd (channel_retransmit now ch)) = dead"
    "sq_items (c_sendQueue (fst (channel_retransmit now ch))) = map snd es"
    "sq_timer (c_sendQueue (fst (channel_retransmit now ch))) =
       (if dead then sq_timer (c_sendQueue ch) else Armed (now + 100 * millisecond))"
  using assms by (simp_all add: channel_retransmit_def Let_def sq_items_def sq_retransmit_arm_def)

text \<open>
  The retransmission delay is above 30 ms and at most 3 s for every measured trip time and
  number of attempts, and never shrinks as the attempts grow.
\<close>

lemma retransmit_time:
  assumes "0 \<le> tt" "0 \<le> ra" "ra \<le> rb"
  shows "minRTT < retransmit_rtt tt ra \<and> retransmit_rtt tt ra \<le> retransmit_rtt tt rb \<and> retransmit_rtt tt rb \<le> maxRTT"
  using retransmit_rtt_bounds [OF assms(1)] retransmit_rtt_mono [OF assms] assms by auto

text \<open>
  C16: Draining the receive queue. When it holds the packets numbered by a set B inside the
  window of 2^19 after the expected packet e, then processing it passes on exactly the
  consecutive packets e, e+1, ... that it holds, in order, stops at the first one missing, and
  keeps the rest, for every callback that advances the expected identifier.
\<close>

lemma receive_drain:
  assumes "finite B" "B \<subseteq> {e..<e + 2 ^ 19}" "rq_holds w rep_id B r" "expected st = rep_id e"
    and "\<And>p st. expected (send p st) = next_id (expected st)"
  shows "\<exists>ps r'. process expected send r st = (r', fold send ps st) \<and>
     map wire_of ps = map w [e..<e + length ps] \<and> {e..<e + length ps} \<subseteq> B \<and> e + length ps \<notin> B \<and>
     rq_holds w rep_id (B - {e..<e + length ps}) r' \<and> expected (fold send ps st) = rep_id (e + length ps)"
  using ids.process_drain [where expected = expected and send = send and st = st, OF assms(1-4)]
  by (metis assms(5) next_id_rep)

lemma receive_drain_witness:
  "\<exists>ps r'. process (\<lambda>st. fst st) (\<lambda>p st. (next_id (fst st), snd st @ [p])) (rq_add (newPacket 0) rq_init) (0, []) =
     (r', fold (\<lambda>p st. (next_id (fst st), snd st @ [p])) ps (0, []))"
proof -
  have "rq_holds (\<lambda>_. (0, 0, [])) rep_id (insert 0 {}) (rq_add (newPacket 0) rq_init)"
    by (rule ids.holds_add [where e = 0, OF rq_holds_init]) (auto simp: newPacket_def rep_id_0 wire_of_def)
  from receive_drain [OF _ _ this, where e = 0 and expected = "\<lambda>st. fst st" and st = "(0, [])"
      and send = "\<lambda>p st. (next_id (fst st), snd st @ [p])"] show ?thesis
    by (auto simp: rep_id_0)
qed

text \<open>
  C18: One pass of the retransmission timer. It asks for the channel's destruction exactly when
  a due packet has already been sent again a hundred times; it neither adds, drops, reorders nor
  changes on the wire any queued packet; and when it does not ask for destruction, it sends
  exactly the due packets, in queue order, and arms itself for 100 ms later.
\<close>

lemma retransmit_pass:
  "(snd (snd (channel_retransmit now ch)) \<longleftrightarrow>
      (\<exists>p\<in>set (sq_items (c_sendQueue ch)). p_retransmitTime p < now \<and> maxRetransmitAttempts \<le> p_retransmitAttempts p)) \<and>
   map wire_of (sq_items (c_sendQueue (fst (channel_retransmit now ch)))) = map wire_of (sq_items (c_sendQueue ch)) \<and>
   (snd (snd (channel_retransmit now ch)) \<or>
      (\<exists>ps. fst (snd (channel_retransmit now ch)) = map OSend ps \<and>
        map wire_of ps = map wire_of (filter (\<lambda>p. p_retransmitTime p < now) (sq_items (c_sendQueue ch)))) \<and>
      sq_timer (c_sendQueue (fst (channel_retransmit now ch))) = Armed (now + 100 * millisecond))"
proof -
  obtain es sent dead where run: "retransmit_loop now (setRetransmitTime now ch) (sq_queue (c_sendQueue ch)) = (es, sent, dead)"
    by (metis prod.collapse)
  note parts = channel_retransmit_parts [OF run]
  have dead: "dead \<longleftrightarrow> (\<exists>p\<in>set (sq_items (c_sendQueue ch)). p_retransmitTime p < now \<and> maxRetransmitAttempts \<le> p_retransmitAttempts p)"
    using retransmit_loop_dead_iff [of now "setRetransmitTime now ch" "sq_queue (c_sendQueue ch)"] run
    by (simp add: sq_items_def)
  have wire: "map wire_of (map snd es) = map wire_of (sq_items (c_sendQueue ch))"
    using retransmit_loop_frame(2) [of "setRetransmitTime now ch" now "sq_queue (c_sendQueue ch)"] run
    by (simp add: sq_items_def)
  have "map wire_of sent = map wire_of (filter (\<lambda>p. p_retransmitTime p < now) (sq_items (c_sendQueue ch)))" if "\<not> dead"
    using retransmit_loop_sent [of "setRetransmitTime now ch" now "sq_queue (c_sendQueue ch)"] run that
    by (simp add: sq_items_def)
  then show ?thesis
    using dead wire unfolding parts by auto
qed

text \<open>
  C36: The send delay. Only a client's data packets are delayed. One first sleeps 15
  microseconds for each look that finds the first packet of the queue retransmitted, up to the
  first look that does not and 20 times at most, and then what is left of the channel's current
  send delay since the last packet was sent: never more than 300 microseconds and that delay.
  The delay itself changes by at most 10 microseconds a write, and never falls below 15 once it
  is at least 15.
\<close>

lemma send_delay:
  assumes "15 \<le> st_sendDelay (c_stat ch)" "st_lastSend (c_stat ch) \<le> we_now env"
  defines "attempts \<equiv> (\<lambda>k. if k = 0 then sq_getRetransmitAttempts (c_sendQueue ch) else we_rta env k)"
  shows "case writeToDelay env status ch of (slept, ch') \<Rightarrow>
     if c_serverMode ch \<or> status \<noteq> statusData then slept = 0 \<and> ch' = ch
     else (\<exists>rounds. rounds \<le> 20 \<and> (\<forall>k < rounds. 0 < attempts k) \<and> (rounds = 20 \<or> attempts rounds \<le> 0) \<and>
         slept = int rounds * (15 * microsecond) +
           max 0 (st_sendDelay (c_stat ch) * microsecond - (we_now env - st_lastSend (c_stat ch)))) \<and>
       0 \<le> slept \<and> slept \<le> 300 * microsecond + st_sendDelay (c_stat ch) * microsecond \<and>
       15 \<le> st_sendDelay (c_stat ch') \<and>
       \<bar>st_sendDelay (c_stat ch') - st_sendDelay (c_stat ch)\<bar> \<le> 10"
proof -
  let ?n = "delay_loop attempts 0"
  have n: "?n \<le> 20" "\<forall>k < ?n. 0 < attempts k" "?n = 20 \<or> attempts ?n \<le> 0"
    using delay_loop_ends [of 0 attempts] by (simp_all add: Let_def)
  obtain slept ch' where w: "writeToDelay env status ch = (slept, ch')" by fastforce
  show ?thesis
  proof (cases "c_serverMode ch \<or> status \<noteq> statusData")
    case True
    then show ?thesis by (simp add: writeToDelay_def)
  next
    case False
    then have slept: "slept = int ?n * (15 * microsecond) +
        max 0 (st_sendDelay (c_stat ch) * microsecond - (we_now env - st_lastSend (c_stat ch)))"
      using w by (auto simp: writeToDelay_def Let_def stat_setSendDelay_def attempts_def)
    then have "0 \<le> slept" "slept \<le> 300 * microsecond + st_sendDelay (c_stat ch) * microsecond"
      using n(1) assms(1,2) by auto
    moreover have "15 \<le> st_sendDelay (c_stat ch')" "\<bar>st_sendDelay (c_stat ch') - st_sendDelay (c_stat ch)\<bar> \<le> 10"
      using False w assms(1) by (auto simp: writeToDelay_def Let_def stat_setSendDelay_def)
    ultimately show ?thesis
      unfolding w prod.case using False n slept by auto
  qed
qed

lemma send_delay_witness: "fst (writeToDelay sample_wenv statusData sample_channel) \<le> 315 * microsecond"
  using send_delay [of sample_channel sample_wenv statusData]
  by (simp add: sample_channel_def sample_wenv_def stat_zero_def split_def)

end
