(* ===== verification/Tru_State.thy ===== *)
theory Tru_State
  imports Channel
begin

section \<open>The connector's state and its channels (tru.go, channel.go)\<close>

text \<open>
  The \<open>Tru\<close> object: a heap of channels (a reference is an index; a destroyed channel stays in
  it, as goroutines may still hold its address), the map from addresses to the live references,
  the two goroutine queues, the connections under way, and a trace of what the outside sees.
  A callback of the application is a token, and calling it is an event of the trace: what the
  application does in it is a later operation of its own.  The capacity of the goroutine queues
  only delays a sender, so the queues are unbounded here.
\<close>

datatype event =
    EvUdp string bytes
  | EvReader nat "nat option" "packet option" "go_error option"
  | EvConnectCb nat nat
  | EvPunchCb nat string bytes
  | EvDelivery nat packet "go_error option"
  | EvPanic

text \<open>
  A connection under way.  Its unbuffered \<open>wch\<close> is waited on by \<open>Connect\<close>, has handed a value
  over (\<open>Connect\<close> is returning), or is closed.
\<close>

datatype wchan = WWaiting | WSent "nat option" | WClosed

record connectData =
  cd_uuid :: bytes
  cd_wch :: wchan
  cd_ch :: "nat option"

record tru =
  t_heap :: "channel list"
  t_channels :: "(string, nat) gomap"
  t_reader :: "nat option"
  t_punchcb :: "nat option"
  t_connectcb :: "nat option"
  t_readerCh :: "(nat \<times> packet) list"
  t_senderCh :: "(nat \<times> packet) list"
  t_connects :: "(bytes, connectData) gomap"
  t_sendDelay :: int
  t_statMsgs :: statistic_log
  t_privateKey :: "bytes option"
  t_maxDataLen :: int
  t_listening :: bool
  t_start :: time
  t_statTimer :: timer
  t_hotkey :: bool
  t_events :: "event list"

text \<open>
  What one step takes from outside: the clock and its log layout, the surroundings of a
  \<open>writeTo\<close>, OAEP seeds, draws for a session key, and the outcome of generating an RSA key.
\<close>

record tenv =
  te_now :: time
  te_stamp :: string
  te_wenv :: wenv
  te_seeds :: "nat \<Rightarrow> bytes"
  te_rnd :: "nat \<Rightarrow> nat"
  te_key :: "bytes option"

abbreviation get_ch :: "tru \<Rightarrow> nat \<Rightarrow> channel" where
  "get_ch tru r \<equiv> t_heap tru ! r"

definition put_ch :: "nat \<Rightarrow> channel \<Rightarrow> tru \<Rightarrow> tru" where
  "put_ch r ch tru = tru\<lparr>t_heap := (t_heap tru)[r := ch]\<rparr>"

definition tell :: "event list \<Rightarrow> tru \<Rightarrow> tru" where
  "tell es tru = tru\<lparr>t_events := t_events tru @ es\<rparr>"

text \<open>The outputs of a channel operation, in the order it made them.\<close>

fun emit1 :: "nat \<Rightarrow> out \<Rightarrow> tru \<Rightarrow> tru" where
  "emit1 r (OSend p) tru = tru\<lparr>t_senderCh := t_senderCh tru @ [(r, p)]\<rparr>"
| "emit1 r (OUdp bs) tru = tell [EvUdp (c_addr (get_ch tru r)) bs] tru"
| "emit1 r (ORead p) tru = tru\<lparr>t_readerCh := t_readerCh tru @ [(r, p)]\<rparr>"
| "emit1 r (ODeliver f p) tru = tell [EvDelivery f p None] tru"
| "emit1 r (OTimeout f p) tru = tell [EvDelivery f p (Some ErrDeliveryTimeout)] tru"
| "emit1 r OPanic tru = tell [EvPanic] tru"

definition emit :: "nat \<Rightarrow> out list \<Rightarrow> tru \<Rightarrow> tru" where
  "emit r outs tru = fold (emit1 r) outs tru"

definition log_msg :: "tenv \<Rightarrow> string \<Rightarrow> tru \<Rightarrow> tru" where
  "log_msg env msg tru = tru\<lparr>t_statMsgs := sl_add (te_stamp env) msg (t_statMsgs tru)\<rparr>"

subsection \<open>newCrypt, newChannel, getChannel\<close>

text \<open>\<open>newCrypt\<close> shares the connector's key and generates it on first use.\<close>

definition newCrypt :: "tenv \<Rightarrow> tru \<Rightarrow> (go_error + crypt) \<times> tru" where
  "newCrypt env tru =
     (case t_privateKey tru of
        Some k \<Rightarrow> (Inr \<lparr>k_private = k, k_session = []\<rparr>, tru)
      | None \<Rightarrow>
          (case te_key env of
             None \<Rightarrow> (Inl ErrCrypt, tru)
           | Some k \<Rightarrow> (Inr \<lparr>k_private = k, k_session = []\<rparr>, tru\<lparr>t_privateKey := Some k\<rparr>)))"

text \<open>The channel of \<open>newChannel\<close> once its crypt is there.\<close>

definition make_channel :: "time \<Rightarrow> tru \<Rightarrow> string \<Rightarrow> bool \<Rightarrow> crypt \<Rightarrow> channel" where
  "make_channel now tru addr serverMode c =
     (let s = stat_init now stat_zero;
          s = (if \<not> serverMode then s\<lparr>st_sendDelay := t_sendDelay tru\<rparr> else s)
      in \<lparr>c_addr = addr, c_serverMode = serverMode, c_id = 0, c_expectedID = 0, c_reader = None,
          c_stat = s, c_sendQueue = sq_init now sq_empty, c_recvQueue = rq_init,
          c_combine = combine_clear, c_maxDataLen = t_maxDataLen tru, c_crypt = c, c_delivered = []\<rparr>)"

definition newChannel :: "tenv \<Rightarrow> string \<Rightarrow> bool \<Rightarrow> tru \<Rightarrow> (go_error + nat) \<times> tru" where
  "newChannel env addr serverMode tru =
     (let tru = log_msg env (''new channel '' @ addr) tru in
      case newCrypt env tru of
        (Inl e, tru) \<Rightarrow> (Inl e, tru)
      | (Inr c, tru) \<Rightarrow>
          (let r = length (t_heap tru);
               tru = tru\<lparr>t_heap := t_heap tru @ [make_channel (te_now env) tru addr serverMode c],
                         t_channels := gm_set addr r (t_channels tru)\<rparr>;
               tru = (case t_connectcb tru of
                        Some f \<Rightarrow> if serverMode then tell [EvConnectCb f r] tru else tru
                      | None \<Rightarrow> tru)
           in (Inr r, tru)))"

definition getChannel :: "string \<Rightarrow> tru \<Rightarrow> nat option" where
  "getChannel addr tru = gm_get (t_channels tru) addr"

subsection \<open>destroy and Close\<close>

definition destroy_events :: "nat \<Rightarrow> tru \<Rightarrow> event list" where
  "destroy_events r tru =
     (case c_reader (get_ch tru r) of None \<Rightarrow> [] | Some f \<Rightarrow> [EvReader f (Some r) None (Some ErrChannelDestroyed)]) @
     (case t_reader tru of None \<Rightarrow> [] | Some f \<Rightarrow> [EvReader f (Some r) None (Some ErrChannelDestroyed)])"

definition channel_stop :: "channel \<Rightarrow> channel" where
  "channel_stop ch = ch\<lparr>c_sendQueue := sq_destroy (c_sendQueue ch), c_stat := stat_destroy (c_stat ch)\<rparr>"

text \<open>
  The readers are told, the timers stopped, and the map's entry for the address deleted,
  whichever channel it names.
\<close>

definition destroy :: "tenv \<Rightarrow> string \<Rightarrow> nat \<Rightarrow> tru \<Rightarrow> tru" where
  "destroy env msg r tru =
     (let tru = tell (destroy_events r tru) tru;
          tru = put_ch r (channel_stop (get_ch tru r)) tru;
          tru = log_msg env msg tru
      in tru\<lparr>t_channels := gm_del (c_addr (get_ch tru r)) (t_channels tru)\<rparr>)"

definition channel_Close :: "crypto \<Rightarrow> tenv \<Rightarrow> nat \<Rightarrow> tru \<Rightarrow> tru" where
  "channel_Close L env r tru =
     (if st_destroyed (c_stat (get_ch tru r)) then tru
      else
        let (_, ch, out) = writeToDisconnect L (te_wenv env) (get_ch tru r);
            tru = emit r out (put_ch r ch tru)
        in destroy env (''channel close, destroy '' @ c_addr (get_ch tru r)) r tru)"

subsection \<open>The timers of a channel\<close>

text \<open>The activity timer: inactive channels are destroyed, a client pings, and the timer is armed anew.\<close>

definition activity_timer :: "crypto \<Rightarrow> tenv \<Rightarrow> nat \<Rightarrow> tru \<Rightarrow> tru" where
  "activity_timer L env r tru =
     (let ch = get_ch tru r in
      case stat_activity (te_now env) (c_stat ch) of
        Inactive \<Rightarrow> destroy env (''channel inactive, destroy '' @ c_addr ch) r tru
      | a \<Rightarrow>
          (let tru = (if a = Keepalive \<and> \<not> c_serverMode ch then
                        (let (_, ch, out) = writeToPing L (te_wenv env) ch in emit r out (put_ch r ch tru))
                      else tru);
               ch = get_ch tru r
           in put_ch r (ch\<lparr>c_stat := stat_armActivity (te_now env) (c_stat ch)\<rparr>) tru))"

definition retransmit_timer :: "tenv \<Rightarrow> nat \<Rightarrow> tru \<Rightarrow> tru" where
  "retransmit_timer env r tru =
     (let (ch, out, dead) = channel_retransmit (te_now env) (get_ch tru r);
          tru = emit r out (put_ch r ch tru)
      in if dead then destroy env (''channel max retransmit, destroy '' @ c_addr ch) r tru else tru)"

definition delivery_step :: "tenv \<Rightarrow> nat \<Rightarrow> nat \<Rightarrow> tru \<Rightarrow> tru" where
  "delivery_step env r e tru =
     (let (ch, out) = delivery_timer (te_now env) e (get_ch tru r) in emit r out (put_ch r ch tru))"

definition late_delivery_step :: "tenv \<Rightarrow> nat \<Rightarrow> nat \<Rightarrow> tru \<Rightarrow> tru" where
  "late_delivery_step env r i tru =
     (let (ch, out) = late_delivery (te_now env) i (get_ch tru r) in emit r out (put_ch r ch tru))"

definition setReader :: "nat \<Rightarrow> nat \<Rightarrow> tru \<Rightarrow> tru" where
  "setReader f r tru = put_ch r ((get_ch tru r)\<lparr>c_reader := Some f\<rparr>) tru"

subsection \<open>Well-formed states\<close>

text \<open>
  A live channel has its retransmission timer and its activity timer armed.  A destroy stops the four
  timers of a channel, but one may be armed once more afterwards.
\<close>

fun armed :: "timer \<Rightarrow> bool" where
  "armed (Armed t) \<longleftrightarrow> True"
| "armed _ \<longleftrightarrow> False"

lemma armed_stop [simp]: "\<not> armed (timer_stop t)"
  by (cases t) auto

definition timers_ok :: "channel \<Rightarrow> bool" where
  "timers_ok ch \<longleftrightarrow>
     (\<not> st_destroyed (c_stat ch) \<longrightarrow> armed (st_timer (c_stat ch)) \<and> armed (sq_timer (c_sendQueue ch)))"

definition channel_ok :: "channel \<Rightarrow> bool" where
  "channel_ok ch \<longleftrightarrow> timers_ok ch \<and> id_ok (c_id ch) \<and> id_ok (c_expectedID ch) \<and> sq_ok (c_sendQueue ch) \<and>
     rq_ok (c_recvQueue ch) \<and> combine_ok (c_combine ch) \<and>
     speed_ok (st_sendSpeed (c_stat ch)) \<and> speed_ok (st_recvSpeed (c_stat ch))"

text \<open>
  Every channel is well formed, the map and the goroutine queues name channels that exist, and a
  mapped channel is mapped under its own address and not destroyed.
\<close>

definition tru_ok :: "tru \<Rightarrow> bool" where
  "tru_ok tru \<longleftrightarrow> (\<forall>ch\<in>set (t_heap tru). channel_ok ch) \<and> gm_ok (t_channels tru) \<and>
     (\<forall>a r. gm_get (t_channels tru) a = Some r \<longrightarrow>
        r < length (t_heap tru) \<and> c_addr (get_ch tru r) = a \<and> \<not> st_destroyed (c_stat (get_ch tru r))) \<and>
     (\<forall>x\<in>set (t_readerCh tru) \<union> set (t_senderCh tru). fst x < length (t_heap tru)) \<and>
     (\<forall>u cd r. gm_get (t_connects tru) u = Some cd \<and> (cd_ch cd = Some r \<or> cd_wch cd = WSent (Some r)) \<longrightarrow>
        r < length (t_heap tru))"

text \<open>A live channel: not destroyed.\<close>

abbreviation live :: "tru \<Rightarrow> nat \<Rightarrow> bool" where
  "live tru r \<equiv> r < length (t_heap tru) \<and> \<not> st_destroyed (c_stat (get_ch tru r))"

end
