(* ===== verification/Connect.thy ===== *)
theory Connect
  imports Tru_State
begin

section \<open>Connecting (connect.go)\<close>

text \<open>
  The handshake: connect (client's public key), server answer (server's public key, encrypted),
  client answer (session key, encrypted), done.  \<open>Connect\<close> blocks while it waits; it is cut here
  into its start, its end, and the two deferred calls, between which other goroutines run.
\<close>

record connectPacketData =
  cp_uuid :: bytes
  cp_data :: bytes

definition connect_marshal :: "connectPacketData \<Rightarrow> bytes" where
  "connect_marshal c = [word_of_nat (length (cp_uuid c))] @ cp_uuid c @ cp_data c"

text \<open>The final branches give the same data: what is left, which may be nothing.\<close>

definition connect_unmarshal :: "bytes \<Rightarrow> go_error + connectPacketData" where
  "connect_unmarshal bs =
     (case read_bytes 1 bs of
        Inl e \<Rightarrow> Inl e
      | Inr (l, rest) \<Rightarrow>
          (case read_bytes (unat (hd l)) rest of
             Inl e \<Rightarrow> Inl e
           | Inr (uuid, rest) \<Rightarrow> Inr \<lparr>cp_uuid = uuid, cp_data = if length rest > 0 then rest else []\<rparr>))"

subsection \<open>The table of connections\<close>

definition connect_add :: "bytes \<Rightarrow> tru \<Rightarrow> tru" where
  "connect_add uuid tru =
     tru\<lparr>t_connects := gm_set uuid \<lparr>cd_uuid = uuid, cd_wch = WWaiting, cd_ch = None\<rparr> (t_connects tru)\<rparr>"

definition connect_delete :: "bytes \<Rightarrow> tru \<Rightarrow> tru" where
  "connect_delete uuid tru = tru\<lparr>t_connects := gm_del uuid (t_connects tru)\<rparr>"

definition connect_get :: "bytes \<Rightarrow> tru \<Rightarrow> connectData option" where
  "connect_get uuid tru = gm_get (t_connects tru) uuid"

definition connect_put :: "bytes \<Rightarrow> connectData \<Rightarrow> tru \<Rightarrow> tru" where
  "connect_put uuid cd tru = tru\<lparr>t_connects := gm_set uuid cd (t_connects tru)\<rparr>"

text \<open>\<open>close(wch)\<close>, the first of the deferred calls to run; \<open>delete\<close> is the second.\<close>

definition connect_close :: "bytes \<Rightarrow> tru \<Rightarrow> tru" where
  "connect_close uuid tru =
     (case connect_get uuid tru of
        None \<Rightarrow> tru
      | Some cd \<Rightarrow> connect_put uuid (cd\<lparr>cd_wch := WClosed\<rparr>) tru)"

subsection \<open>Connect\<close>

text \<open>
  \<open>Connect\<close> up to the wait.  \<open>addr\<close> is the outcome of resolving the address, \<open>uuid\<close> the new
  identifier; when the message cannot be sent the deferred calls run at once.
\<close>

definition Connect_start :: "crypto \<Rightarrow> tenv \<Rightarrow> bytes \<Rightarrow> string option \<Rightarrow> tru \<Rightarrow> go_error option \<times> tru" where
  "Connect_start L env uuid addr tru =
     (case newCrypt env tru of
        (Inl e, tru) \<Rightarrow> (Some e, tru)
      | (Inr c, tru) \<Rightarrow>
          (case publicKeyToBytes L (cr_public L (k_private c)) of
             Inl e \<Rightarrow> (Some e, tru)
           | Inr pub \<Rightarrow>
               (let data = connect_marshal \<lparr>cp_uuid = uuid, cp_data = pub\<rparr>;
                    pac = marshalBinary (set_data data (set_status statusConnect (newPacket (te_now env))));
                    tru = connect_add uuid tru
                in case addr of
                     None \<Rightarrow> (Some ErrWrongAddress, connect_delete uuid (connect_close uuid tru))
                   | Some a \<Rightarrow> (None, tell [EvUdp a pac] tru))))"

text \<open>
  What \<open>wait\<close> returns once it can: the channel handed over, or the timeout error; and setting the
  reader, which dereferences the channel.
\<close>

datatype connect_result = Connected "nat option" | ConnectError go_error | ConnectPanic

definition connect_wait :: "bool \<Rightarrow> bytes \<Rightarrow> tru \<Rightarrow> connect_result option" where
  "connect_wait timedout uuid tru =
     (case connect_get uuid tru of
        None \<Rightarrow> None
      | Some cd \<Rightarrow>
          (case cd_wch cd of
             WSent c \<Rightarrow> Some (Connected c)
           | WWaiting \<Rightarrow> if timedout then Some (ConnectError ErrConnectTimeout) else None
           | WClosed \<Rightarrow> None))"

definition Connect_finish :: "nat option \<Rightarrow> connect_result \<Rightarrow> tru \<Rightarrow> connect_result \<times> tru" where
  "Connect_finish reader res tru =
     (case (res, reader) of
        (Connected (Some r), Some f) \<Rightarrow> (res, put_ch r ((get_ch tru r)\<lparr>c_reader := Some f\<rparr>) tru)
      | (Connected None, Some f) \<Rightarrow> (ConnectPanic, tell [EvPanic] tru)
      | _ \<Rightarrow> (res, tru))"

subsection \<open>serve\<close>

text \<open>
  The four handlers, each with its early returns; the result is the error, if any.  A connector
  made by \<open>New\<close> has its key, so the failure of \<open>newChannel\<close> in them is not reached.
\<close>

definition serve_connect ::
  "crypto \<Rightarrow> tenv \<Rightarrow> string \<Rightarrow> packet \<Rightarrow> tru \<Rightarrow> go_error option \<times> tru" where
  "serve_connect L env addr pac tru =
     (case connect_unmarshal (p_data pac) of
        Inl e \<Rightarrow> (Some e, tru)
      | Inr cp \<Rightarrow>
          (case newChannel env addr True tru of
             (Inl e, tru) \<Rightarrow> (Some e, tru)
           | (Inr r, tru) \<Rightarrow>
               (case publicKeyToBytes L (cr_public L (k_private (c_crypt (get_ch tru r)))) of
                  Inl e \<Rightarrow> (Some e, tru)
                | Inr pub \<Rightarrow>
                    (case bytesToPublicKey L (cp_data cp) of
                       Inl e \<Rightarrow> (Some e, tru)
                     | Inr pubcli \<Rightarrow>
                         (case rsa_encrypt L (te_seeds env) pubcli pub of
                            Inl e \<Rightarrow> (Some e, tru)
                          | Inr enc \<Rightarrow>
                              (let data = connect_marshal (cp\<lparr>cp_data := enc\<rparr>);
                                   pac = set_data data (set_status statusConnectServerAnswer (newPacket (te_now env)))
                               in (None, emit r [OSend pac] tru)))))))"

definition serve_server_answer ::
  "crypto \<Rightarrow> tenv \<Rightarrow> string \<Rightarrow> packet \<Rightarrow> tru \<Rightarrow> go_error option \<times> tru" where
  "serve_server_answer L env addr pac tru =
     (case connect_unmarshal (p_data pac) of
        Inl e \<Rightarrow> (Some e, tru)
      | Inr cp \<Rightarrow>
          (case connect_get (cp_uuid cp) tru of
             None \<Rightarrow> (Some ErrWrongServerAnswer, tru)
           | Some cd \<Rightarrow>
               (case newChannel env addr False tru of
                  (Inl e, tru) \<Rightarrow> (Some e, tru)
                | (Inr r, tru) \<Rightarrow>
                    (let tru = connect_put (cp_uuid cp) (cd\<lparr>cd_ch := Some r\<rparr>) tru;
                         c = c_crypt (get_ch tru r)
                     in case rsa_decrypt L c (cp_data cp) of
                          Inl e \<Rightarrow> (Some e, tru)
                        | Inr data \<Rightarrow>
                            (case bytesToPublicKey L data of
                               Inl e \<Rightarrow> (Some e, tru)
                             | Inr pub \<Rightarrow>
                                 (let key = makeSesionKey L (te_rnd env) in
                                  case rsa_encrypt L (te_seeds env) pub key of
                                    Inl e \<Rightarrow> (Some e, tru)
                                  | Inr enc \<Rightarrow>
                                      (let data = connect_marshal (cp\<lparr>cp_data := enc\<rparr>);
                                           pac = set_data data (set_status statusConnectClientAnswer (newPacket (te_now env)));
                                           tru = emit r [OSend pac] tru;
                                           ch = get_ch tru r
                                       in (None, put_ch r (ch\<lparr>c_crypt := setSesionKey key (c_crypt ch)\<rparr>) tru))))))))"

definition serve_client_answer ::
  "crypto \<Rightarrow> tenv \<Rightarrow> string \<Rightarrow> packet \<Rightarrow> tru \<Rightarrow> go_error option \<times> tru" where
  "serve_client_answer L env addr pac tru =
     (case connect_unmarshal (p_data pac) of
        Inl e \<Rightarrow> (Some e, tru)
      | Inr cp \<Rightarrow>
          (case getChannel addr tru of
             None \<Rightarrow> (Some ErrNoChannel, tru)
           | Some r \<Rightarrow>
               (let ch = get_ch tru r in
                case rsa_decrypt L (c_crypt ch) (cp_data cp) of
                  Inl e \<Rightarrow> (Some e, tru)
                | Inr key \<Rightarrow>
                    (let tru = put_ch r (ch\<lparr>c_crypt := setSesionKey key (c_crypt ch)\<rparr>) tru;
                         data = connect_marshal (cp\<lparr>cp_data := []\<rparr>);
                         pac = set_data data (set_status statusConnectDone (newPacket (te_now env)))
                     in (None, emit r [OSend pac] tru)))))"

text \<open>
  \<open>cd.wch <- cd\<close>: the waiting \<open>Connect\<close> takes the value.  When it has taken one already, or the
  channel is closed, the send ends in a panic: at once, or when the deferred \<open>close\<close> finds the
  blocked sender.
\<close>

definition serve_done :: "packet \<Rightarrow> tru \<Rightarrow> go_error option \<times> tru" where
  "serve_done pac tru =
     (case connect_unmarshal (p_data pac) of
        Inl e \<Rightarrow> (Some e, tru)
      | Inr cp \<Rightarrow>
          (case connect_get (cp_uuid cp) tru of
             None \<Rightarrow> (Some ErrWrongDone, tru)
           | Some cd \<Rightarrow>
               (None,
                if cd_wch cd = WWaiting
                then connect_put (cp_uuid cp) (cd\<lparr>cd_wch := WSent (cd_ch cd)\<rparr>) tru
                else tell [EvPanic] tru)))"

definition connect_serve ::
  "crypto \<Rightarrow> tenv \<Rightarrow> string \<Rightarrow> packet \<Rightarrow> tru \<Rightarrow> go_error option \<times> tru" where
  "connect_serve L env addr pac tru =
     (if p_status pac = statusConnect then serve_connect L env addr pac tru
      else if p_status pac = statusConnectServerAnswer then serve_server_answer L env addr pac tru
      else if p_status pac = statusConnectClientAnswer then serve_client_answer L env addr pac tru
      else if p_status pac = statusConnectDone then serve_done pac tru
      else (Some ErrWrongStatus, tru))"

subsection \<open>The connect packet codec\<close>

definition connect_ok :: "connectPacketData \<Rightarrow> bool" where
  "connect_ok c \<longleftrightarrow> length (cp_uuid c) < 256"

lemma connect_unmarshal_marshal [wire_simps]:
  assumes "length (cp_uuid c) < 256"
  shows "connect_unmarshal (connect_marshal c) = Inr c"
proof -
  have "unat (word_of_nat (length (cp_uuid c)) :: u8) = length (cp_uuid c)"
    using assms by (simp add: unsigned_of_nat take_bit_nat_eq_self)
  moreover have "read_bytes 1 (connect_marshal c) =
      Inr ([word_of_nat (length (cp_uuid c))], cp_uuid c @ cp_data c)"
    by (simp add: read_bytes_def connect_marshal_def)
  ultimately show ?thesis
    by (simp add: connect_unmarshal_def)
qed

lemma connect_unmarshal_ok:
  assumes "connect_unmarshal bs = Inr c"
  shows "connect_ok c"
proof -
  obtain l rest where l: "read_bytes 1 bs = Inr (l, rest)" and c: "length (cp_uuid c) \<le> unat (hd l)"
    using assms by (auto simp: connect_unmarshal_def read_bytes_def split: sum.splits prod.splits if_splits)
  have "unat (hd l) < 256"
    using unsigned_less [of "hd l"] by simp
  with c show ?thesis by (simp add: connect_ok_def)
qed

interpretation connect_codec: codec connect_marshal connect_unmarshal connect_ok
  by unfold_locales (auto simp: connect_unmarshal_marshal connect_ok_def dest: connect_unmarshal_ok [unfolded connect_ok_def])

subsection \<open>Properties\<close>



text \<open>
  C26: The connect packet. An identifier of less than 256 bytes and any data survive marshalling
  and unmarshalling; an empty buffer and one shorter than its length byte says are refused; and
  what unmarshals has an identifier that marshals again.
\<close>

lemma connect_packet:
  assumes "connect_ok c"
  shows "connect_unmarshal (connect_marshal c) = Inr c \<and>
     connect_unmarshal [] = Inl ErrEOF \<and>
     ((\<exists>d. connect_unmarshal (l # bs) = Inr d) \<longleftrightarrow> unat l \<le> length bs) \<and>
     (\<forall>d. connect_unmarshal bs = Inr d \<longrightarrow> connect_unmarshal (connect_marshal d) = Inr d)"
proof (intro conjI allI impI)
  show "connect_unmarshal (connect_marshal c) = Inr c"
    by (rule connect_codec.dec_enc [OF assms])
  show "(\<exists>d. connect_unmarshal (l # bs) = Inr d) \<longleftrightarrow> unat l \<le> length bs"
    by (auto simp: connect_unmarshal_def read_bytes_def)
  show "connect_unmarshal (connect_marshal d) = Inr d" if "connect_unmarshal bs = Inr d" for d
    by (rule connect_codec.dec_enc_dec [OF that])
qed (simp add: connect_unmarshal_def read_bytes_def)

lemma connect_packet_witness:
  "connect_unmarshal (connect_marshal \<lparr>cp_uuid = [1, 2], cp_data = [3]\<rparr>) = Inr \<lparr>cp_uuid = [1, 2], cp_data = [3]\<rparr>"
  using connect_packet [of "\<lparr>cp_uuid = [1, 2], cp_data = [3]\<rparr>"] by (simp add: connect_ok_def)

end
