(* ===== verification/Tru.thy ===== *)
theory Tru
  imports Connect
begin

section \<open>The connector (tru.go)\<close>

text \<open>
  Serving a received datagram, the reader and sender goroutines, the connector's parameters, and
  its end.  \<open>serve_channel\<close> is the second switch of \<open>serve\<close> on the channel's own state.
\<close>

subsection \<open>Data packets\<close>

text \<open>\<open>sendToReader\<close>, the closure of the data branch, on the channel and the outputs so far.\<close>

definition sendToReader :: "time \<Rightarrow> packet \<Rightarrow> channel \<times> out list \<Rightarrow> channel \<times> out list" where
  "sendToReader now pac st =
     (case st of (ch, out) \<Rightarrow>
       (let ch = snd (newExpectedID ch) in
        case combine_packet pac (c_combine ch) of
          Inl e \<Rightarrow> (ch, out @ [OPanic])
        | Inr (None, c) \<Rightarrow> (ch\<lparr>c_combine := c\<rparr>, out)
        | Inr (Some q, c) \<Rightarrow>
            (ch\<lparr>c_combine := c, c_stat := stat_setRecv now (c_stat ch)\<rparr>, out @ [ORead q])))"

text \<open>
  The three cases of the distance.  \<open>process\<close> runs on the channel with its receive queue passed
  separately; the queue it leaves is put back.
\<close>

definition accept_data :: "time \<Rightarrow> packet \<Rightarrow> channel \<Rightarrow> channel \<times> out list" where
  "accept_data now pac ch =
     (let dist = distance (c_expectedID ch) (p_id pac) in
      if dist < 0 then (ch\<lparr>c_stat := stat_setDrop (c_stat ch)\<rparr>, [])
      else if dist > 0 then
        (case rq_get (c_recvQueue ch) (p_id pac) of
           None \<Rightarrow> (ch\<lparr>c_recvQueue := rq_add pac (c_recvQueue ch)\<rparr>, [])
         | Some _ \<Rightarrow> (ch\<lparr>c_stat := stat_setDrop (c_stat ch)\<rparr>, []))
      else
        (case process (\<lambda>st. c_expectedID (fst st)) (sendToReader now) (c_recvQueue ch)
                (sendToReader now pac (ch, [])) of
           (q, (ch, out)) \<Rightarrow> (ch\<lparr>c_recvQueue := q\<rparr>, out)))"

text \<open>
  The data branch: decrypt, acknowledge, accept.  The flag is false when the branch returns early,
  without counting as activity.  The distance is taken before the acknowledgement and used after
  it; the acknowledgement does not touch the expected identifier.
\<close>

definition serve_data :: "crypto \<Rightarrow> wenv \<Rightarrow> packet \<Rightarrow> channel \<Rightarrow> channel \<times> out list \<times> bool" where
  "serve_data L env pac ch =
     (case decryptPacketData L (c_crypt ch) (p_id pac) (p_data pac) of
        Inl e \<Rightarrow> (ch, if e = ErrPanic then [OPanic] else [], False)
      | Inr data \<Rightarrow>
          (let pac = set_data data pac;
               (_, ch, out) = writeToAck L env ch pac;
               (ch, out') = accept_data (we_now env) pac ch
           in (ch, out @ out', True)))"

subsection \<open>Acknowledgements\<close>

text \<open>
  \<open>pac.Delivery()\<close> on the result of \<open>delete\<close> dereferences it, found or not.  \<open>pac.deliveryTimer\<close> is a copy
  of the timer that \<open>SetDelivery\<close> started, so its \<open>Stop\<close> leaves that timer running: the packet joins
  those of \<open>c_delivered\<close> with its timer as it is.
\<close>

definition serve_ack :: "time \<Rightarrow> packet \<Rightarrow> channel \<Rightarrow> channel \<times> out list" where
  "serve_ack now pac ch =
     (case setTripTime now (p_id pac) ch of
        Inl e \<Rightarrow> (ch\<lparr>c_stat := stat_setAckDropReceived (c_stat ch)\<rparr>, [])
      | Inr (tt, ch) \<Rightarrow>
          (let ch = ch\<lparr>c_stat := stat_setAckReceived (c_stat ch)\<rparr>;
               (found, q) = sq_delete (p_id pac) (c_sendQueue ch);
               ch = ch\<lparr>c_sendQueue := q\<rparr>
           in case found of
                None \<Rightarrow> (ch, [OPanic])
              | Some pac \<Rightarrow>
                  (case p_delivery pac of
                     None \<Rightarrow> (ch, [])
                   | Some f \<Rightarrow> (ch\<lparr>c_delivered := c_delivered ch @ [pac]\<rparr>, [ODeliver f pac]))))"

text \<open>The second switch of \<open>serve\<close>, without its disconnect case, which destroys the channel.\<close>

definition serve_channel :: "crypto \<Rightarrow> wenv \<Rightarrow> packet \<Rightarrow> channel \<Rightarrow> channel \<times> out list" where
  "serve_channel L env pac ch =
     (let s = p_status pac;
          (ch, out, active) =
            (if s = statusPing then (let (_, ch, out) = writeToPong L env ch in (ch, out, True))
             else if s = statusPong then (ch, [], True)
             else if s = statusAck then (let (ch, out) = serve_ack (we_now env) pac ch in (ch, out, True))
             else if s = statusData \<or> s = statusDataNext then serve_data L env pac ch
             else (ch, [], True))
      in (if active then ch\<lparr>c_stat := stat_setLastActivity (we_now env) (c_stat ch)\<rparr> else ch, out))"

subsection \<open>serve\<close>

definition serve :: "crypto \<Rightarrow> tenv \<Rightarrow> string \<Rightarrow> bytes \<Rightarrow> tru \<Rightarrow> tru" where
  "serve L env addr bs tru =
     (case unmarshalBinary bs (newPacket (te_now env)) of
        Inl e \<Rightarrow> tru
      | Inr pac \<Rightarrow>
          (let ch = getChannel addr tru; s = p_status pac in
           if s = statusConnect \<or> s = statusConnectServerAnswer \<or> s = statusConnectClientAnswer
              \<or> s = statusConnectDone then
             (let tru = (case ch of
                           Some r \<Rightarrow>
                             if s = statusConnect
                             then destroy env (''channel reconnect, destroy '' @ c_addr (get_ch tru r)) r tru
                             else tru
                         | None \<Rightarrow> tru);
                  (err, tru) = connect_serve L env addr pac tru
              in case (ch, err) of
                   (Some r, Some e) \<Rightarrow>
                     destroy env (''channel connection error, destroy '' @ c_addr (get_ch tru r)) r tru
                 | _ \<Rightarrow> tru)
           else if s = statusPunch then
             (case t_punchcb tru of None \<Rightarrow> tru | Some f \<Rightarrow> tell [EvPunchCb f addr (p_data pac)] tru)
           else
             (case ch of
                None \<Rightarrow> tru
              | Some r \<Rightarrow>
                  if s = statusDisconnect
                  then destroy env (''channel disconnect received, destroy '' @ c_addr (get_ch tru r)) r tru
                  else
                    (let (ch, out) = serve_channel L (te_wenv env) pac (get_ch tru r)
                     in emit r out (put_ch r ch tru)))))"

text \<open>
  One turn of the loop of \<open>listen\<close>: \<open>None\<close> when the stop channel is closed, else the state after what
  \<open>ReadFrom\<close> gave, at most 64 KiB of a datagram.
\<close>

datatype read_from = ReadError | ReadData string bytes

definition listen_turn :: "crypto \<Rightarrow> tenv \<Rightarrow> read_from \<Rightarrow> tru \<Rightarrow> tru option" where
  "listen_turn L env res tru =
     (if \<not> t_listening tru then None
      else case res of
        ReadError \<Rightarrow> Some tru
      | ReadData addr bs \<Rightarrow>
          (let buf = take (64 * 1024) bs in Some (if length buf > 0 then serve L env addr buf tru else tru)))"

subsection \<open>The reader and sender goroutines\<close>

text \<open>
  One turn of \<open>readerProccess\<close>.  \<open>processed\<close> is what the channel's reader returns for the packet.
\<close>

definition reader_step :: "(nat \<Rightarrow> packet \<Rightarrow> bool) \<Rightarrow> tru \<Rightarrow> tru" where
  "reader_step processed tru =
     (case t_readerCh tru of
        [] \<Rightarrow> tru
      | (r, pac) # rest \<Rightarrow>
          (let tru = tru\<lparr>t_readerCh := rest\<rparr>; ch = get_ch tru r in
           if st_destroyed (c_stat ch) then tru
           else
             let own = (case c_reader ch of None \<Rightarrow> [] | Some f \<Rightarrow> [EvReader f (Some r) (Some pac) None]);
                 stop = (case c_reader ch of None \<Rightarrow> False | Some f \<Rightarrow> processed f pac);
                 common = (case t_reader tru of
                             None \<Rightarrow> []
                           | Some f \<Rightarrow> if stop then [] else [EvReader f (Some r) (Some pac) None])
             in tell (own @ common) tru))"

definition sender_step :: "tru \<Rightarrow> tru" where
  "sender_step tru =
     (case t_senderCh tru of
        [] \<Rightarrow> tru
      | (r, pac) # rest \<Rightarrow>
          (let tru = tru\<lparr>t_senderCh := rest\<rparr>; ch = get_ch tru r in
           if st_destroyed (c_stat ch) then tru
           else tell [EvUdp (c_addr ch) (marshalBinary pac)] tru))"

subsection \<open>Writing to an address\<close>

text \<open>
  The dynamic type of the address argument; any other type leaves a nil address, on which the
  socket's error is ignored.  \<open>resolve\<close> is \<open>net.ResolveUDPAddr\<close>.
\<close>

datatype addr_arg = AddrString string | AddrUDP string | AddrOther

definition tru_WriteTo ::
  "(string \<Rightarrow> string option) \<Rightarrow> bytes \<Rightarrow> addr_arg \<Rightarrow> tru \<Rightarrow> (go_error + string option) \<times> tru" where
  "tru_WriteTo resolve data addri tru =
     (case addri of
        AddrString v \<Rightarrow>
          (case resolve v of
             None \<Rightarrow> (Inl ErrWrongAddress, tru)
           | Some a \<Rightarrow> (Inr (Some a), tell [EvUdp a data] tru))
      | AddrUDP a \<Rightarrow> (Inr (Some a), tell [EvUdp a data] tru)
      | AddrOther \<Rightarrow> (Inr None, tru))"

definition WriteToPunch ::
  "(string \<Rightarrow> string option) \<Rightarrow> time \<Rightarrow> bytes \<Rightarrow> addr_arg \<Rightarrow> tru \<Rightarrow> (go_error + string option) \<times> tru" where
  "WriteToPunch resolve now data addri tru =
     tru_WriteTo resolve (marshalBinary (set_data data (set_status statusPunch (newPacket now)))) addri tru"

text \<open>The public \<open>WriteTo\<close> of a channel of the connector.\<close>

definition tru_channel_WriteTo ::
  "crypto \<Rightarrow> (nat \<Rightarrow> wenv) \<Rightarrow> nat \<Rightarrow> bytes \<Rightarrow> delivery_arg list \<Rightarrow> tru \<Rightarrow> (u32 \<times> go_error option) \<times> tru" where
  "tru_channel_WriteTo L envs r data delivery tru =
     (let (res, ch, out) = channel_WriteTo L envs (get_ch tru r) data delivery
      in (res, emit r out (put_ch r ch tru)))"

subsection \<open>New, setters and Close\<close>

abbreviation startSendDelay :: int where "startSendDelay \<equiv> 15"

text \<open>\<open>New\<close>'s parameters by dynamic type; those of the logger are no part of this state.\<close>

datatype param =
    PReader "nat option"
  | PConnect "nat option"
  | PPunch "nat option"
  | PLogger
  | PLevel string
  | PFilter "string list"
  | PHotkey bool
  | PStat bool
  | PPrivateKey
  | PMaxDataLen int
  | POther

definition tru_zero :: tru where
  "tru_zero =
     \<lparr>t_heap = [], t_channels = [], t_reader = None, t_punchcb = None, t_connectcb = None,
      t_readerCh = [], t_senderCh = [], t_connects = [], t_sendDelay = 0, t_statMsgs = sl_empty,
      t_privateKey = None, t_maxDataLen = 0, t_listening = False, t_start = 0,
      t_statTimer = NoTimer, t_hotkey = False, t_events = []\<rparr>"

definition StatisticPrint :: "time \<Rightarrow> tru \<Rightarrow> tru" where
  "StatisticPrint now tru = tru\<lparr>t_statTimer := Armed (now + 500 * millisecond)\<rparr>"

definition StatisticPrintStop :: "tru \<Rightarrow> tru" where
  "StatisticPrintStop tru = (if t_statTimer tru \<noteq> NoTimer then tru\<lparr>t_statTimer := NoTimer\<rparr> else tru)"

definition StatisticPrintRunning :: "tru \<Rightarrow> bool" where
  "StatisticPrintRunning tru \<longleftrightarrow> t_statTimer tru \<noteq> NoTimer"

definition StatisticMinilog :: "tru \<Rightarrow> bool \<times> tru" where
  "StatisticMinilog tru = (let (b, l) = sl_showSwap (t_statMsgs tru) in (b, tru\<lparr>t_statMsgs := l\<rparr>))"

fun parse_params :: "time \<Rightarrow> param list \<Rightarrow> tru \<Rightarrow> go_error option \<times> tru" where
  "parse_params now [] tru = (None, tru)"
| "parse_params now (p # ps) tru =
     (case p of
        PReader f \<Rightarrow> parse_params now ps (tru\<lparr>t_reader := f\<rparr>)
      | PConnect f \<Rightarrow> parse_params now ps (tru\<lparr>t_connectcb := f\<rparr>)
      | PPunch f \<Rightarrow> parse_params now ps (tru\<lparr>t_punchcb := f\<rparr>)
      | PHotkey v \<Rightarrow> parse_params now ps (if v then tru\<lparr>t_hotkey := True\<rparr> else tru)
      | PStat v \<Rightarrow> parse_params now ps (if v then StatisticPrint now tru else tru)
      | PMaxDataLen v \<Rightarrow> parse_params now ps (tru\<lparr>t_maxDataLen := v\<rparr>)
      | POther \<Rightarrow> (Some ErrWrongParameter, tru)
      | _ \<Rightarrow> parse_params now ps tru)"

text \<open>\<open>listen\<close> is whether the UDP port could be opened.\<close>

definition New :: "tenv \<Rightarrow> bool \<Rightarrow> param list \<Rightarrow> go_error option \<times> tru" where
  "New env listen params =
     (case parse_params (te_now env) params (tru_zero\<lparr>t_start := te_now env, t_sendDelay := startSendDelay\<rparr>) of
        (Some e, tru) \<Rightarrow> (Some e, tru)
      | (None, tru) \<Rightarrow>
          if \<not> listen then (Some ErrWrongAddress, tru)
          else (case te_key env of
                  None \<Rightarrow> (Some ErrCrypt, tru)
                | Some k \<Rightarrow> (None, tru\<lparr>t_privateKey := Some k, t_listening := True\<rparr>)))"

definition SetMaxDataLen :: "int \<Rightarrow> tru \<Rightarrow> tru" where
  "SetMaxDataLen m tru = (if m < maxDataLen then tru\<lparr>t_maxDataLen := m\<rparr> else tru)"

definition SetSendDelay :: "int \<Rightarrow> tru \<Rightarrow> tru" where
  "SetSendDelay d tru = tru\<lparr>t_sendDelay := d\<rparr>"

definition SetPunchCb :: "nat option \<Rightarrow> tru \<Rightarrow> tru" where
  "SetPunchCb f tru = tru\<lparr>t_punchcb := f\<rparr>"

text \<open>
  \<open>ForEachChannel\<close> takes the keys first and looks each up again, without the lock, at its turn; a
  channel that is gone by then is a nil pointer.  The keys come in any order; the function takes the
  one of the map.
\<close>

definition each_channel :: "(nat \<Rightarrow> tru \<Rightarrow> tru) \<Rightarrow> string \<Rightarrow> tru \<Rightarrow> tru" where
  "each_channel f a tru = (case getChannel a tru of None \<Rightarrow> tell [EvPanic] tru | Some r \<Rightarrow> f r tru)"

definition ForEachChannel :: "(nat \<Rightarrow> tru \<Rightarrow> tru) \<Rightarrow> tru \<Rightarrow> tru" where
  "ForEachChannel f tru = fold (each_channel f) (map fst (t_channels tru)) tru"

text \<open>Closing the stop channel a second time panics.\<close>

definition stopListen :: "tru \<Rightarrow> tru" where
  "stopListen tru = (if t_listening tru then tru\<lparr>t_listening := False\<rparr> else tell [EvPanic] tru)"

text \<open>
  \<open>Close\<close> tells the reader, closes the channels one after the other, and stops the listener.  Here it
  is undisturbed; what other goroutines do between its parts, and between the turns of its loop, is
  in \<open>System\<close>.
\<close>

definition close_begin :: "tru \<Rightarrow> tru" where
  "close_begin tru =
     (case t_reader tru of None \<Rightarrow> tru | Some f \<Rightarrow> tell [EvReader f None None (Some ErrTruClosed)] tru)"

definition close_end :: "tru \<Rightarrow> tru" where
  "close_end tru = StatisticPrintStop (stopListen tru)"

definition tru_Close :: "crypto \<Rightarrow> tenv \<Rightarrow> tru \<Rightarrow> tru" where
  "tru_Close L env tru = close_end (ForEachChannel (channel_Close L env) (close_begin tru))"

end
