(* ===== verification/Delivery.thy ===== *)
theory Delivery
  imports Tru
begin

section \<open>From one channel to the other\<close>

text \<open>
  How the pieces make a reliable ordered stream: what \<open>writeTo\<close> does on each of its branches,
  the receive path as a refinement of a specification on natural numbers (the packets that
  arrived so far; the expected one is the least that did not), and the two ends put together
  over a network that loses, repeats and reorders datagrams.
\<close>

subsection \<open>writeTo, branch by branch\<close>

lemma writeToDelay_other [simp]: "status \<noteq> statusData \<Longrightarrow> writeToDelay env status ch = (0, ch)"
  by (simp add: writeToDelay_def)

lemma writeToDelay_frame [simp, frame_simps]:
  "c_id (snd (writeToDelay env s ch)) = c_id ch"
  "c_crypt (snd (writeToDelay env s ch)) = c_crypt ch"
  "c_sendQueue (snd (writeToDelay env s ch)) = c_sendQueue ch"
  "c_recvQueue (snd (writeToDelay env s ch)) = c_recvQueue ch"
  "c_combine (snd (writeToDelay env s ch)) = c_combine ch"
  "c_expectedID (snd (writeToDelay env s ch)) = c_expectedID ch"
  "c_maxDataLen (snd (writeToDelay env s ch)) = c_maxDataLen ch"
  "c_addr (snd (writeToDelay env s ch)) = c_addr ch"
  "c_serverMode (snd (writeToDelay env s ch)) = c_serverMode ch"
  "st_destroyed (c_stat (snd (writeToDelay env s ch))) = st_destroyed (c_stat ch)"
  "getTripTime (snd (writeToDelay env s ch)) = getTripTime ch"
  by (auto simp: writeToDelay_def getTripTime_def Let_def stat_setSendDelay_def)

text \<open>A control packet passes the channel by: only the output tells that it was written.\<close>

definition control_packet :: "wenv \<Rightarrow> u32 \<Rightarrow> u8 \<Rightarrow> packet" where
  "control_packet env i stat = set_data [] (set_status stat (set_id i (newPacket (we_sent env))))"

lemma writeTo_control:
  assumes "stat AND NOT statusSplit = stat" "stat \<noteq> statusData" "stat \<noteq> statusDisconnect"
  shows "snd (writeTo L env ch [] stat [] ids) =
     (ch, if st_destroyed (c_stat ch) then []
          else [OSend (control_packet env (case ids of [] \<Rightarrow> 0 | j # _ \<Rightarrow> j) stat)])"
  using assms by (simp add: writeTo_def writeTo_packet_def control_packet_def Let_def)

lemma writeToAck_eq:
  "snd (writeToAck L env ch pac) =
     (ch, if st_destroyed (c_stat ch) then [] else [OSend (control_packet env (p_id pac) statusAck)])"
  by (simp add: writeToAck_def writeTo_control)

lemma writeToPong_eq:
  "snd (writeToPong L env ch) =
     (ch, if st_destroyed (c_stat ch) then [] else [OSend (control_packet env 0 statusPong)])"
  by (simp add: writeToPong_def writeTo_control)

lemma writeToPing_eq:
  "snd (writeToPing L env ch) =
     (ch, if st_destroyed (c_stat ch) then [] else [OSend (control_packet env 0 statusPing)])"
  by (simp add: writeToPing_def writeTo_control)

lemma writeToDisconnect_eq:
  "snd (writeToDisconnect L env ch) =
     (ch, if st_destroyed (c_stat ch) then [] else [OUdp (marshalBinary (control_packet env 0 statusDisconnect))])"
  by (simp add: writeToDisconnect_def writeTo_def writeTo_packet_def control_packet_def Let_def)

lemmas writeTo_controls = writeToAck_eq writeToPong_eq writeToPing_eq writeToDisconnect_eq

subsection \<open>The reader's closure\<close>

fun reads :: "out list \<Rightarrow> packet list" where
  "reads [] = []"
| "reads (ORead p # os) = p # reads os"
| "reads (_ # os) = reads os"

lemma reads_append [simp]: "reads (xs @ ys) = reads xs @ reads ys"
  by (induction xs rule: reads.induct) auto

lemma reads_map_ORead [simp]: "reads (map ORead ps) = ps"
  by (induction ps) auto

lemma reads_map_OSend [simp]: "reads (map OSend ps) = []"
  by (induction ps) auto

lemma sendToReader_combine:
  assumes "combine_ok (c_combine ch)"
  shows "\<exists>ch'. sendToReader now pac (ch, out) = (ch', out @ map ORead (fst (combine_all [pac] (c_combine ch)))) \<and>
     c_combine ch' = snd (combine_all [pac] (c_combine ch)) \<and>
     c_expectedID ch' = next_id (c_expectedID ch) \<and>
     c_recvQueue ch' = c_recvQueue ch \<and> c_crypt ch' = c_crypt ch \<and>
     st_destroyed (c_stat ch') = st_destroyed (c_stat ch)"
proof -
  obtain r c where "combine_packet pac (c_combine ch) = Inr (r, c)"
    using combine_no_panic [OF assms] by fast
  then show ?thesis
    by (auto simp: sendToReader_def newExpectedID_def Let_def split: option.split)
qed

lemma combine_all_Cons:
  "combine_ok c \<Longrightarrow> combine_all (p # ps) c =
     (fst (combine_all [p] c) @ fst (combine_all ps (snd (combine_all [p] c))),
      snd (combine_all ps (snd (combine_all [p] c))))"
  using combine_all_append [of c "[p]" ps] by (simp add: split_def Let_def)

lemma fold_sendToReader:
  assumes "combine_ok (c_combine ch)"
  shows "\<exists>ch'. fold (sendToReader now) ps (ch, out) = (ch', out @ map ORead (fst (combine_all ps (c_combine ch)))) \<and>
     c_combine ch' = snd (combine_all ps (c_combine ch)) \<and>
     c_expectedID ch' = (next_id ^^ length ps) (c_expectedID ch) \<and>
     c_recvQueue ch' = c_recvQueue ch \<and> c_crypt ch' = c_crypt ch \<and>
     st_destroyed (c_stat ch') = st_destroyed (c_stat ch)"
  using assms
proof (induction ps arbitrary: ch out)
  case (Cons p ps)
  obtain ch1 where ch1: "sendToReader now p (ch, out) = (ch1, out @ map ORead (fst (combine_all [p] (c_combine ch))))"
    "c_combine ch1 = snd (combine_all [p] (c_combine ch))" "c_expectedID ch1 = next_id (c_expectedID ch)"
    "c_recvQueue ch1 = c_recvQueue ch" "c_crypt ch1 = c_crypt ch"
    "st_destroyed (c_stat ch1) = st_destroyed (c_stat ch)"
    using sendToReader_combine [OF Cons.prems] by blast
  have "combine_ok (c_combine ch1)"
    unfolding ch1 by (rule combine_all_ok [OF Cons.prems])
  then obtain ch' where ch': "fold (sendToReader now) ps (ch1, out @ map ORead (fst (combine_all [p] (c_combine ch)))) =
      (ch', (out @ map ORead (fst (combine_all [p] (c_combine ch)))) @ map ORead (fst (combine_all ps (c_combine ch1))))"
    "c_combine ch' = snd (combine_all ps (c_combine ch1))"
    "c_expectedID ch' = (next_id ^^ length ps) (c_expectedID ch1)"
    "c_recvQueue ch' = c_recvQueue ch1" "c_crypt ch' = c_crypt ch1"
    "st_destroyed (c_stat ch') = st_destroyed (c_stat ch1)"
    using Cons.IH by blast
  note split = combine_all_Cons [OF Cons.prems, of p ps]
  show ?case
  proof (intro exI conjI)
    show "fold (sendToReader now) (p # ps) (ch, out) =
        (ch', out @ map ORead (fst (combine_all (p # ps) (c_combine ch))))"
      using ch1(1,2) ch'(1) by (simp only: split fst_conv snd_conv fold_Cons comp_apply map_append append_assoc)
    show "c_combine ch' = snd (combine_all (p # ps) (c_combine ch))"
      using ch1(2) ch'(2) by (simp only: split snd_conv)
    show "c_expectedID ch' = (next_id ^^ length (p # ps)) (c_expectedID ch)"
      using ch1(3) ch'(3) by (simp add: funpow_swap1)
  qed (simp_all add: ch1 ch')
qed simp

subsection \<open>The receive path refines the set of arrived packets\<close>

text \<open>The least number that is not in a list of arrivals.\<close>

definition next_missing :: "nat list \<Rightarrow> nat" where
  "next_missing ns = length (takeWhile (\<lambda>m. m \<in> set ns) [0..<length ns])"

lemma next_missing_eqI:
  assumes "{..<e} \<subseteq> set ns" "e \<notin> set ns"
  shows "next_missing ns = e"
proof -
  have "e \<le> length ns"
    using card_mono [OF finite_set assms(1)] card_length [of ns] by simp
  then have "[0..<length ns] = [0..<e] @ [e..<length ns]"
    using upt_add_eq_append [of 0 e "length ns - e"] by simp
  moreover have "takeWhile (\<lambda>m. m \<in> set ns) [e..<length ns] = []"
    using assms(2) by (cases "e < length ns") (simp_all add: upt_conv_Cons)
  moreover have "takeWhile (\<lambda>m. m \<in> set ns) ([0..<e] @ [e..<length ns]) =
      [0..<e] @ takeWhile (\<lambda>m. m \<in> set ns) [e..<length ns]"
    using assms(1) by (intro takeWhile_append2) auto
  ultimately show ?thesis
    by (simp add: next_missing_def)
qed

text \<open>
  A channel that has received exactly the packets of \<open>A\<close> of a stream \<open>w\<close>: \<open>hist\<close> is what it has
  passed on, and the rest of \<open>A\<close> waits in the receive queue.
\<close>

definition received ::
  "(nat \<Rightarrow> u32 \<times> u8 \<times> bytes) \<Rightarrow> nat set \<Rightarrow> packet list \<Rightarrow> channel \<Rightarrow> bool" where
  "received w A hist ch \<longleftrightarrow>
     (let e = length hist in
      {..<e} \<subseteq> A \<and> e \<notin> A \<and> finite A \<and> A \<subseteq> {..<e + 2 ^ 19} \<and>
      map wire_of hist = map w [0..<e] \<and>
      c_expectedID ch = rep_id e \<and>
      rq_holds w rep_id (A - {..<e}) (c_recvQueue ch) \<and>
      c_combine ch = snd (combine_all hist combine_clear))"

lemma received_next: "received w (set ns) hist ch \<Longrightarrow> next_missing ns = length hist"
  by (intro next_missing_eqI) (auto simp: received_def Let_def)

lemma received_combine_ok: "received w A hist ch \<Longrightarrow> combine_ok (c_combine ch)"
  by (simp add: received_def Let_def combine_all_ok)

lemma received_init:
  "c_expectedID ch = 0 \<Longrightarrow> c_recvQueue ch = rq_init \<Longrightarrow> c_combine ch = combine_clear \<Longrightarrow>
   received w {} [] ch"
  by (simp add: received_def rep_id_0)

text \<open>Fields the relation does not look at may change.\<close>

lemma received_cong:
  "received w A hist ch \<Longrightarrow> c_expectedID ch' = c_expectedID ch \<Longrightarrow>
   c_recvQueue ch' = c_recvQueue ch \<Longrightarrow> c_combine ch' = c_combine ch \<Longrightarrow> received w A hist ch'"
  by (simp add: received_def)

lemma sendToReader_expected:
  "c_expectedID (fst (sendToReader now p st)) = next_id (c_expectedID (fst st))"
  by (simp add: sendToReader_def newExpectedID_def Let_def split: prod.split sum.split option.split)

text \<open>An arrival below the expected packet, and one above it.\<close>

lemma accept_data_old:
  assumes rel: "received w A hist ch" and n: "p_id pac = rep_id n" "n < length hist" "length hist \<le> n + 2 ^ 19"
  shows "accept_data now pac ch = (ch\<lparr>c_stat := stat_setDrop (c_stat ch)\<rparr>, [])"
    and "insert n A = A"
  using rel n ids.dist_pos_iff(2) [of "length hist" n]
  by (auto simp: received_def Let_def accept_data_def)

lemma accept_data_ahead:
  assumes rel: "received w A hist ch" and pac: "wire_of pac = w n" "p_id pac = rep_id n"
    and n: "length hist < n" "n < length hist + 2 ^ 19"
  shows "\<exists>ch'. accept_data now pac ch = (ch', []) \<and> received w (insert n A) hist ch' \<and>
     c_crypt ch' = c_crypt ch \<and> st_destroyed (c_stat ch') = st_destroyed (c_stat ch)"
proof -
  let ?e = "length hist" and ?q = "c_recvQueue ch"
  let ?B = "A - {..<length hist}"
  have holds: "rq_holds w rep_id ?B ?q" and A: "A \<subseteq> {..<?e + 2 ^ 19}" and e: "c_expectedID ch = rep_id ?e"
    using rel by (simp_all add: received_def Let_def)
  have dist: "0 < distance (rep_id ?e) (rep_id n)"
    using n ids.dist_pos_iff(1) [of ?e n] by simp
  show ?thesis
  proof (cases "n \<in> A")
    case True
    then obtain p where "rq_get ?q (rep_id n) = Some p"
      using rq_holds_get [OF holds, of n] n by auto
    then have "accept_data now pac ch = (ch\<lparr>c_stat := stat_setDrop (c_stat ch)\<rparr>, [])"
      using dist pac(2) e by (simp add: accept_data_def)
    moreover have "insert n A = A" using True by auto
    ultimately show ?thesis
      using received_cong [OF rel] by auto
  next
    case False
    have B: "insert n ?B \<subseteq> {?e..<?e + 2 ^ 19}" using n A by auto
    have "rep_id n \<notin> rep_id ` ?B"
    proof
      assume "rep_id n \<in> rep_id ` ?B"
      then obtain m where m: "m \<in> ?B" "rep_id n = rep_id m" by blast
      with B have "n = m" by (intro ids.rep_inj_window [of n m ?e]) blast+
      with m False show False by simp
    qed
    then have "rq_get ?q (rep_id n) = None"
      using holds by (simp add: rq_holds_def)
    then have acc: "accept_data now pac ch = (ch\<lparr>c_recvQueue := rq_add pac ?q\<rparr>, [])"
      using dist pac(2) e by (simp add: accept_data_def)
    have "rq_holds w rep_id (insert n ?B) (rq_add pac ?q)"
      by (rule ids.holds_add [OF holds B pac(2,1)])
    moreover have "insert n ?B = insert n A - {..<?e}" using n by auto
    ultimately have "received w (insert n A) hist (ch\<lparr>c_recvQueue := rq_add pac ?q\<rparr>)"
      using rel n by (auto simp: received_def Let_def)
    with acc show ?thesis by auto
  qed
qed

text \<open>The expected packet itself, which releases what waited behind it.\<close>

lemma received_ahead:
  assumes "received w A hist ch"
  shows "finite (A - {..<length hist})" "A - {..<length hist} \<subseteq> {Suc (length hist)..<Suc (length hist) + 2 ^ 19}"
proof -
  let ?e = "length hist"
  have relD: "?e \<notin> A" "finite A" "A \<subseteq> {..<?e + 2 ^ 19}" using assms by (simp_all add: received_def Let_def)
  then show "finite (A - {..<?e})" by simp
  show "A - {..<?e} \<subseteq> {Suc ?e..<Suc ?e + 2 ^ 19}"
  proof
    fix x assume x: "x \<in> A - {..<?e}"
    with relD(1) have "x \<noteq> ?e" by auto
    moreover have "x < ?e + 2 ^ 19" using x relD(3) by blast
    ultimately show "x \<in> {Suc ?e..<Suc ?e + 2 ^ 19}" using x by simp
  qed
qed

text \<open>The expected packet and the ones drained after it are added to the history.\<close>

lemma received_extend:
  assumes rel: "received w A hist ch" and pac: "wire_of pac = w (length hist)"
    and ps: "map wire_of ps = map w [Suc (length hist)..<Suc (length hist) + length ps]"
      "{Suc (length hist)..<Suc (length hist) + length ps} \<subseteq> A" "Suc (length hist) + length ps \<notin> A - {..<length hist}"
    and q: "rq_holds w rep_id (A - {..<length hist} - {Suc (length hist)..<Suc (length hist) + length ps}) (c_recvQueue ch')"
    and ch': "c_expectedID ch' = rep_id (Suc (length hist) + length ps)" "c_combine ch' = snd (combine_all (hist @ pac # ps) combine_clear)"
  shows "received w (insert (length hist) A) (hist @ pac # ps) ch'"
proof -
  let ?e = "length hist"
  have relD: "{..<?e} \<subseteq> A" "?e \<notin> A" "finite A" "A \<subseteq> {..<?e + 2 ^ 19}" "map wire_of hist = map w [0..<?e]"
    using rel by (simp_all add: received_def Let_def)
  have "map wire_of (hist @ pac # ps) = map w [0..<?e] @ map w (?e # [Suc ?e..<Suc ?e + length ps])"
    using relD(5) pac ps(1) by simp
  also have "\<dots> = map w [0..<length (hist @ pac # ps)]"
    using upt_conv_Cons [of ?e "?e + length (pac # ps)"] upt_add_eq_append [of 0 ?e "length (pac # ps)"]
    by simp
  finally have wires: "map wire_of (hist @ pac # ps) = map w [0..<length (hist @ pac # ps)]" .
  have set1: "{..<length (hist @ pac # ps)} = insert ?e {..<?e} \<union> {Suc ?e..<Suc ?e + length ps}"
    by auto
  have set2: "insert ?e A - {..<length (hist @ pac # ps)} = A - {..<?e} - {Suc ?e..<Suc ?e + length ps}"
    unfolding set1 using relD(2) by auto
  show ?thesis
    unfolding received_def Let_def set2
    using relD ps(2,3) q set1 wires ch' by auto
qed

lemma accept_data_expected:
  assumes rel: "received w A hist ch" and pac: "wire_of pac = w (length hist)" "p_id pac = rep_id (length hist)"
  shows "\<exists>hist' ch'. accept_data now pac ch = (ch', map ORead (fst (combine_all hist' (c_combine ch)))) \<and>
     received w (insert (length hist) A) (hist @ hist') ch' \<and>
     c_crypt ch' = c_crypt ch \<and> st_destroyed (c_stat ch') = st_destroyed (c_stat ch)"
proof -
  let ?e = "length hist" and ?q = "c_recvQueue ch"
  let ?B = "A - {..<?e}"
  note ok = received_combine_ok [OF rel]
  have relD: "{..<?e} \<subseteq> A" "?e \<notin> A" "finite A" "A \<subseteq> {..<?e + 2 ^ 19}" "map wire_of hist = map w [0..<?e]"
    "c_expectedID ch = rep_id ?e" "rq_holds w rep_id ?B ?q" "c_combine ch = snd (combine_all hist combine_clear)"
    using rel by (simp_all add: received_def Let_def)
  obtain ch1 where ch1: "sendToReader now pac (ch, []) = (ch1, map ORead (fst (combine_all [pac] (c_combine ch))))"
    "c_combine ch1 = snd (combine_all [pac] (c_combine ch))" "c_expectedID ch1 = rep_id (Suc ?e)"
    "c_recvQueue ch1 = ?q" "c_crypt ch1 = c_crypt ch" "st_destroyed (c_stat ch1) = st_destroyed (c_stat ch)"
    using sendToReader_combine [OF ok, of now pac "[]"] by (auto simp: relD(6) ids.nxt_rep)
  have ok1: "combine_ok (c_combine ch1)"
    unfolding ch1(2) by (rule combine_all_ok [OF ok])
  let ?st = "(ch1, map ORead (fst (combine_all [pac] (c_combine ch))))"
  note B = received_ahead [OF rel]
  have exp: "c_expectedID (fst ?st) = rep_id (Suc ?e)"
    by (simp add: ch1(3))
  have step: "c_expectedID (fst st) = rep_id n \<Longrightarrow> c_expectedID (fst (sendToReader now p st)) = rep_id (Suc n)"
    for p st n
    by (simp add: sendToReader_expected ids.nxt_rep)
  obtain ps q' where ps: "map wire_of ps = map w [Suc ?e..<Suc ?e + length ps]"
    "{Suc ?e..<Suc ?e + length ps} \<subseteq> ?B" "Suc ?e + length ps \<notin> ?B"
    "process (\<lambda>st. c_expectedID (fst st)) (sendToReader now) ?q ?st = (q', fold (sendToReader now) ps ?st)"
    "rq_holds w rep_id (?B - {Suc ?e..<Suc ?e + length ps}) q'"
    using ids.process_drain [where expected = "\<lambda>st. c_expectedID (fst st)" and send = "sendToReader now",
        OF B relD(7) exp step] by blast
  obtain ch2 where ch2: "fold (sendToReader now) ps ?st =
      (ch2, map ORead (fst (combine_all [pac] (c_combine ch))) @ map ORead (fst (combine_all ps (c_combine ch1))))"
    "c_combine ch2 = snd (combine_all ps (c_combine ch1))"
    "c_expectedID ch2 = (next_id ^^ length ps) (c_expectedID ch1)"
    "c_crypt ch2 = c_crypt ch1" "st_destroyed (c_stat ch2) = st_destroyed (c_stat ch1)"
    using fold_sendToReader [OF ok1, of now ps] by blast
  note combine1 = combine_all_Cons [OF ok, of pac ps]
  have out: "accept_data now pac ch =
      (ch2\<lparr>c_recvQueue := q'\<rparr>, map ORead (fst (combine_all (pac # ps) (c_combine ch))))"
    unfolding accept_data_def
    using ps(4) ch2(1) ch1(1,2) relD(6) pac(2)
    by (simp add: distance_def combine1 del: combine_all.simps)
  have comb: "c_combine ch2 = snd (combine_all (hist @ pac # ps) combine_clear)"
    using ch2(2) ch1(2) relD(8) combine_all_append [of combine_clear hist "pac # ps"] combine1
    by (simp add: Let_def split_def del: combine_all.simps)
  have "received w (insert ?e A) (hist @ pac # ps) (ch2\<lparr>c_recvQueue := q'\<rparr>)"
  proof (rule received_extend [OF rel pac(1) ps(1) _ ps(3)])
    show "{Suc ?e..<Suc ?e + length ps} \<subseteq> A" using ps(2) by blast
  qed (use ps(5) comb ch2(3) ch1(3) in \<open>simp_all add: ids.nxt_funpow\<close>)
  with out ch1(5,6) ch2(4,5) show ?thesis
    by (intro exI [of _ "pac # ps"] exI [of _ "ch2\<lparr>c_recvQueue := q'\<rparr>"]) simp
qed

lemma accept_data_received:
  assumes rel: "received w A hist ch" and pac: "wire_of pac = w n" "p_id pac = rep_id n"
    and window: "length hist \<le> n + 2 ^ 19" "n < length hist + 2 ^ 19"
  shows "\<exists>hist' ch'. accept_data now pac ch = (ch', map ORead (fst (combine_all hist' (c_combine ch)))) \<and>
     received w (insert n A) (hist @ hist') ch' \<and>
     c_crypt ch' = c_crypt ch \<and> st_destroyed (c_stat ch') = st_destroyed (c_stat ch)"
proof -
  consider "n < length hist" | "n = length hist" | "length hist < n" by linarith
  then show ?thesis
  proof cases
    case 1
    then show ?thesis
      using accept_data_old [OF rel pac(2) 1 window(1)] received_cong [OF rel]
      by (intro exI [of _ "[]"]) simp
  next
    case 2
    then show ?thesis
      using accept_data_expected [OF rel] pac by simp
  next
    case 3
    then show ?thesis
      using accept_data_ahead [OF rel pac 3 window(2), of now]
      by (intro exI [of _ "[]"]) simp
  qed
qed

subsection \<open>Serving the datagrams of a stream\<close>

lemma serve_channel_data:
  assumes "p_status pac = statusData \<or> p_status pac = statusDataNext"
    and "decryptPacketData L (c_crypt ch) (p_id pac) (p_data pac) = Inr data"
    and "accept_data (we_now env) (set_data data pac) ch = (ch', out)"
  shows "serve_channel L env pac ch =
     (ch'\<lparr>c_stat := stat_setLastActivity (we_now env) (c_stat ch')\<rparr>,
      snd (snd (writeToAck L env ch pac)) @ out)"
proof -
  have "writeToAck L env ch (set_data data pac) = writeToAck L env ch pac"
    by (simp add: writeToAck_def set_data_def)
  moreover have "fst (snd (writeToAck L env ch pac)) = ch"
    by (simp add: writeToAck_eq)
  ultimately have "serve_data L env pac ch = (ch', snd (snd (writeToAck L env ch pac)) @ out, True)"
    using assms(2,3) by (cases "writeToAck L env ch pac") (auto simp: serve_data_def)
  then show ?thesis
    using assms(1) by (auto simp: serve_channel_def)
qed

text \<open>Every data packet that can be decrypted is acknowledged, also a duplicate or one ahead of its turn.\<close>

lemma data_acknowledged:
  assumes "\<not> st_destroyed (c_stat ch)" "p_status pac = statusData \<or> p_status pac = statusDataNext"
    and "decryptPacketData L (c_crypt ch) (p_id pac) (p_data pac) = Inr data"
  shows "OSend (control_packet env (p_id pac) statusAck) \<in> set (snd (serve_channel L env pac ch))"
proof -
  obtain ch' out where "accept_data (we_now env) (set_data data pac) ch = (ch', out)" by fastforce
  from serve_channel_data [OF assms(2,3) this] show ?thesis
    using assms(1) by (simp add: writeToAck_eq)
qed

text \<open>
  A packet carries number \<open>n\<close> of the stream \<open>w\<close> under the session of \<open>c\<close>: its identifier is the
  \<open>n\<close>-th, and it decrypts to the stream's data.
\<close>

definition carries :: "crypto \<Rightarrow> crypt \<Rightarrow> (nat \<Rightarrow> u32 \<times> u8 \<times> bytes) \<Rightarrow> nat \<Rightarrow> packet \<Rightarrow> bool" where
  "carries L c w n pac \<longleftrightarrow> p_id pac = rep_id n \<and>
     (p_status pac = statusData \<or> p_status pac = statusDataNext) \<and>
     (\<exists>data. decryptPacketData L c (p_id pac) (p_data pac) = Inr data \<and>
        w n = (p_id pac, p_status pac, data))"

lemma serve_channel_received:
  assumes rel: "received w A hist ch" and pac: "carries L (c_crypt ch) w n pac"
    and window: "length hist \<le> n + 2 ^ 19" "n < length hist + 2 ^ 19"
  shows "\<exists>hist' ch' out. serve_channel L env pac ch = (ch', out) \<and>
     reads out = fst (combine_all hist' (c_combine ch)) \<and>
     received w (insert n A) (hist @ hist') ch' \<and> c_crypt ch' = c_crypt ch"
proof -
  obtain data where data: "decryptPacketData L (c_crypt ch) (p_id pac) (p_data pac) = Inr data"
    "w n = (p_id pac, p_status pac, data)"
    using pac by (auto simp: carries_def)
  have "wire_of (set_data data pac) = w n" "p_id (set_data data pac) = rep_id n"
    using pac data(2) by (simp_all add: wire_of_def set_data_def carries_def)
  from accept_data_received [OF rel this window, of "we_now env"] obtain hist' ch' where
    acc: "accept_data (we_now env) (set_data data pac) ch = (ch', map ORead (fst (combine_all hist' (c_combine ch))))"
    and ch': "received w (insert n A) (hist @ hist') ch'" "c_crypt ch' = c_crypt ch"
    by blast
  have status: "p_status pac = statusData \<or> p_status pac = statusDataNext"
    using pac by (simp add: carries_def)
  have ack: "reads (snd (snd (writeToAck L env ch pac))) = []"
    by (simp add: writeToAck_eq)
  have "received w (insert n A) (hist @ hist') (ch'\<lparr>c_stat := stat_setLastActivity (we_now env) (c_stat ch')\<rparr>)"
    by (rule received_cong [OF ch'(1)]) simp_all
  then show ?thesis
    using serve_channel_data [OF status data(1) acc] ch'(2) ack
    by (intro exI [of _ hist']) simp
qed

text \<open>A run over arriving packets, with everything it puts out.\<close>

fun serve_all :: "crypto \<Rightarrow> (wenv \<times> packet) list \<Rightarrow> channel \<Rightarrow> channel \<times> out list" where
  "serve_all L [] ch = (ch, [])"
| "serve_all L ((env, pac) # xs) ch =
     (let (ch, out) = serve_channel L env pac ch; (ch, out') = serve_all L xs ch in (ch, out @ out'))"

text \<open>
  What the wrapping identifiers need of the network: no arrival is half the identifier space or
  more away from the packet expected then.  It always holds while a connection carries at most
  \<open>2 ^ 19\<close> packets.
\<close>

fun window_ok :: "nat list \<Rightarrow> nat list \<Rightarrow> bool" where
  "window_ok seen [] \<longleftrightarrow> True"
| "window_ok seen (n # ns) \<longleftrightarrow>
     next_missing seen \<le> n + 2 ^ 19 \<and> n < next_missing seen + 2 ^ 19 \<and> window_ok (n # seen) ns"

lemma serve_all_received:
  assumes "received w (set seen) hist ch" "window_ok seen ns"
    and "list_all2 (\<lambda>n x. carries L (c_crypt ch) w n (snd x)) ns xs"
  shows "\<exists>hist' ch' out. serve_all L xs ch = (ch', out) \<and>
     reads out = fst (combine_all hist' (c_combine ch)) \<and>
     received w (set ns \<union> set seen) (hist @ hist') ch'"
  using assms
proof (induction ns arbitrary: seen hist ch xs)
  case Nil
  then show ?case by (intro exI [of _ "[]"]) simp
next
  case (Cons n ns)
  obtain env pac xs' where xs: "xs = (env, pac) # xs'" "carries L (c_crypt ch) w n pac"
    "list_all2 (\<lambda>n x. carries L (c_crypt ch) w n (snd x)) ns xs'"
    using Cons.prems(3) by (auto simp: list_all2_Cons1)
  have window: "length hist \<le> n + 2 ^ 19" "n < length hist + 2 ^ 19" "window_ok (n # seen) ns"
    using Cons.prems(2) received_next [OF Cons.prems(1)] by simp_all
  obtain h1 ch1 out1 where 1: "serve_channel L env pac ch = (ch1, out1)"
    "reads out1 = fst (combine_all h1 (c_combine ch))"
    "received w (set (n # seen)) (hist @ h1) ch1" "c_crypt ch1 = c_crypt ch"
    using serve_channel_received [OF Cons.prems(1) xs(2) window(1,2), of env] by auto
  obtain h2 ch2 out2 where 2: "serve_all L xs' ch1 = (ch2, out2)"
    "reads out2 = fst (combine_all h2 (c_combine ch1))"
    "received w (set ns \<union> set (n # seen)) ((hist @ h1) @ h2) ch2"
    using Cons.IH [OF 1(3) window(3), unfolded 1(4), OF xs(3)] by blast
  have comb: "c_combine ch = snd (combine_all hist combine_clear)"
    "c_combine ch1 = snd (combine_all (hist @ h1) combine_clear)"
    using Cons.prems(1) 1(3) by (simp_all add: received_def Let_def)
  have "c_combine ch1 = snd (combine_all h1 (c_combine ch))"
    using combine_all_append [of combine_clear hist h1] comb by (simp add: split_def Let_def)
  then have "fst (combine_all (h1 @ h2) (c_combine ch)) = reads (out1 @ out2)"
    using combine_all_append [OF received_combine_ok [OF Cons.prems(1)], of h1 h2] 1(2) 2(2)
    by (simp add: split_def Let_def)
  then show ?case
    using 1(1) 2(1,3) xs(1) by (intro exI [of _ "h1 @ h2"] exI [of _ ch2] exI [of _ "out1 @ out2"]) simp
qed

subsection \<open>What a sender queues\<close>

text \<open>
  \<open>pks\<close> are the packets that carry the fragments \<open>frs\<close> from number \<open>n\<close> on.
\<close>

definition sent_as :: "crypto \<Rightarrow> crypt \<Rightarrow> nat \<Rightarrow> (bytes \<times> u8) list \<Rightarrow> packet list \<Rightarrow> bool" where
  "sent_as L c n frs pks \<longleftrightarrow> length pks = length frs \<and>
     (\<forall>j<length frs. p_id (pks ! j) = rep_id (n + j) \<and>
        p_status (pks ! j) = statusData OR snd (frs ! j) \<and>
        decryptPacketData L c (rep_id (n + j)) (p_data (pks ! j)) = Inr (fst (frs ! j)))"

lemma sent_as_Nil [simp]: "sent_as L c n [] pks \<longleftrightarrow> pks = []"
  by (auto simp: sent_as_def)

lemma sent_as_append:
  assumes "sent_as L c n f p" "sent_as L c (n + length f) g q"
  shows "sent_as L c n (f @ g) (p @ q)"
  unfolding sent_as_def
proof (intro conjI allI impI)
  have len: "length p = length f" "length q = length g"
    using assms by (simp_all add: sent_as_def)
  then show "length (p @ q) = length (f @ g)" by simp
  fix j assume j: "j < length (f @ g)"
  have "p_id ((p @ q) ! j) = rep_id (n + j) \<and>
      p_status ((p @ q) ! j) = statusData OR snd ((f @ g) ! j) \<and>
      decryptPacketData L c (rep_id (n + j)) (p_data ((p @ q) ! j)) = Inr (fst ((f @ g) ! j))"
  proof (cases "j < length f")
    case True
    then show ?thesis using assms(1) len by (simp add: sent_as_def nth_append)
  next
    case False
    then have "j - length f < length g" "n + length f + (j - length f) = n + j"
      using j by auto
    then show ?thesis
      using assms(2) len False unfolding sent_as_def by (metis nth_append)
  qed
  then show "p_id ((p @ q) ! j) = rep_id (n + j)"
    "p_status ((p @ q) ! j) = statusData OR snd ((f @ g) ! j)"
    "decryptPacketData L c (rep_id (n + j)) (p_data ((p @ q) ! j)) = Inr (fst ((f @ g) ! j))"
    by simp_all
qed

lemma crypt_packet:
  assumes "crypto_laws L" "length nonce = nonceSize"
  shows "\<exists>ct. encryptPacketData L (Some nonce) k i data = Inr ct \<and> decryptPacketData L k i ct = Inr data \<and>
     length ct \<le> length data + 28"
proof -
  consider "length data \<le> 64" | "\<not> ison k" | "64 < length data" "ison k" by linarith
  then show ?thesis
  proof cases
    case 1
    have "hash_laws L" using assms(1) by (simp add: crypto_laws_def)
    from crypt_packet_short [OF this 1] show ?thesis by fastforce
  next
    case 2
    then show ?thesis using crypt_packet_off by fastforce
  next
    case 3
    then show ?thesis using crypt_packet_long [OF assms(1) 3(1) assms(2) 3(2)] by fastforce
  qed
qed

text \<open>The surroundings of a write: the nonce could be read.\<close>

definition env_ok :: "wenv \<Rightarrow> bool" where
  "env_ok env \<longleftrightarrow> (\<exists>nonce. we_nonce env = Some nonce \<and> length nonce = nonceSize)"

definition delivery_ok :: "delivery_arg list \<Rightarrow> bool" where
  "delivery_ok ds \<longleftrightarrow> DOther \<notin> set ds"

lemma parse_delivery_ok: "delivery_ok ds \<Longrightarrow> \<exists>r. parse_delivery f t ds = Inr r"
  by (induction f t ds rule: parse_delivery.induct) (auto simp: delivery_ok_def)

lemma parse_delivery_other: "\<not> delivery_ok ds \<Longrightarrow> parse_delivery f t ds = Inl ErrWrongDelivery"
  by (induction f t ds rule: parse_delivery.induct) (auto simp: delivery_ok_def)

lemma split_status:
  "sp = 0 \<or> sp = statusSplit \<Longrightarrow> (statusData OR sp) AND NOT statusSplit = statusData"
  by auto

lemma writeTo_packet_data:
  assumes "stat AND NOT statusSplit = statusData"
  shows "\<exists>pac ch' out. writeTo_packet env ch i ct stat f t = (ch', out) \<and>
     sq_queue (c_sendQueue ch') = sq_queue (c_sendQueue ch) @ [(sq_next (c_sendQueue ch), pac)] \<and>
     wire_of pac = (i, stat, ct) \<and> (out = [] \<or> out = [OSend pac]) \<and>
     (we_drop env \<le> 0 \<or> c_serverMode ch \<longrightarrow> out = [OSend pac]) \<and>
     c_id ch' = c_id ch \<and> c_crypt ch' = c_crypt ch \<and> c_maxDataLen ch' = c_maxDataLen ch \<and>
     c_serverMode ch' = c_serverMode ch \<and>
     st_destroyed (c_stat ch') = st_destroyed (c_stat ch)"
  using assms
  by (auto simp: writeTo_packet_def Let_def sq_add_def packet_setters)
    (simp_all add: wire_of_def setRetransmitTime_def packet_setRetransmitTime_def setDelivery_def
      setDeliveryTimeout_def split: option.split)

text \<open>One data packet: the next identifier, queued, and decryptable to what was written.\<close>

definition sender_frame :: "channel \<Rightarrow> channel \<Rightarrow> bool" where
  "sender_frame ch ch' \<longleftrightarrow> c_crypt ch' = c_crypt ch \<and> c_maxDataLen ch' = c_maxDataLen ch \<and>
     c_serverMode ch' = c_serverMode ch \<and> st_destroyed (c_stat ch') = st_destroyed (c_stat ch)"

lemma sender_frame_refl [simp]: "sender_frame ch ch"
  by (simp add: sender_frame_def)

lemma sender_frame_trans: "sender_frame a b \<Longrightarrow> sender_frame b c \<Longrightarrow> sender_frame a c"
  by (simp add: sender_frame_def)

lemma writeTo_data:
  assumes laws: "crypto_laws L" and env: "env_ok env" and live: "\<not> st_destroyed (c_stat ch)"
    and ds: "delivery_ok ds" and sp: "sp = 0 \<or> sp = statusSplit" and i: "c_id ch = rep_id n"
  shows "\<exists>ch' out pac. writeTo L env ch d (statusData OR sp) ds [] = ((rep_id n, None), ch', out) \<and>
     sq_items (c_sendQueue ch') = sq_items (c_sendQueue ch) @ [pac] \<and>
     sent_as L (c_crypt ch) n [(d, sp)] [pac] \<and> c_id ch' = rep_id (Suc n) \<and> sender_frame ch ch' \<and>
     (out = [] \<or> out = [OSend pac]) \<and> (we_drop env \<le> 0 \<or> c_serverMode ch \<longrightarrow> out = [OSend pac])"
proof -
  obtain f t where ft: "parse_delivery None DeliveryTimeout ds = Inr (f, t)"
    using parse_delivery_ok [OF ds] by fastforce
  obtain nonce where nonce: "we_nonce env = Some nonce" "length nonce = nonceSize"
    using env by (auto simp: env_ok_def)
  let ?ch1 = "snd (writeToDelay env statusData ch)"
  let ?ch2 = "?ch1\<lparr>c_id := next_id (c_id ?ch1)\<rparr>"
  obtain ct where ct: "encryptPacketData L (we_nonce env) (c_crypt ch) (rep_id n) d = Inr ct"
    "decryptPacketData L (c_crypt ch) (rep_id n) ct = Inr d"
    using crypt_packet [OF laws nonce(2), of "c_crypt ch" "rep_id n" d] nonce(1) by auto
  obtain pac ch' out where w: "writeTo_packet env ?ch2 (rep_id n) ct (statusData OR sp) f t = (ch', out)"
    "sq_queue (c_sendQueue ch') = sq_queue (c_sendQueue ?ch2) @ [(sq_next (c_sendQueue ?ch2), pac)]"
    "wire_of pac = (rep_id n, statusData OR sp, ct)" "out = [] \<or> out = [OSend pac]"
    "we_drop env \<le> 0 \<or> c_serverMode ?ch2 \<longrightarrow> out = [OSend pac]"
    "c_id ch' = c_id ?ch2" "c_crypt ch' = c_crypt ?ch2" "c_maxDataLen ch' = c_maxDataLen ?ch2"
    "c_serverMode ch' = c_serverMode ?ch2" "st_destroyed (c_stat ch') = st_destroyed (c_stat ?ch2)"
    using writeTo_packet_data [OF split_status [OF sp], of env ?ch2 "rep_id n" ct f t] by blast
  have "writeTo L env ch d (statusData OR sp) ds [] = ((rep_id n, None), ch', out)"
    using live ft i ct(1) w(1) split_status [OF sp]
    by (simp add: writeTo_def newID_def Let_def)
  moreover have "sent_as L (c_crypt ch) n [(d, sp)] [pac]"
    using w(3) ct(2) by (simp add: sent_as_def wire_of_def)
  ultimately show ?thesis
    using w(2,4-) i by (auto simp: sender_frame_def sq_items_def ids.nxt_rep)
qed

lemma write_all_fragments:
  assumes laws: "crypto_laws L" and envs: "\<And>k. env_ok (envs k)" and ds: "delivery_ok ds"
    and "\<not> st_destroyed (c_stat ch)" "c_id ch = rep_id n" "\<forall>x\<in>set frs. snd x = 0 \<or> snd x = statusSplit"
  shows "\<exists>ch' out k' pks. write_all (channel_writer L envs ds) frs (ch, o0, k) = (None, (ch', out, k')) \<and>
     sq_items (c_sendQueue ch') = sq_items (c_sendQueue ch) @ pks \<and>
     sent_as L (c_crypt ch) n frs pks \<and> c_id ch' = rep_id (n + length frs) \<and> sender_frame ch ch'"
  using assms(4-6)
proof (induction frs arbitrary: ch o0 k n)
  case Nil
  then show ?case by simp
next
  case (Cons x frs)
  obtain d sp where x: "x = (d, sp)" by (cases x)
  have sp: "sp = 0 \<or> sp = statusSplit" using Cons.prems(3) x by simp
  obtain ch1 out1 pac where 1: "writeTo L (envs k) ch d (statusData OR sp) ds [] = ((rep_id n, None), ch1, out1)"
    "sq_items (c_sendQueue ch1) = sq_items (c_sendQueue ch) @ [pac]"
    "sent_as L (c_crypt ch) n [(d, sp)] [pac]" "c_id ch1 = rep_id (Suc n)" "sender_frame ch ch1"
    using writeTo_data [OF laws envs Cons.prems(1) ds sp Cons.prems(2)] by blast
  have live: "\<not> st_destroyed (c_stat ch1)" and crypt: "c_crypt ch1 = c_crypt ch"
    using 1(5) Cons.prems(1) by (simp_all add: sender_frame_def)
  have frs: "\<forall>x\<in>set frs. snd x = 0 \<or> snd x = statusSplit"
    using Cons.prems(3) by simp
  obtain ch' out k' pks where 2:
    "write_all (channel_writer L envs ds) frs (ch1, o0 @ out1, Suc k) = (None, (ch', out, k'))"
    "sq_items (c_sendQueue ch') = sq_items (c_sendQueue ch1) @ pks"
    "sent_as L (c_crypt ch) (Suc n) frs pks" "c_id ch' = rep_id (Suc n + length frs)" "sender_frame ch1 ch'"
    using Cons.IH [OF live 1(4) frs, unfolded crypt] by blast
  have "sent_as L (c_crypt ch) n ([(d, sp)] @ frs) ([pac] @ pks)"
    using 1(3) 2(3) by (intro sent_as_append) simp_all
  moreover have "write_all (channel_writer L envs ds) (x # frs) (ch, o0, k) = (None, (ch', out, k'))"
    using 1(1) 2(1) x by (simp add: channel_writer_def)
  ultimately show ?case
    using 1(2) 2(2,4) x sender_frame_trans [OF 1(5) 2(5)]
    by (intro exI [of _ ch'] exI [of _ out] exI [of _ k'] exI [of _ "pac # pks"]) simp
qed

lemma split_limit_pos: "0 \<le> m \<Longrightarrow> 0 < split_limit m"
  by (simp add: split_limit_def maxDataLen_def headerLen_def)

lemma fragments_status: "x \<in> set (fragments m data) \<Longrightarrow> snd x = 0 \<or> snd x = statusSplit"
proof (induction m data rule: fragments.induct)
  case (1 m data)
  then show ?case
    by (cases "length data \<le> m \<or> m = 0") (auto simp: fragments.simps [of m data])
qed

text \<open>\<open>WriteTo\<close>: the fragments of the message are queued in order, and no error is returned.\<close>

definition message_fragments :: "channel \<Rightarrow> bytes \<Rightarrow> (bytes \<times> u8) list" where
  "message_fragments ch data = fragments (nat (split_limit (c_maxDataLen ch))) data"

lemma channel_WriteTo_queued:
  assumes laws: "crypto_laws L" and envs: "\<And>k. env_ok (envs k)" and ds: "delivery_ok ds"
    and live: "\<not> st_destroyed (c_stat ch)" and n: "c_id ch = rep_id n" and m: "0 \<le> c_maxDataLen ch"
  shows "\<exists>rid ch' out pks. channel_WriteTo L envs ch data ds = ((rid, None), ch', out) \<and>
     sq_items (c_sendQueue ch') = sq_items (c_sendQueue ch) @ pks \<and>
     sent_as L (c_crypt ch) n (message_fragments ch data) pks \<and>
     c_id ch' = rep_id (n + length (message_fragments ch data)) \<and> sender_frame ch ch'"
proof -
  let ?m = "split_limit (c_maxDataLen ch)"
  have "\<forall>x\<in>set (message_fragments ch data). snd x = 0 \<or> snd x = statusSplit"
    by (auto simp: message_fragments_def dest: fragments_status)
  then obtain ch' out k' pks where
    w: "write_all (channel_writer L envs ds) (message_fragments ch data) (ch, [], 0) = (None, (ch', out, k'))"
    and pks: "sq_items (c_sendQueue ch') = sq_items (c_sendQueue ch) @ pks"
      "sent_as L (c_crypt ch) n (message_fragments ch data) pks"
      "c_id ch' = rep_id (n + length (message_fragments ch data))" "sender_frame ch ch'"
    using write_all_fragments [where envs = envs and ?o0.0 = "[]" and k = 0, OF laws envs ds live n] by blast
  obtain rid err st where s: "splitPacket (c_maxDataLen ch) (channel_writer L envs ds) data (ch, [], 0) = ((rid, err), st)"
    by (metis prod.collapse)
  have "(err, st) = (None, (ch', out, k'))"
    using split_loop_write_all [OF split_limit_pos [OF m], of "channel_writer L envs ds" 0 0 data "(ch, [], 0)"] s w
    by (simp add: splitPacket_def message_fragments_def)
  then show ?thesis
    using s pks by (simp add: channel_WriteTo_def)
qed

text \<open>A sequence of messages, each with its own surroundings.\<close>

fun write_messages ::
  "crypto \<Rightarrow> (nat \<Rightarrow> nat \<Rightarrow> wenv) \<Rightarrow> nat \<Rightarrow> bytes list \<Rightarrow> channel \<Rightarrow> channel" where
  "write_messages L envs k [] ch = ch"
| "write_messages L envs k (m # ms) ch =
     write_messages L envs (Suc k) ms (fst (snd (channel_WriteTo L (envs k) ch m [])))"

definition stream_fragments :: "channel \<Rightarrow> bytes list \<Rightarrow> (bytes \<times> u8) list" where
  "stream_fragments ch ms = concat (map (message_fragments ch) ms)"

lemma write_messages_queued:
  assumes laws: "crypto_laws L" and envs: "\<And>j k. env_ok (envs j k)"
    and "\<not> st_destroyed (c_stat ch)" "c_id ch = rep_id n" "0 \<le> c_maxDataLen ch"
  shows "\<exists>pks. sq_items (c_sendQueue (write_messages L envs k ms ch)) = sq_items (c_sendQueue ch) @ pks \<and>
     sent_as L (c_crypt ch) n (stream_fragments ch ms) pks"
  using assms(3-5)
proof (induction ms arbitrary: ch n k)
  case Nil
  then show ?case by (simp add: stream_fragments_def)
next
  case (Cons m ms)
  have ds: "delivery_ok []" by (simp add: delivery_ok_def)
  obtain rid ch1 out p1 where 1: "channel_WriteTo L (envs k) ch m [] = ((rid, None), ch1, out)"
    "sq_items (c_sendQueue ch1) = sq_items (c_sendQueue ch) @ p1"
    "sent_as L (c_crypt ch) n (message_fragments ch m) p1"
    "c_id ch1 = rep_id (n + length (message_fragments ch m))" "sender_frame ch ch1"
    using channel_WriteTo_queued [where envs = "envs k" and data = m, OF laws envs ds Cons.prems] by blast
  have frame: "\<not> st_destroyed (c_stat ch1)" "0 \<le> c_maxDataLen ch1" "c_crypt ch1 = c_crypt ch"
    "stream_fragments ch1 ms = stream_fragments ch ms"
    using 1(5) Cons.prems by (simp_all add: sender_frame_def stream_fragments_def message_fragments_def [abs_def])
  obtain p2 where 2: "sq_items (c_sendQueue (write_messages L envs (Suc k) ms ch1)) = sq_items (c_sendQueue ch1) @ p2"
    "sent_as L (c_crypt ch) (n + length (message_fragments ch m)) (stream_fragments ch ms) p2"
    using Cons.IH [OF frame(1) 1(4) frame(2)] frame(3,4) by auto
  show ?case
    using 1(1,2) 2(1) sent_as_append [OF 1(3) 2(2)]
    by (intro exI [of _ "p1 @ p2"]) (simp add: stream_fragments_def)
qed

subsection \<open>What the collected packets say\<close>

abbreviation frag_view :: "bytes \<times> u8 \<Rightarrow> bytes \<times> u8" where
  "frag_view x \<equiv> (fst x, statusData OR snd x)"

abbreviation packet_view :: "packet \<Rightarrow> bytes \<times> u8" where
  "packet_view p \<equiv> (p_data p, p_status p)"

lemma views_status: "map packet_view h = map (\<lambda>x. (x, st)) xs \<Longrightarrow> \<forall>p\<in>set h. p_status p = st"
  by (induction h arbitrary: xs) (auto simp: Cons_eq_map_conv)

text \<open>Split parts alone complete no message.\<close>

lemma combine_all_incomplete:
  assumes "\<forall>p\<in>set ps. p_status p = statusDataNext"
  shows "fst (combine_all ps combine_clear) = []"
proof (cases ps)
  case (Cons p qs)
  then have "combine_packet p combine_clear = Inr (None, \<lparr>cb_combine = True, cb_data = p_data p, cb_first = Some p\<rparr>)"
    using assms by (simp add: combine_packet_def combine_clear_def)
  then show ?thesis
    using Cons assms combine_all_parts [of qs "p_data p" p] by simp
qed simp

text \<open>All the packets of one message make that message.\<close>

lemma combine_all_fragments:
  assumes m: "0 < m" and h: "map packet_view h = map frag_view (fragments m data)"
  shows "map p_data (fst (combine_all h combine_clear)) = [data]" "snd (combine_all h combine_clear) = combine_clear"
proof -
  obtain init d where fr: "fragments m data = map (\<lambda>x. (x, statusSplit)) init @ [(d, 0)]" "concat init @ d = data"
    using fragments_shape [OF m, of data] by blast
  then obtain ps l where h1: "h = ps @ [l]" and
    ps: "map packet_view ps = map (\<lambda>x. (x, statusDataNext)) init" and l: "packet_view l = (d, statusData)"
    using h by (auto simp: map_eq_append_conv o_def)
  have st: "\<forall>p\<in>set ps. p_status p = statusDataNext"
    by (rule views_status [OF ps])
  have "map p_data ps = init"
    using arg_cong [OF ps, of "map fst"] by (simp add: o_def)
  then have "concat (map p_data (ps @ [l])) = data"
    using fr(2) l by simp
  then show "map p_data (fst (combine_all h combine_clear)) = [data]" "snd (combine_all h combine_clear) = combine_clear"
    using combine_all_message [OF st, of l] l by (simp_all add: h1 packet_setters)
qed

text \<open>
  A prefix of the fragments of a sequence of messages makes a prefix of the messages, and all of
  the fragments make all of them.
\<close>

lemma combine_all_stream:
  assumes m: "0 < m"
    and "map packet_view h = map frag_view (take e (concat (map (fragments m) ms)))"
  shows "\<exists>k\<le>length ms. map p_data (fst (combine_all h combine_clear)) = take k ms \<and>
     (length (concat (map (fragments m) ms)) \<le> e \<longrightarrow> k = length ms)"
  using assms(2)
proof (induction ms arbitrary: h e)
  case Nil
  then show ?case by simp
next
  case (Cons x ms)
  let ?fr = "fragments m x" and ?rest = "concat (map (fragments m) ms)"
  show ?case
  proof (cases "length ?fr \<le> e")
    case True
    then have "map packet_view h = map frag_view ?fr @ map frag_view (take (e - length ?fr) ?rest)"
      using Cons.prems by simp
    then obtain h1 h2 where h: "h = h1 @ h2" "map packet_view h1 = map frag_view ?fr"
      "map packet_view h2 = map frag_view (take (e - length ?fr) ?rest)"
      by (auto simp: map_eq_append_conv)
    obtain k where k: "k \<le> length ms" "map p_data (fst (combine_all h2 combine_clear)) = take k ms"
      "length ?rest \<le> e - length ?fr \<longrightarrow> k = length ms"
      using Cons.IH [OF h(3)] by blast
    have "map p_data (fst (combine_all h combine_clear)) = take (Suc k) (x # ms)"
      using combine_all_append [of combine_clear h1 h2] combine_all_fragments [OF m h(2)] k(2) h(1)
      by (simp add: split_def Let_def)
    then show ?thesis
      using k(1,3) True by (intro exI [of _ "Suc k"]) auto
  next
    case False
    obtain init d where fr: "?fr = map (\<lambda>x. (x, statusSplit)) init @ [(d, 0)]"
      using fragments_shape [OF m, of x] by blast
    then have "map packet_view h = map (\<lambda>x. (x, statusDataNext)) (take e init)"
      using Cons.prems False by (simp add: take_map o_def)
    then have "\<forall>p\<in>set h. p_status p = statusDataNext"
      by (rule views_status)
    then show ?thesis
      using combine_all_incomplete [of h] False by (intro exI [of _ 0]) simp
  qed
qed

subsection \<open>End to end\<close>

text \<open>
  A datagram of a queued packet as the other side unmarshals it.
\<close>

definition arrival :: "time \<Rightarrow> packet \<Rightarrow> packet" where
  "arrival now p = (case unmarshalBinary (marshalBinary p) (newPacket now) of Inr q \<Rightarrow> q | Inl _ \<Rightarrow> newPacket now)"

lemma arrival_fields:
  assumes "id_ok (p_id p)"
  shows "p_id (arrival now p) = p_id p" "p_status (arrival now p) = p_status p" "p_data (arrival now p) = p_data p"
  using assms by (simp_all add: arrival_def unmarshal_marshal id_ok_and_id)

text \<open>The stream of numbered plain packets behind a list of fragments.\<close>

definition plain_stream :: "(bytes \<times> u8) list \<Rightarrow> nat \<Rightarrow> u32 \<times> u8 \<times> bytes" where
  "plain_stream frs n = (rep_id n, statusData OR snd (frs ! n), fst (frs ! n))"

lemma sent_carries:
  assumes "sent_as L c 0 frs pks" "n < length frs" "\<forall>x\<in>set frs. snd x = 0 \<or> snd x = statusSplit"
  shows "carries L c (plain_stream frs) n (arrival now (pks ! n))"
proof -
  have p: "p_id (pks ! n) = rep_id n" "p_status (pks ! n) = statusData OR snd (frs ! n)"
    "decryptPacketData L c (rep_id n) (p_data (pks ! n)) = Inr (fst (frs ! n))"
    using assms(1,2) by (simp_all add: sent_as_def)
  have "snd (frs ! n) = 0 \<or> snd (frs ! n) = statusSplit"
    using assms(2,3) by simp
  then have "p_status (pks ! n) = statusData \<or> p_status (pks ! n) = statusDataNext"
    using p(2) by auto
  then show ?thesis
    using p by (simp add: carries_def arrival_fields plain_stream_def)
qed

lemma decrypt_session:
  "k_session c = k_session d \<Longrightarrow> decryptPacketData L c = decryptPacketData L d"
  by (intro ext) (simp add: decryptPacketData_def ison_def)

definition fresh_receiver :: "channel \<Rightarrow> bool" where
  "fresh_receiver ch \<longleftrightarrow> c_expectedID ch = 0 \<and> c_recvQueue ch = rq_init \<and> c_combine ch = combine_clear"

definition fresh_sender :: "channel \<Rightarrow> bool" where
  "fresh_sender ch \<longleftrightarrow> c_id ch = 0 \<and> sq_queue (c_sendQueue ch) = [] \<and> sq_fifo (c_sendQueue ch) \<and>
     \<not> st_destroyed (c_stat ch) \<and> 0 \<le> c_maxDataLen ch"

text \<open>
  \<open>ns\<close> numbers the queued packets that arrive, in the order of their arrival.
\<close>

definition arrivals :: "channel \<Rightarrow> (nat \<Rightarrow> wenv) \<Rightarrow> nat list \<Rightarrow> (wenv \<times> packet) list" where
  "arrivals snd_ch envs ns =
     map (\<lambda>j. (envs j, arrival (we_now (envs j)) (sq_items (c_sendQueue snd_ch) ! (ns ! j)))) [0..<length ns]"

text \<open>
  Packets that carry the fragments \<open>F\<close> arrive, in any order and some of them more than once: the
  reader gets what the fragments of a prefix of \<open>F\<close> combine to, and all of \<open>F\<close> once all arrived.
\<close>

lemma serve_stream:
  assumes sent: "sq_items (c_sendQueue s) = pks" "sent_as L c 0 F pks" and F: "\<forall>x\<in>set F. snd x = 0 \<or> snd x = statusSplit"
    and r: "fresh_receiver r" "decryptPacketData L (c_crypt r) = decryptPacketData L c"
    and ns: "window_ok [] ns" "\<forall>n\<in>set ns. n < length F"
  shows "\<exists>hist. reads (snd (serve_all L (arrivals s envs ns) r)) = fst (combine_all hist combine_clear) \<and>
     map packet_view hist = map frag_view (take (length hist) F) \<and>
     (set ns = {..<length F} \<longrightarrow> length F \<le> length hist)"
proof -
  let ?xs = "arrivals s envs ns"
  have "carries L (c_crypt r) (plain_stream F) (ns ! j) (snd (?xs ! j))" if "j < length ns" for j
  proof -
    have "carries L c (plain_stream F) (ns ! j) (snd (?xs ! j))"
      using sent_carries [OF sent(2) _ F, of "ns ! j"] that ns(2) sent(1) by (simp add: arrivals_def)
    moreover have "carries L (c_crypt r) = carries L c"
      by (intro ext) (simp only: carries_def r(2))
    ultimately show ?thesis by simp
  qed
  then have all: "list_all2 (\<lambda>n x. carries L (c_crypt r) (plain_stream F) n (snd x)) ns ?xs"
    by (simp add: list_all2_conv_all_nth arrivals_def)
  have init: "received (plain_stream F) (set []) [] r"
    using r(1) by (simp add: fresh_receiver_def received_init)
  obtain hist ch' out where run: "serve_all L ?xs r = (ch', out)"
    "reads out = fst (combine_all hist (c_combine r))" "received (plain_stream F) (set ns \<union> set []) ([] @ hist) ch'"
    using serve_all_received [OF init ns(1) all] by blast
  let ?e = "length hist"
  have rel: "{..<?e} \<subseteq> set ns" "?e \<notin> set ns" "map wire_of hist = map (plain_stream F) [0..<?e]"
    using run(3) by (simp_all add: received_def Let_def)
  have le: "?e \<le> length F"
    using rel(1) ns(2) by (metis lessThan_iff linorder_not_le nat_less_le subsetD)
  have "map packet_view hist = map (\<lambda>w. (snd (snd w), fst (snd w))) (map wire_of hist)"
    by (simp add: wire_of_def)
  also have "\<dots> = map frag_view (take ?e F)"
    unfolding rel(3) using le by (intro nth_equalityI) (simp_all add: plain_stream_def)
  finally have "map packet_view hist = map frag_view (take ?e F)" .
  moreover have "length F \<le> ?e" if "set ns = {..<length F}"
    using rel(2) that by simp
  ultimately show ?thesis
    using run(1,2) r(1) by (intro exI [of _ hist]) (simp add: fresh_receiver_def)
qed

lemma end_to_end:
  assumes laws: "crypto_laws L" and envs: "\<And>j k. env_ok (envs j k)"
    and s: "fresh_sender s" and r: "fresh_receiver r" "decryptPacketData L (c_crypt r) = decryptPacketData L (c_crypt s)"
    and ns: "window_ok [] ns" "\<forall>n\<in>set ns. n < length (stream_fragments s ms)"
  shows "\<exists>k\<le>length ms. map p_data (reads (snd (serve_all L (arrivals (write_messages L envs 0 ms s) envs' ns) r))) = take k ms \<and>
     (set ns = {..<length (stream_fragments s ms)} \<longrightarrow> k = length ms)"
proof -
  let ?F = "stream_fragments s ms" and ?s = "write_messages L envs 0 ms s"
  have s': "\<not> st_destroyed (c_stat s)" "c_id s = rep_id 0" "0 \<le> c_maxDataLen s" "sq_items (c_sendQueue s) = []"
    using s by (simp_all add: fresh_sender_def rep_id_0 sq_items_def)
  obtain pks where pks: "sq_items (c_sendQueue ?s) = pks" "sent_as L (c_crypt s) 0 ?F pks"
    using write_messages_queued [where envs = envs and k = 0 and ms = ms, OF laws envs s'(1-3)] s'(4) by auto
  have F: "\<forall>x\<in>set ?F. snd x = 0 \<or> snd x = statusSplit"
    by (auto simp: stream_fragments_def message_fragments_def dest: fragments_status)
  obtain hist where hist: "reads (snd (serve_all L (arrivals ?s envs' ns) r)) = fst (combine_all hist combine_clear)"
    "map packet_view hist = map frag_view (take (length hist) ?F)" "set ns = {..<length ?F} \<longrightarrow> length ?F \<le> length hist"
    using serve_stream [OF pks F r ns, of envs'] by blast
  have m: "0 < nat (split_limit (c_maxDataLen s))"
    using split_limit_pos [OF s'(3)] by simp
  have F_eq: "?F = concat (map (fragments (nat (split_limit (c_maxDataLen s)))) ms)"
    by (simp add: stream_fragments_def message_fragments_def [abs_def])
  obtain k where "k \<le> length ms" "map p_data (fst (combine_all hist combine_clear)) = take k ms"
    "length ?F \<le> length hist \<longrightarrow> k = length ms"
    using combine_all_stream [OF m hist(2) [unfolded F_eq]] unfolding F_eq by blast
  with hist(1,3) show ?thesis by (metis order_refl)
qed

text \<open>The window condition holds as long as no identifier has wrapped by half.\<close>

lemma next_missing_le:
  assumes "\<forall>n\<in>set ns. n < N"
  shows "next_missing ns \<le> N"
proof (rule ccontr)
  assume "\<not> next_missing ns \<le> N"
  then have N: "N < length (takeWhile (\<lambda>m. m \<in> set ns) [0..<length ns])"
    by (simp add: next_missing_def)
  then have "takeWhile (\<lambda>m. m \<in> set ns) [0..<length ns] ! N \<in> set ns"
    by (meson nth_mem set_takeWhileD)
  moreover have "takeWhile (\<lambda>m. m \<in> set ns) [0..<length ns] ! N = N"
    using N takeWhile_nth [OF N] length_takeWhile_le [of "\<lambda>m. m \<in> set ns" "[0..<length ns]"] by simp
  ultimately show False using assms by auto
qed

lemma window_ok_small:
  "\<forall>n\<in>set ns \<union> set seen. n < 2 ^ 19 \<Longrightarrow> window_ok seen ns"
proof (induction ns arbitrary: seen)
  case (Cons n ns)
  have "next_missing seen \<le> 2 ^ 19"
    using Cons.prems by (intro next_missing_le) auto
  moreover have "window_ok (n # seen) ns"
    using Cons.prems by (intro Cons.IH) auto
  ultimately show ?case
    using Cons.prems by auto
qed simp

subsection \<open>Properties\<close>

lemma received_unique: "received w A hist ch \<Longrightarrow> received w A hist' ch' \<Longrightarrow> length hist = length hist'"
  unfolding received_def Let_def by (metis lessThan_iff linorder_neqE_nat subsetD)

lemma find_sq_get:
  assumes "sq_fifo q"
  shows "map_option snd (sq_get q i) = find (\<lambda>p. p_id p = i) (sq_items q)"
proof (cases "find (\<lambda>p. p_id p = i) (sq_items q)")
  case None
  then have "\<nexists>p. sq_lookup q i = Some p"
    using sqf.get_items [OF assms, of i] by (auto simp: find_None_iff)
  then show ?thesis using None by (cases "sq_get q i") (simp_all add: sq_lookup_def)
next
  case (Some p)
  then have "p \<in> set (sq_items q) \<and> p_id p = i" by (auto simp: find_Some_iff)
  then show ?thesis using Some sqf.get_items [OF assms, of i p] by (simp add: sq_lookup_def)
qed

definition sample_data :: packet where
  "sample_data = set_data [5] (set_status statusData (newPacket 0))"

text \<open>
  No packet is delivered twice. A channel that has already received packet n of a stream, and
  gets it again within the window, passes nothing to its reader and has still received exactly
  the same packets.
\<close>

lemma duplicate_dropped:
  assumes "received w A hist ch" "carries L (c_crypt ch) w n pac" "n \<in> A"
    and "length hist \<le> n + 2 ^ 19" "n < length hist + 2 ^ 19"
  shows "reads (snd (serve_channel L env pac ch)) = [] \<and> received w A hist (fst (serve_channel L env pac ch))"
proof -
  obtain hist' ch' out where run: "serve_channel L env pac ch = (ch', out)"
    "reads out = fst (combine_all hist' (c_combine ch))" "received w (insert n A) (hist @ hist') ch'"
    using serve_channel_received [OF assms(1,2,4,5), of env] by blast
  have A: "insert n A = A" using assms(3) by blast
  have "length hist = length (hist @ hist')"
    by (rule received_unique [OF assms(1) run(3) [unfolded A]])
  then have "hist' = []" by simp
  with run(2) run(3) [unfolded A] show ?thesis
    unfolding run(1) by simp
qed

text \<open>
  C15: Writing a message to a live channel. Whatever its length, WriteTo returns no error, and
  the fragments of the message are queued for retransmission behind what was queued before, with
  consecutive identifiers, the plain or the split status, and data that decrypts to the
  fragment; the next message continues the numbering.
\<close>

lemma write_message:
  assumes "crypto_laws L" "\<And>k. env_ok (envs k)" "delivery_ok ds"
    and "\<not> st_destroyed (c_stat ch)" "c_id ch = rep_id n" "0 \<le> c_maxDataLen ch"
  shows "\<exists>rid ch' out pks. channel_WriteTo L envs ch data ds = ((rid, None), ch', out) \<and>
     sq_items (c_sendQueue ch') = sq_items (c_sendQueue ch) @ pks \<and>
     length pks = length (message_fragments ch data) \<and>
     (\<forall>j<length pks. p_id (pks ! j) = rep_id (n + j) \<and>
        p_status (pks ! j) = statusData OR snd (message_fragments ch data ! j) \<and>
        decryptPacketData L (c_crypt ch) (p_id (pks ! j)) (p_data (pks ! j)) = Inr (fst (message_fragments ch data ! j))) \<and>
     c_id ch' = rep_id (n + length pks)"
proof -
  obtain rid ch' out pks where w: "channel_WriteTo L envs ch data ds = ((rid, None), ch', out)"
    "sq_items (c_sendQueue ch') = sq_items (c_sendQueue ch) @ pks"
    "sent_as L (c_crypt ch) n (message_fragments ch data) pks"
    "c_id ch' = rep_id (n + length (message_fragments ch data))"
    using channel_WriteTo_queued [where envs = envs and data = data, OF assms] by blast
  then show ?thesis
    by (auto simp: sent_as_def)
qed

lemma write_message_witness:
  "\<exists>rid ch' out pks. channel_WriteTo plain_crypto (\<lambda>_. sample_wenv) sample_channel [1, 2] [] = ((rid, None), ch', out) \<and>
     sq_items (c_sendQueue ch') = pks \<and> length pks = length (message_fragments sample_channel [1, 2])"
  using write_message [OF plain_crypto_laws, where envs = "\<lambda>_. sample_wenv" and ds = "[]" and ch = sample_channel and n = 0
      and data = "[1, 2]"]
  by (auto simp: env_ok_def delivery_ok_def sample_wenv_def sample_channel_def stat_zero_def rep_id_0 sq_items_def sq_empty_def)

text \<open>
  C19: An acknowledgement removes the packet with its identifier from the send queue and leaves
  the others in order; the packet's delivery callback, if it has one, is called with that
  packet, but the timer of its delivery timeout is not stopped (the code stops a copy of it):
  when its time comes the same callback is called once more, with the timeout error, for a
  packet that was delivered. An acknowledgement of an unknown packet changes nothing in the
  queue and calls nothing.
\<close>

lemma ack_clears:
  assumes "sq_fifo (c_sendQueue ch)" "p_status pac = statusAck"
  shows "case serve_channel L env pac ch of (ch', out) \<Rightarrow>
     sq_items (c_sendQueue ch') = filter (\<lambda>p. p_id p \<noteq> p_id pac) (sq_items (c_sendQueue ch)) \<and>
     (case find (\<lambda>p. p_id p = p_id pac) (sq_items (c_sendQueue ch)) of
        None \<Rightarrow> out = [] \<and> c_delivered ch' = c_delivered ch
      | Some p \<Rightarrow>
          (case p_delivery p of
             None \<Rightarrow> out = [] \<and> c_delivered ch' = c_delivered ch
           | Some f \<Rightarrow> out = [ODeliver f p] \<and> c_delivered ch' = c_delivered ch @ [p] \<and>
               (\<forall>t now. p_deliveryTimer p = Armed t \<longrightarrow>
                  snd (late_delivery now (length (c_delivered ch)) ch') = (if t \<le> now then [OTimeout f p] else []))))"
proof -
  let ?i = "p_id pac" and ?q = "c_sendQueue ch"
  have items: "sq_items (snd (sq_delete ?i ?q)) = filter (\<lambda>p. p_id p \<noteq> ?i) (sq_items ?q)"
    by (rule sqf.items_del [OF assms(1)])
  note find = find_sq_get [OF assms(1), of ?i]
  show ?thesis
  proof (cases "sq_get ?q ?i")
    case None
    then have "snd (sq_delete ?i ?q) = ?q" by (simp add: sq_delete_def)
    with None items find assms(2) show ?thesis
      by (simp add: serve_channel_def serve_ack_def setTripTime_def Let_def flip: find)
  next
    case (Some x)
    obtain d q' where d: "sq_delete ?i ?q = (Some (snd x), q')"
      using Some by (cases x) (simp add: sq_delete_def)
    with Some items assms(2) show ?thesis
      by (cases x; cases "p_delivery (snd x)")
        (simp_all add: serve_channel_def serve_ack_def setTripTime_def Let_def late_delivery_def flip: find)
  qed
qed

lemma ack_clears_witness:
  "snd (late_delivery 9 0 (fst (serve_channel plain_crypto sample_wenv (set_status statusAck (newPacket 0))
     (sample_channel\<lparr>c_sendQueue := sq_add ((newPacket 0)\<lparr>p_deliveryTimer := Armed 9, p_delivery := Some 4\<rparr>) sq_empty\<rparr>)))) =
   [OTimeout 4 ((newPacket 0)\<lparr>p_deliveryTimer := Armed 9, p_delivery := Some 4\<rparr>)]"
proof -
  let ?p = "(newPacket 0)\<lparr>p_deliveryTimer := Armed 9, p_delivery := Some 4\<rparr>"
  let ?ch = "sample_channel\<lparr>c_sendQueue := sq_add ?p sq_empty\<rparr>"
  have items: "sq_items (c_sendQueue ?ch) = [?p]"
    using sqf.items_empty by (simp add: sqf.items_add)
  have "sq_fifo (c_sendQueue ?ch)"
    using sqf.fifo_add [OF sqf.fifo_empty, of ?p] by (simp add: sq_lookup_def sq_get_def sq_empty_def)
  moreover have "c_delivered ?ch = []" by (simp add: sample_channel_def)
  ultimately show ?thesis
    using ack_clears [of ?ch "set_status statusAck (newPacket 0)" plain_crypto sample_wenv]
    unfolding items by (simp add: packet_setters newPacket_def split_def)
qed

end
