(* ===== verification/Invariants.thy ===== *)
theory Invariants
  imports Delivery
begin

section \<open>The invariants of the connector\<close>

text \<open>
  What each operation of a channel and each step of the connector keeps of a well-formed state,
  and that serving a datagram does not panic.
\<close>

subsection \<open>Invariants of the channel operations\<close>

lemma channel_okD:
  assumes "channel_ok ch"
  shows "id_ok (c_id ch)" "id_ok (c_expectedID ch)" "sq_ok (c_sendQueue ch)" "rq_ok (c_recvQueue ch)"
    "combine_ok (c_combine ch)" "speed_ok (st_sendSpeed (c_stat ch))" "speed_ok (st_recvSpeed (c_stat ch))"
  using assms by (simp_all add: channel_ok_def)

lemma writeToDelay_timer [simp]: "st_timer (c_stat (snd (writeToDelay env s ch))) = st_timer (c_stat ch)"
  by (auto simp: writeToDelay_def Let_def stat_setSendDelay_def)

lemma writeToDelay_speed [simp]:
  "st_sendSpeed (c_stat (snd (writeToDelay env s ch))) = st_sendSpeed (c_stat ch)"
  "st_recvSpeed (c_stat (snd (writeToDelay env s ch))) = st_recvSpeed (c_stat ch)"
  by (auto simp: writeToDelay_def Let_def stat_setSendDelay_def)

lemma channel_ok_delay: "channel_ok ch \<Longrightarrow> channel_ok (snd (writeToDelay env s ch))"
  by (simp add: channel_ok_def timers_ok_def)

lemma channel_ok_packet:
  "channel_ok ch \<Longrightarrow> channel_ok (fst (writeTo_packet env ch i d st f t))"
  by (auto simp: writeTo_packet_def Let_def channel_ok_def timers_ok_def stat_setSend_def stat_setLastSend_def
      intro: sq.inv_add speed_ok_add)

lemma channel_ok_newID: "channel_ok ch \<Longrightarrow> channel_ok (snd (newID ch))"
  by (simp add: newID_def channel_ok_def timers_ok_def)

lemma channel_ok_writeTo [inv_intros]:
  assumes "channel_ok ch"
  shows "channel_ok (fst (snd (writeTo L env ch d st ds is)))"
proof -
  let ?ch1 = "snd (writeToDelay env (st AND NOT statusSplit) ch)"
  have 1: "channel_ok ?ch1" by (rule channel_ok_delay [OF assms])
  have 2: "channel_ok (snd (newID ?ch1))" by (rule channel_ok_newID [OF 1])
  show ?thesis
    using assms 1 2 channel_ok_packet [OF 1] channel_ok_packet [OF 2]
    by (auto simp: writeTo_def Let_def split_def split: sum.split)
qed

lemma channel_ok_WriteTo [inv_intros]:
  assumes "channel_ok ch"
  shows "channel_ok (fst (snd (channel_WriteTo L envs ch data ds)))"
proof -
  have step: "channel_ok (fst (snd (channel_writer L envs ds d sp st)))" if "channel_ok (fst st)" for d sp st
    using that by (simp add: channel_writer_def split_def channel_ok_writeTo)
  have "channel_ok (fst (snd (split_loop (channel_writer L envs ds) (split_limit (c_maxDataLen ch)) 0 0 data (ch, [], 0))))"
    using assms by (intro split_loop_keeps [where P = "\<lambda>st. channel_ok (fst st)"] step) simp_all
  then show ?thesis
    by (simp add: channel_WriteTo_def splitPacket_def split_def)
qed

lemma writeTo_addr [simp, frame_simps]: "c_addr (fst (snd (writeTo L env ch d st ds is))) = c_addr ch"
  by (auto simp: writeTo_def writeTo_packet_def newID_def Let_def split_def split: sum.split)

lemma channel_WriteTo_addr [simp, frame_simps]: "c_addr (fst (snd (channel_WriteTo L envs ch data ds))) = c_addr ch"
proof -
  have "c_addr (fst (snd (split_loop (channel_writer L envs ds) (split_limit (c_maxDataLen ch)) 0 0 data (ch, [], 0)))) = c_addr ch"
    by (rule split_loop_keeps [where P = "\<lambda>st. c_addr (fst st) = c_addr ch"])
      (simp_all add: channel_writer_def split_def)
  then show ?thesis
    by (simp add: channel_WriteTo_def splitPacket_def split_def)
qed

lemma writeTo_destroyed [simp, frame_simps]:
  "st_destroyed (c_stat (fst (snd (writeTo L env ch d st ds is)))) = st_destroyed (c_stat ch)"
  by (auto simp: writeTo_def writeTo_packet_def newID_def Let_def split_def split: sum.split)

lemma channel_WriteTo_destroyed [simp, frame_simps]:
  "st_destroyed (c_stat (fst (snd (channel_WriteTo L envs ch data ds)))) = st_destroyed (c_stat ch)"
proof -
  have "st_destroyed (c_stat (fst (snd (split_loop (channel_writer L envs ds) (split_limit (c_maxDataLen ch)) 0 0 data
      (ch, [], 0))))) = st_destroyed (c_stat ch)"
    by (rule split_loop_keeps [where P = "\<lambda>st. st_destroyed (c_stat (fst st)) = st_destroyed (c_stat ch)"])
      (simp_all add: channel_writer_def split_def)
  then show ?thesis
    by (simp add: channel_WriteTo_def splitPacket_def split_def)
qed

text \<open>
  What an operation on a channel \<open>ch0\<close> keeps: a well-formed channel with the address and the
  destroyed flag of \<open>ch0\<close>, and no panic.
\<close>

definition keeps :: "channel \<Rightarrow> channel \<times> out list \<Rightarrow> bool" where
  "keeps ch0 st \<longleftrightarrow> channel_ok (fst st) \<and> c_addr (fst st) = c_addr ch0 \<and>
     st_destroyed (c_stat (fst st)) = st_destroyed (c_stat ch0) \<and> OPanic \<notin> set (snd st)"

lemma keeps_sendToReader:
  assumes "keeps ch0 st"
  shows "keeps ch0 (sendToReader now p st)"
proof -
  have ok: "channel_ok (fst st)" using assms by (simp add: keeps_def)
  obtain r c where c: "combine_packet p (c_combine (fst st)) = Inr (r, c)"
    using combine_no_panic channel_okD(5) [OF ok] by fast
  then have "combine_ok c"
    using combine_ok_step channel_okD(5) [OF ok] by blast
  with c assms show ?thesis
    by (auto simp: keeps_def sendToReader_def newExpectedID_def Let_def split_def channel_ok_def timers_ok_def
        stat_setRecv_def speed_ok_add split: option.split)
qed

lemma accept_data_ok:
  assumes ok: "channel_ok ch"
  shows "keeps ch (accept_data now pac ch)"
proof -
  let ?st = "sendToReader now pac (ch, [])"
  have st: "keeps ch ?st"
    using ok by (intro keeps_sendToReader) (simp add: keeps_def)
  have "keeps ch (snd (process ex (sendToReader now) q ?st))" for ex q
    by (rule process_keeps [where P = "keeps ch", OF keeps_sendToReader st])
  moreover have "rq_ok (fst (process ex (sendToReader now) (c_recvQueue ch) ?st))" for ex
    by (rule process_rq_ok [OF channel_okD(4) [OF ok]])
  ultimately show ?thesis
    using ok rq.inv_add [OF channel_okD(4) [OF ok], of pac]
    by (auto simp: keeps_def accept_data_def Let_def channel_ok_def timers_ok_def stat_setDrop_def split_def split: option.split)
qed

text \<open>The acknowledged packet that \<open>setTripTime\<close> found is still there for \<open>delete\<close>.\<close>

lemma serve_ack_ok:
  assumes ok: "channel_ok ch"
  shows "keeps ch (serve_ack now pac ch)"
proof (cases "sq_get (c_sendQueue ch) (p_id pac)")
  case None
  then show ?thesis
    using ok by (simp add: serve_ack_def setTripTime_def keeps_def channel_ok_def timers_ok_def stat_setAckDropReceived_def)
next
  case (Some x)
  then have "fst (sq_delete (p_id pac) (c_sendQueue ch)) = Some (snd x)"
    by (simp add: sq_delete_def split_def)
  moreover have "sq_ok (snd (sq_delete (p_id pac) (c_sendQueue ch)))"
    by (rule sq.inv_del [OF channel_okD(3) [OF ok]])
  moreover have "sq_timer (snd (sq_delete (p_id pac) (c_sendQueue ch))) = sq_timer (c_sendQueue ch)"
    by simp
  ultimately show ?thesis
    using ok Some
    by (cases x; cases "sq_delete (p_id pac) (c_sendQueue ch)")
      (auto simp: serve_ack_def setTripTime_def Let_def keeps_def channel_ok_def timers_ok_def stat_setAckReceived_def
        split: option.split)
qed

lemma writeTo_control_ok:
  assumes "channel_ok ch"
  shows "keeps ch (snd (writeToAck L env ch pac))"
    "keeps ch (snd (writeToPong L env ch))" "keeps ch (snd (writeToPing L env ch))"
    "keeps ch (snd (writeToDisconnect L env ch))"
  using assms by (simp_all add: writeTo_controls keeps_def)

lemma serve_data_ok:
  assumes ok: "channel_ok ch" and laws: "hash_laws L"
  shows "\<exists>ch' out b. serve_data L env pac ch = (ch', out, b) \<and> keeps ch (ch', out)"
proof (cases "decryptPacketData L (c_crypt ch) (p_id pac) (p_data pac)")
  case (Inl e)
  then have "e \<noteq> ErrPanic" using decrypt_no_panic [OF laws] by metis
  with Inl ok show ?thesis
    by (intro exI [of _ ch] exI [of _ "[]"] exI [of _ False]) (simp add: serve_data_def keeps_def)
next
  case (Inr data)
  let ?pac = "set_data data pac"
  have "snd (writeToAck L env ch ?pac) = (ch, snd (snd (writeToAck L env ch ?pac)))"
    by (simp add: writeToAck_eq)
  then show ?thesis
    using Inr accept_data_ok [OF ok, of "we_now env" ?pac] writeTo_control_ok(1) [OF ok, of L env ?pac]
    by (cases "writeToAck L env ch ?pac"; cases "accept_data (we_now env) ?pac ch")
      (auto simp: serve_data_def keeps_def)
qed

lemma keeps_stat:
  "keeps ch0 (ch, out) \<Longrightarrow> keeps ch0 (ch\<lparr>c_stat := stat_setLastActivity now (c_stat ch)\<rparr>, out)"
  by (simp add: keeps_def channel_ok_def timers_ok_def stat_setLastActivity_def)

lemma serve_channel_ok:
  assumes ok: "channel_ok ch" and laws: "hash_laws L"
  shows "keeps ch (serve_channel L env pac ch)"
proof -
  obtain ch1 out1 where 1: "snd (writeToPong L env ch) = (ch1, out1)" by fastforce
  obtain ch2 out2 where 2: "serve_ack (we_now env) pac ch = (ch2, out2)" by fastforce
  obtain ch3 out3 b where 3: "serve_data L env pac ch = (ch3, out3, b)" "keeps ch (ch3, out3)"
    using serve_data_ok [OF ok laws] by blast
  have "keeps ch (ch1, out1)" "keeps ch (ch2, out2)" "keeps ch (ch, [])"
    using writeTo_control_ok(2) [OF ok, of L env] serve_ack_ok [OF ok, of "we_now env" pac] 1 2 ok
    by (simp_all add: keeps_def)
  with 1 2 3 show ?thesis
    by (auto simp: serve_channel_def Let_def split_def keeps_stat)
qed

lemma sq_ok_timer [simp]: "sq_ok (q\<lparr>sq_timer := t\<rparr>) = sq_ok q"
  by (simp add: sq_ok_def)

lemma channel_retransmit_ok:
  assumes ok: "channel_ok ch"
  shows "keeps ch (fst (channel_retransmit now ch), fst (snd (channel_retransmit now ch)))"
proof -
  obtain es sent dead where run: "retransmit_loop now (setRetransmitTime now ch) (sq_queue (c_sendQueue ch)) = (es, sent, dead)"
    by (metis prod.collapse)
  have "sq_ok ((c_sendQueue ch)\<lparr>sq_queue := es\<rparr>)"
    using retransmit_loop_frame [of "setRetransmitTime now ch" now "sq_queue (c_sendQueue ch)"] run
    by (intro sq_ok_views [OF channel_okD(3) [OF ok]]) simp_all
  then have q: "sq_ok (sq_retransmit_arm now ((c_sendQueue ch)\<lparr>sq_queue := es\<rparr>))"
    by (simp add: sq_retransmit_arm_def sq_ok_timer)
  have stat: "st_destroyed (fold (\<lambda>_. stat_setRetransmit) ps s) = st_destroyed s \<and>
      st_sendSpeed (fold (\<lambda>_. stat_setRetransmit) ps s) = st_sendSpeed s \<and>
      st_recvSpeed (fold (\<lambda>_. stat_setRetransmit) ps s) = st_recvSpeed s \<and>
      st_timer (fold (\<lambda>_. stat_setRetransmit) ps s) = st_timer s" for ps :: "packet list" and s
    by (induction ps arbitrary: s) (simp_all add: stat_setRetransmit_def)
  have out: "OPanic \<notin> OSend ` set sent"
    by auto
  show ?thesis
    using run q ok \<open>sq_ok ((c_sendQueue ch)\<lparr>sq_queue := es\<rparr>)\<close> out stat
    by (simp add: channel_retransmit_def keeps_def channel_ok_def timers_ok_def Let_def) (simp add: sq_retransmit_arm_def)
qed

subsection \<open>The connector's state\<close>

text \<open>What a channel operation's outputs add to the connector.\<close>

fun sends :: "out list \<Rightarrow> packet list" where
  "sends [] = []"
| "sends (OSend p # os) = p # sends os"
| "sends (_ # os) = sends os"

fun out_events :: "string \<Rightarrow> out list \<Rightarrow> event list" where
  "out_events a [] = []"
| "out_events a (OUdp bs # os) = EvUdp a bs # out_events a os"
| "out_events a (ODeliver f p # os) = EvDelivery f p None # out_events a os"
| "out_events a (OTimeout f p # os) = EvDelivery f p (Some ErrDeliveryTimeout) # out_events a os"
| "out_events a (OPanic # os) = EvPanic # out_events a os"
| "out_events a (_ # os) = out_events a os"

lemma emit_eq:
  "emit r outs tru = tru\<lparr>t_senderCh := t_senderCh tru @ map (Pair r) (sends outs),
     t_readerCh := t_readerCh tru @ map (Pair r) (reads outs),
     t_events := t_events tru @ out_events (c_addr (get_ch tru r)) outs\<rparr>"
proof (induction outs arbitrary: tru)
  case (Cons o' outs)
  then show ?case by (cases o') (simp_all add: emit_def tell_def)
qed (simp add: emit_def)

lemma out_events_panic: "EvPanic \<in> set (out_events a outs) \<longleftrightarrow> OPanic \<in> set outs"
  by (induction a outs rule: out_events.induct) auto

definition panicked :: "tru \<Rightarrow> bool" where
  "panicked tru \<longleftrightarrow> EvPanic \<in> set (t_events tru)"

lemma panicked_emit [simp]: "panicked (emit r outs tru) \<longleftrightarrow> panicked tru \<or> OPanic \<in> set outs"
  by (simp add: panicked_def emit_eq out_events_panic)

lemma panicked_tell [simp]: "panicked (tell es tru) \<longleftrightarrow> panicked tru \<or> EvPanic \<in> set es"
  by (auto simp: panicked_def tell_def)

lemma panicked_frame [simp, frame_simps]:
  "panicked (put_ch r ch tru) = panicked tru" "panicked (log_msg env msg tru) = panicked tru"
  "panicked (tru\<lparr>t_channels := m\<rparr>) = panicked tru" "panicked (tru\<lparr>t_heap := h\<rparr>) = panicked tru"
  "panicked (tru\<lparr>t_connects := c\<rparr>) = panicked tru" "panicked (tru\<lparr>t_privateKey := k\<rparr>) = panicked tru"
  "panicked (connect_put u cd tru) = panicked tru"
  "panicked (tru\<lparr>t_readerCh := q\<rparr>) = panicked tru" "panicked (tru\<lparr>t_senderCh := q\<rparr>) = panicked tru"
  by (simp_all add: panicked_def put_ch_def log_msg_def connect_put_def)

lemma panicked_destroy [simp, frame_simps]: "panicked (destroy env msg r tru) = panicked tru"
  by (auto simp: destroy_def Let_def destroy_events_def split: option.split)

lemma panicked_newCrypt [simp, frame_simps]: "panicked (snd (newCrypt env tru)) = panicked tru"
  by (simp add: newCrypt_def split: option.split)

lemma panicked_newChannel [simp, frame_simps]: "panicked (snd (newChannel env a sm tru)) = panicked tru"
proof -
  obtain x t1 where 1: "newCrypt env (log_msg env (''new channel '' @ a) tru) = (x, t1)" by fastforce
  then have "panicked t1 = panicked tru"
    by (metis panicked_newCrypt panicked_frame(2) snd_conv)
  with 1 show ?thesis
    by (auto simp: newChannel_def Let_def split: sum.split option.split)
qed

subsection \<open>The invariant\<close>

lemma tru_okD:
  assumes "tru_ok tru"
  shows "r < length (t_heap tru) \<Longrightarrow> channel_ok (get_ch tru r)"
    "gm_ok (t_channels tru)"
    "gm_get (t_channels tru) a = Some r \<Longrightarrow>
       r < length (t_heap tru) \<and> c_addr (get_ch tru r) = a \<and> \<not> st_destroyed (c_stat (get_ch tru r))"
    "x \<in> set (t_readerCh tru) \<union> set (t_senderCh tru) \<Longrightarrow> fst x < length (t_heap tru)"
    "gm_get (t_connects tru) u = Some cd \<Longrightarrow> cd_ch cd = Some r \<or> cd_wch cd = WSent (Some r) \<Longrightarrow> r < length (t_heap tru)"
  using assms by (auto simp: tru_ok_def)

lemma get_put [simp, frame_simps]:
  "get_ch (put_ch r ch tru) x = (if x = r \<and> r < length (t_heap tru) then ch else get_ch tru x)"
  by (cases "r < length (t_heap tru)") (auto simp: put_ch_def list_update_beyond)

lemma tru_ok_put [inv_intros]:
  assumes "tru_ok tru" "keeps (get_ch tru r) (ch, out)"
  shows "tru_ok (put_ch r ch tru)"
proof -
  have "channel_ok c" if "c \<in> set ((t_heap tru)[r := ch])" for c
    using that assms set_update_subset_insert [of "t_heap tru" r ch] by (auto simp: tru_ok_def keeps_def)
  moreover have "c_addr ((t_heap tru)[r := ch] ! x) = c_addr (get_ch tru x)"
    "st_destroyed (c_stat ((t_heap tru)[r := ch] ! x)) = st_destroyed (c_stat (get_ch tru x))" for x
    using get_put [of r ch tru x] assms(2) by (auto simp: put_ch_def keeps_def)
  ultimately show ?thesis
    using assms(1) by (simp add: tru_ok_def put_ch_def)
qed

lemma tru_ok_emit [inv_intros]: "tru_ok tru \<Longrightarrow> r < length (t_heap tru) \<Longrightarrow> tru_ok (emit r outs tru)"
  by (auto simp: tru_ok_def emit_eq)

lemma tru_ok_tell [simp, inv_intros]: "tru_ok (tell es tru) = tru_ok tru"
  by (simp add: tru_ok_def tell_def)

lemma tru_ok_log [simp, inv_intros]: "tru_ok (log_msg env msg tru) = tru_ok tru"
  by (simp add: tru_ok_def log_msg_def)

lemma heap_frame [simp, frame_simps]:
  "length (t_heap (put_ch r ch tru)) = length (t_heap tru)" "t_heap (emit r outs tru) = t_heap tru"
  "t_heap (tell es tru) = t_heap tru" "t_heap (log_msg env msg tru) = t_heap tru"
  by (simp_all add: put_ch_def emit_eq tell_def log_msg_def)

lemma channel_ok_stop: "channel_ok ch \<Longrightarrow> channel_ok (channel_stop ch)"
  by (simp add: channel_ok_def channel_stop_def timers_ok_def stat_destroy_def sq_destroy_def speed_ok_timer)

lemma channel_stop_addr [simp]: "c_addr (channel_stop ch) = c_addr ch"
  by (simp add: channel_stop_def)

lemma tru_ok_destroy [inv_intros]:
  assumes ok: "tru_ok tru" and r: "r < length (t_heap tru)"
  shows "tru_ok (destroy env msg r tru)"
proof -
  have "channel_ok c" if "c \<in> set ((t_heap tru)[r := channel_stop (get_ch tru r)])" for c
    using that ok channel_ok_stop [OF tru_okD(1) [OF ok r]] set_update_subset_insert [of "t_heap tru" r]
    by (auto simp: tru_ok_def)
  then show ?thesis
    using ok r by (auto simp: tru_ok_def destroy_def put_ch_def tell_def log_msg_def Let_def nth_list_update)
qed

lemma destroy_heap [simp, frame_simps]: "length (t_heap (destroy env msg r tru)) = length (t_heap tru)"
  by (simp add: destroy_def Let_def)

lemma make_channel_ok: "channel_ok (make_channel now tru a sm c)"
  by (simp add: channel_ok_def make_channel_def Let_def timers_ok_def stat_init_def stat_zero_def stat_armActivity_def
      stat_setLastActivity_def sq_init_def sq_retransmit_arm_def sq_empty_def sq_ok_def rq.inv_empty
      speed_ok_timer id_ok_iff combine_ok_def combine_clear_def)

lemma make_channel_fields [simp]:
  "c_addr (make_channel now tru a sm c) = a" "\<not> st_destroyed (c_stat (make_channel now tru a sm c))"
  by (simp_all add: make_channel_def Let_def stat_init_def stat_zero_def stat_armActivity_def stat_setLastActivity_def)

lemma newCrypt_frame:
  "newCrypt env tru = (res, tru') \<Longrightarrow> tru' = tru\<lparr>t_privateKey := t_privateKey tru'\<rparr>"
  by (auto simp: newCrypt_def split: option.splits)

lemma newChannel_cases:
  assumes "newChannel env a sm tru = (res, tru')"
  obtains (error) e where "res = Inl e" "tru_ok tru \<Longrightarrow> tru_ok tru'" "t_heap tru' = t_heap tru"
    | (new) r where "res = Inr r" "r = length (t_heap tru)" "length (t_heap tru') = Suc r"
      "tru_ok tru \<Longrightarrow> tru_ok tru'" "t_connects tru' = t_connects tru" "c_addr (get_ch tru' r) = a"
      "\<not> st_destroyed (c_stat (get_ch tru' r))" "getChannel a tru' = Some r"
      "\<And>r'. r' < r \<Longrightarrow> get_ch tru' r' = get_ch tru r'"
proof -
  obtain x t1 where 1: "newCrypt env (log_msg env (''new channel '' @ a) tru) = (x, t1)" by fastforce
  define k where "k = t_privateKey t1"
  have t1: "t1 = (log_msg env (''new channel '' @ a) tru)\<lparr>t_privateKey := k\<rparr>"
    unfolding k_def by (rule newCrypt_frame [OF 1])
  have ok1: "tru_ok tru \<Longrightarrow> tru_ok t1"
    unfolding t1 by (simp add: tru_ok_def log_msg_def)
  show thesis
  proof (cases x)
    case (Inl e)
    with 1 assms have "res = Inl e" "tru' = t1" by (auto simp: newChannel_def)
    with ok1 show thesis by (intro error) (simp_all add: t1)
  next
    case (Inr c)
    define t2 where "t2 = t1\<lparr>t_heap := t_heap t1 @ [make_channel (te_now env) t1 a sm c],
      t_channels := gm_set a (length (t_heap t1)) (t_channels t1)\<rparr>"
    have res: "res = Inr (length (t_heap t1))" and t': "\<exists>es. tru' = tell es t2"
      using 1 Inr assms by (auto simp: newChannel_def Let_def t2_def tell_def split: option.splits if_splits
          intro: exI [of _ "[]"])
    have "tru_ok t2" if "tru_ok tru"
      using ok1 [OF that] unfolding t2_def
      by (auto simp: tru_ok_def make_channel_ok nth_append less_Suc_eq intro: gm_ok_set)
    then have ok: "tru_ok tru \<Longrightarrow> tru_ok tru'"
      using t' by auto
    have heap: "t_heap tru' = t_heap tru @ [make_channel (te_now env) t1 a sm c]"
      using t' by (auto simp: t2_def t1)
    have maps: "t_connects tru' = t_connects tru" "getChannel a tru' = Some (length (t_heap tru))"
      using t' by (auto simp: t2_def t1 getChannel_def tell_def log_msg_def)
    show thesis
      using res maps heap by (intro new [OF _ refl _ ok]) (simp_all add: t1 nth_append)
  qed
qed

subsection \<open>What every step keeps\<close>

text \<open>
  From \<open>tru\<close> to \<open>tru'\<close> the state stays well formed, channels are only added, and a channel keeps
  its address and never comes back from its destruction.
\<close>

definition evolves :: "tru \<Rightarrow> tru \<Rightarrow> bool" where
  "evolves tru tru' \<longleftrightarrow> tru_ok tru' \<and> length (t_heap tru) \<le> length (t_heap tru') \<and>
     (\<forall>r<length (t_heap tru). c_addr (get_ch tru' r) = c_addr (get_ch tru r) \<and>
        (st_destroyed (c_stat (get_ch tru r)) \<longrightarrow> st_destroyed (c_stat (get_ch tru' r))))"

lemma evolves_refl: "tru_ok tru \<Longrightarrow> evolves tru tru"
  by (simp add: evolves_def)

lemma evolves_trans: "evolves s t \<Longrightarrow> evolves t u \<Longrightarrow> evolves s u"
  by (auto simp: evolves_def)

lemma evolvesD:
  assumes "evolves s t"
  shows "tru_ok t" "length (t_heap s) \<le> length (t_heap t)" "r < length (t_heap s) \<Longrightarrow> r < length (t_heap t)"
  using assms by (auto simp: evolves_def)

lemma evolves_put: "evolves s t \<Longrightarrow> keeps (get_ch t r) (ch, out) \<Longrightarrow> evolves s (put_ch r ch t)"
  using tru_ok_put [of t r ch out] by (auto simp: evolves_def keeps_def)

lemma evolves_emit: "evolves s t \<Longrightarrow> r < length (t_heap t) \<Longrightarrow> evolves s (emit r out t)"
  using tru_ok_emit by (simp add: evolves_def)

lemma evolves_tell: "evolves s t \<Longrightarrow> evolves s (tell es t)"
  by (simp add: evolves_def)

lemma evolves_log: "evolves s t \<Longrightarrow> evolves s (log_msg env msg t)"
  by (simp add: evolves_def)

lemma destroy_get:
  "get_ch (destroy env msg r tru) x =
     (if x = r \<and> r < length (t_heap tru) then channel_stop (get_ch tru r) else get_ch tru x)"
  using get_put [of r "channel_stop (get_ch tru r)" "tell (destroy_events r tru) tru" x]
  by (simp add: destroy_def Let_def)

lemma evolves_destroy: "evolves s t \<Longrightarrow> r < length (t_heap t) \<Longrightarrow> evolves s (destroy env msg r t)"
  using tru_ok_destroy [of t r env msg] by (auto simp: evolves_def destroy_get channel_stop_def)

lemma evolves_new:
  assumes "evolves s t" "newChannel env a sm t = (res, t')"
  shows "evolves s t'"
  using assms(2)
proof (cases rule: newChannel_cases)
  case (error e)
  with assms(1) show ?thesis by (simp add: evolves_def)
next
  case (new r)
  with assms(1) show ?thesis by (auto simp: evolves_def)
qed

lemma newChannel_new:
  assumes "newChannel env a sm t = (Inr r, t')"
  shows "r < length (t_heap t')" "t_connects t' = t_connects t" "\<not> st_destroyed (c_stat (get_ch t' r))"
    "c_addr (get_ch t' r) = a" "getChannel a t' = Some r"
  using assms by (cases rule: newChannel_cases; simp)+

lemma evolves_connects:
  assumes "evolves s t" "\<And>u cd r. gm_get m u = Some cd \<Longrightarrow> cd_ch cd = Some r \<or> cd_wch cd = WSent (Some r) \<Longrightarrow> r < length (t_heap t)"
  shows "evolves s (t\<lparr>t_connects := m\<rparr>)"
  using assms by (auto simp: evolves_def tru_ok_def)

lemma evolves_connect_put:
  assumes "evolves s t" "\<And>r. cd_ch cd = Some r \<or> cd_wch cd = WSent (Some r) \<Longrightarrow> r < length (t_heap t)"
  shows "evolves s (connect_put u cd t)"
  unfolding connect_put_def
  using assms(2) tru_okD(5) [OF evolvesD(1) [OF assms(1)]]
  by (intro evolves_connects [OF assms(1)]) (auto split: if_splits)

lemma evolves_connect_delete: "evolves s t \<Longrightarrow> evolves s (connect_delete u t)"
  unfolding connect_delete_def
  using tru_okD(5) [OF evolvesD(1), of s t]
  by (intro evolves_connects) (auto split: if_splits)

lemma evolves_connect_close: "evolves s t \<Longrightarrow> evolves s (connect_close u t)"
  using tru_okD(5) [OF evolvesD(1), of s t]
  by (auto simp: connect_close_def connect_get_def split: option.split intro!: evolves_connect_put)

lemma connect_put_frame [simp, frame_simps]: "t_heap (connect_put u cd t) = t_heap t"
  by (simp add: connect_put_def)

lemma keeps_session: "channel_ok ch \<Longrightarrow> keeps ch (ch\<lparr>c_crypt := c\<rparr>, [])"
  by (simp add: keeps_def channel_ok_def timers_ok_def)

subsection \<open>The handlers of the handshake\<close>

lemma serve_connect_ok:
  assumes "evolves s t"
  shows "evolves s (snd (serve_connect L env a pac t)) \<and>
     (panicked (snd (serve_connect L env a pac t)) \<longleftrightarrow> panicked t)"
proof -
  obtain res t1 where 1: "newChannel env a True t = (res, t1)" by fastforce
  have "panicked t1 = panicked t" using panicked_newChannel [of env a True t] 1 by simp
  then show ?thesis
    using assms evolves_new [OF assms 1] newChannel_new(1) [of env a True t _ t1] 1
    by (auto simp: serve_connect_def Let_def split: sum.split intro: evolves_emit)
qed

lemma serve_server_answer_ok:
  assumes "evolves s t"
  shows "evolves s (snd (serve_server_answer L env a pac t)) \<and>
     (panicked (snd (serve_server_answer L env a pac t)) \<longleftrightarrow> panicked t)"
proof -
  obtain res t1 where 1: "newChannel env a False t = (res, t1)" by fastforce
  have p: "panicked t1 = panicked t" using panicked_newChannel [of env a False t] 1 by simp
  have e: "evolves s t1" by (rule evolves_new [OF assms 1])
  show ?thesis
  proof (cases res)
    case (Inl e)
    with 1 p e assms show ?thesis
      by (auto simp: serve_server_answer_def split: sum.split option.split)
  next
    case (Inr r)
    have r: "r < length (t_heap t1)"
      using newChannel_new(1) 1 Inr by blast
    have put: "evolves s (connect_put u (cd\<lparr>cd_ch := Some r\<rparr>) t1)" if "connect_get u t = Some cd" for u cd
      using r that tru_okD(5) [OF evolvesD(1) [OF e], of u cd] newChannel_new(2) [of env a False t r t1] 1 Inr
      by (intro evolves_connect_put [OF e]) (auto simp: connect_get_def)
    have ok: "channel_ok (get_ch t1 r)"
      by (rule tru_okD(1) [OF evolvesD(1) [OF e] r])
    have fin: "evolves s (put_ch r ((get_ch t1 r)\<lparr>c_crypt := c\<rparr>) (emit r out (connect_put u (cd\<lparr>cd_ch := Some r\<rparr>) t1)))"
      if "connect_get u t = Some cd" for c out u cd
      using keeps_session [OF ok] r by (intro evolves_put [OF evolves_emit [OF put [OF that]]]) simp_all
    show ?thesis
      using 1 Inr p assms put fin
      by (auto simp: serve_server_answer_def Let_def split: sum.split option.split)
  qed
qed

lemma getChannel_ok: "tru_ok tru \<Longrightarrow> getChannel a tru = Some r \<Longrightarrow> live tru r \<and> c_addr (get_ch tru r) = a"
  using tru_okD(3) by (simp add: getChannel_def)

lemma serve_client_answer_ok:
  assumes "evolves s t"
  shows "evolves s (snd (serve_client_answer L env a pac t)) \<and>
     (panicked (snd (serve_client_answer L env a pac t)) \<longleftrightarrow> panicked t)"
proof -
  have ok: "tru_ok t" by (rule evolvesD(1) [OF assms])
  have fin: "evolves s (emit r out (put_ch r ((get_ch t r)\<lparr>c_crypt := c\<rparr>) t))" if "getChannel a t = Some r" for c out r
    using getChannel_ok [OF ok that] keeps_session [OF tru_okD(1) [OF ok]]
    by (intro evolves_emit [OF evolves_put [OF assms]]) auto
  show ?thesis
    using assms fin by (auto simp: serve_client_answer_def Let_def split: sum.split option.split)
qed

text \<open>A connect packet panics only when it is a second \<open>done\<close> for a connection still in the table.\<close>

definition done_twice :: "packet \<Rightarrow> tru \<Rightarrow> bool" where
  "done_twice pac tru \<longleftrightarrow> p_status pac = statusConnectDone \<and>
     (case connect_unmarshal (p_data pac) of
        Inl e \<Rightarrow> False
      | Inr cp \<Rightarrow> (case connect_get (cp_uuid cp) tru of None \<Rightarrow> False | Some cd \<Rightarrow> cd_wch cd \<noteq> WWaiting))"

lemma serve_done_ok:
  assumes "evolves s t" "p_status pac = statusConnectDone"
  shows "evolves s (snd (serve_done pac t)) \<and> (panicked (snd (serve_done pac t)) \<longleftrightarrow> panicked t \<or> done_twice pac t)"
  using assms tru_okD(5) [OF evolvesD(1) [OF assms(1)]]
  by (auto simp: serve_done_def done_twice_def connect_get_def split: sum.split option.split
      intro: evolves_tell intro!: evolves_connect_put)

lemma connect_serve_ok:
  assumes "evolves s t"
  shows "evolves s (snd (connect_serve L env a pac t)) \<and>
     (panicked (snd (connect_serve L env a pac t)) \<longleftrightarrow> panicked t \<or> done_twice pac t)"
  using serve_connect_ok [OF assms] serve_server_answer_ok [OF assms] serve_client_answer_ok [OF assms]
    serve_done_ok [OF assms] assms
  by (simp add: connect_serve_def) (auto simp: done_twice_def)

subsection \<open>Serving a datagram\<close>

lemma evolves_channel_op:
  assumes "evolves s t" "r < length (t_heap t)" "keeps (get_ch t r) (ch, out)"
  shows "evolves s (emit r out (put_ch r ch t))" "panicked (emit r out (put_ch r ch t)) = panicked t"
  using assms evolves_emit [OF evolves_put [OF assms(1,3)], of r] by (auto simp: keeps_def)

text \<open>The datagrams on which \<open>serve\<close> panics.\<close>

definition fatal :: "tenv \<Rightarrow> bytes \<Rightarrow> tru \<Rightarrow> bool" where
  "fatal env bs tru \<longleftrightarrow> (case unmarshalBinary bs (newPacket (te_now env)) of Inl e \<Rightarrow> False | Inr pac \<Rightarrow> done_twice pac tru)"

lemma serve_handshake_ok:
  assumes ok: "tru_ok tru" and ch: "\<And>r. ch = Some r \<Longrightarrow> r < length (t_heap tru)"
    and t: "t = (case ch of Some r \<Rightarrow> if p_status pac = statusConnect then destroy env (m r) r tru else tru | None \<Rightarrow> tru)"
    and c: "connect_serve L env a pac t = (err, t')"
  shows "evolves tru t' \<and> (\<forall>r. ch = Some r \<longrightarrow> r < length (t_heap t')) \<and> (panicked t' \<longleftrightarrow> panicked tru \<or> done_twice pac tru)"
proof -
  have 1: "evolves tru t" "panicked t = panicked tru"
    using ch by (auto simp: t evolves_refl [OF ok] intro!: evolves_destroy split: option.split)
  have "done_twice pac t = done_twice pac tru"
    by (auto simp: done_twice_def t split: option.split sum.split)
  then show ?thesis
    using connect_serve_ok [OF 1(1), of L env a pac] c 1(2) evolvesD(2,3) [of tru t'] ch by auto
qed

lemma serve_ok:
  assumes ok: "tru_ok tru" and laws: "hash_laws L"
  shows "evolves tru (serve L env a bs tru) \<and> (panicked (serve L env a bs tru) \<longleftrightarrow> panicked tru \<or> fatal env bs tru)"
proof (cases "unmarshalBinary bs (newPacket (te_now env))")
  case (Inl e)
  then show ?thesis by (simp add: serve_def fatal_def evolves_refl [OF ok])
next
  case (Inr pac)
  let ?ch = "getChannel a tru" and ?s = "p_status pac"
  have ch: "r < length (t_heap tru)" if "?ch = Some r" for r
    using getChannel_ok [OF ok that] by blast
  show ?thesis
  proof (cases "?s = statusConnect \<or> ?s = statusConnectServerAnswer \<or> ?s = statusConnectClientAnswer \<or> ?s = statusConnectDone")
    case True
    define t where "t = (case ?ch of Some r \<Rightarrow> if ?s = statusConnect
      then destroy env (''channel reconnect, destroy '' @ c_addr (get_ch tru r)) r tru else tru | None \<Rightarrow> tru)"
    obtain err t' where c: "connect_serve L env a pac t = (err, t')" by fastforce
    have 1: "evolves tru t'" "\<And>r. ?ch = Some r \<Longrightarrow> r < length (t_heap t')" "panicked t' \<longleftrightarrow> panicked tru \<or> done_twice pac tru"
      using serve_handshake_ok [OF ok ch t_def c] by blast+
    have "serve L env a bs tru = (case (?ch, err) of
        (Some r, Some e) \<Rightarrow> destroy env (''channel connection error, destroy '' @ c_addr (get_ch t' r)) r t' | _ \<Rightarrow> t')"
      using Inr True c unfolding serve_def t_def by (simp add: Let_def)
    with 1 Inr show ?thesis
      by (auto simp: fatal_def intro!: evolves_destroy split: option.split)
  next
    case False
    then have nf: "\<not> fatal env bs tru" by (simp add: fatal_def done_twice_def Inr split: sum.split)
    have op: "evolves tru (case ch' of (c, out) \<Rightarrow> emit r out (put_ch r c tru)) \<and>
        panicked (case ch' of (c, out) \<Rightarrow> emit r out (put_ch r c tru)) = panicked tru"
      if "?ch = Some r" "ch' = serve_channel L (te_wenv env) pac (get_ch tru r)" for r ch'
    proof -
      obtain c out where c: "ch' = (c, out)" by fastforce
      have "keeps (get_ch tru r) (c, out)"
        using serve_channel_ok [OF tru_okD(1) [OF ok ch [OF that(1)]] laws, of "te_wenv env" pac] that(2) c by simp
      from evolves_channel_op [OF evolves_refl [OF ok] ch [OF that(1)] this] show ?thesis
        by (simp add: c)
    qed
    consider "?s = statusPunch" | "?s \<noteq> statusPunch" "?ch = None" | r where "?s \<noteq> statusPunch" "?ch = Some r"
      by fastforce
    then show ?thesis
    proof cases
      case 1
      then show ?thesis
        using Inr nf evolves_refl [OF ok] by (simp add: serve_def evolves_tell split: option.split)
    next
      case 2
      then show ?thesis
        using False Inr nf evolves_refl [OF ok] by (simp add: serve_def)
    next
      case 3
      have "serve L env a bs tru =
          (if ?s = statusDisconnect then destroy env (''channel disconnect received, destroy '' @ c_addr (get_ch tru r)) r tru
           else case serve_channel L (te_wenv env) pac (get_ch tru r) of (c, out) \<Rightarrow> emit r out (put_ch r c tru))"
        unfolding serve_def using 3 False Inr by (simp add: Let_def)
      then show ?thesis
        using op [OF 3(2) refl] nf evolves_destroy [OF evolves_refl [OF ok] ch [OF 3(2)]] by simp
    qed
  qed
qed

end
