(* ===== verification/System.thy ===== *)
theory System
  imports Invariants
begin

section \<open>The connector as a state machine\<close>

text \<open>
  The steps of one connector: a datagram from the listener, a turn of the reader or the sender
  goroutine, a timer that fires, and the calls of the application.  \<open>Close\<close> of the connector is cut
  into its beginning, a turn of its loop and its end, which come in any order with the other steps.
  The function of a timer arms it again in the same step; that a destroy comes in between is
  \<open>step_rearm\<close>, which any destroyed channel may take at any time.  A write is one step here; its
  turns are in \<open>Writers\<close>.  A reachable state is one that a run of steps leads to from \<open>New\<close>; what
  holds in all of them is proved by rule induction over the lemmas of \<open>Invariants\<close>.
\<close>

subsection \<open>Steps\<close>

text \<open>
  What a step says of itself: what the listener read, the packet that the reader goroutine took, the
  message written on a channel (with nonces and delivery arguments that cannot fail, or not), the
  datagram that the application sent on its own.
\<close>

datatype act =
    Internal
  | Received read_from
  | Took "(nat \<times> packet) option"
  | Wrote nat bytes bool
  | SentRaw bytes

inductive tru_act :: "crypto \<Rightarrow> act \<Rightarrow> tru \<Rightarrow> tru \<Rightarrow> bool" for L where
  step_listen: "listen_turn L env res tru = Some tru' \<Longrightarrow> tru_act L (Received res) tru tru'"
| step_reader: "tru_act L (Took (if t_readerCh tru = [] then None else Some (hd (t_readerCh tru)))) tru (reader_step processed tru)"
| step_sender: "tru_act L Internal tru (sender_step tru)"
| step_activity: "r < length (t_heap tru) \<Longrightarrow> st_timer (c_stat (get_ch tru r)) = Armed t \<Longrightarrow> t \<le> te_now env \<Longrightarrow>
    tru_act L Internal tru (activity_timer L env r tru)"
| step_retransmit: "r < length (t_heap tru) \<Longrightarrow> sq_timer (c_sendQueue (get_ch tru r)) = Armed t \<Longrightarrow> t \<le> te_now env \<Longrightarrow>
    tru_act L Internal tru (retransmit_timer env r tru)"
| step_delivery: "r < length (t_heap tru) \<Longrightarrow> tru_act L Internal tru (delivery_step env r e tru)"
| step_late_delivery: "r < length (t_heap tru) \<Longrightarrow> tru_act L Internal tru (late_delivery_step env r i tru)"
| step_rearm: "r < length (t_heap tru) \<Longrightarrow> st_destroyed (c_stat (get_ch tru r)) \<Longrightarrow>
    tru_act L Internal tru (put_ch r (late_rearm now k (get_ch tru r)) tru)"
| step_send_speed: "r < length (t_heap tru) \<Longrightarrow> sp_timer (st_sendSpeed (c_stat (get_ch tru r))) = Armed t \<Longrightarrow> t \<le> now \<Longrightarrow>
    tru_act L Internal tru (put_ch r (send_speed_timer now (get_ch tru r)) tru)"
| step_recv_speed: "r < length (t_heap tru) \<Longrightarrow> sp_timer (st_recvSpeed (c_stat (get_ch tru r))) = Armed t \<Longrightarrow> t \<le> now \<Longrightarrow>
    tru_act L Internal tru (put_ch r (recv_speed_timer now (get_ch tru r)) tru)"
| step_set_reader: "r < length (t_heap tru) \<Longrightarrow> tru_act L Internal tru (setReader f r tru)"
| step_stat_print: "tru_act L Internal tru (StatisticPrint now tru)"
| step_stat_stop: "tru_act L Internal tru (StatisticPrintStop tru)"
| step_minilog: "tru_act L Internal tru (snd (StatisticMinilog tru))"
| step_write: "r < length (t_heap tru) \<Longrightarrow>
    tru_act L (Wrote r data ((\<forall>k. env_ok (envs k)) \<and> delivery_ok ds)) tru (snd (tru_channel_WriteTo L envs r data ds tru))"
| step_close: "r < length (t_heap tru) \<Longrightarrow> tru_act L Internal tru (channel_Close L env r tru)"
| step_connect: "tru_act L Internal tru (snd (Connect_start L env uuid addr tru))"
| step_connected: "connect_wait timedout uuid tru = Some res \<Longrightarrow> tru_act L Internal tru (snd (Connect_finish reader res tru))"
| step_connect_close: "tru_act L Internal tru (connect_close uuid tru)"
| step_connect_delete: "tru_act L Internal tru (connect_delete uuid tru)"
| step_raw: "tru_act L (SentRaw data) tru (snd (tru_WriteTo resolve data addri tru))"
| step_maxlen: "tru_act L Internal tru (SetMaxDataLen m tru)"
| step_delay: "tru_act L Internal tru (SetSendDelay d tru)"
| step_punchcb: "tru_act L Internal tru (SetPunchCb f tru)"
| step_close_begin: "tru_act L Internal tru (close_begin tru)"
| step_close_key: "tru_act L Internal tru (each_channel (channel_Close L env) a tru)"
| step_close_end: "tru_act L Internal tru (close_end tru)"

inductive_cases tru_actE: "tru_act L l tru tru'"

definition tru_step :: "crypto \<Rightarrow> tru \<Rightarrow> tru \<Rightarrow> bool" where
  "tru_step L tru tru' \<longleftrightarrow> (\<exists>l. tru_act L l tru tru')"

lemma tru_stepI: "tru_act L l tru tru' \<Longrightarrow> tru_step L tru tru'"
  by (auto simp: tru_step_def)

inductive reachable :: "crypto \<Rightarrow> tru \<Rightarrow> bool" for L where
  reach_new: "New env listen params = (None, tru) \<Longrightarrow> reachable L tru"
| reach_step: "reachable L tru \<Longrightarrow> tru_step L tru tru' \<Longrightarrow> reachable L tru'"

subsection \<open>Each step keeps the invariant\<close>

lemma evolves_frame:
  assumes "evolves s t" "t_heap u = t_heap t" "t_channels u = t_channels t" "t_connects u = t_connects t"
    "set (t_readerCh u) \<subseteq> set (t_readerCh t)" "set (t_senderCh u) \<subseteq> set (t_senderCh t)"
  shows "evolves s u"
proof -
  have "fst x < length (t_heap t)" if "x \<in> set (t_readerCh u) \<union> set (t_senderCh u)" for x
    using that assms(5,6) tru_okD(4) [OF evolvesD(1) [OF assms(1)], of x] by blast
  then show ?thesis
    using assms(1-4) unfolding evolves_def tru_ok_def by simp
qed

lemma reader_step_ok:
  assumes "tru_ok tru"
  shows "evolves tru (reader_step processed tru) \<and> panicked (reader_step processed tru) = panicked tru"
proof (cases "t_readerCh tru")
  case Nil
  with assms show ?thesis by (simp add: reader_step_def evolves_refl)
next
  case (Cons x rest)
  have "evolves tru (tru\<lparr>t_readerCh := rest\<rparr>)"
    using Cons by (intro evolves_frame [OF evolves_refl [OF assms]]) auto
  with Cons show ?thesis
    by (cases x) (auto simp: reader_step_def Let_def intro: evolves_tell split: option.splits)
qed

lemma sender_step_ok:
  assumes "tru_ok tru"
  shows "evolves tru (sender_step tru) \<and> panicked (sender_step tru) = panicked tru"
proof (cases "t_senderCh tru")
  case Nil
  with assms show ?thesis by (simp add: sender_step_def evolves_refl)
next
  case (Cons x rest)
  have "evolves tru (tru\<lparr>t_senderCh := rest\<rparr>)"
    using Cons by (intro evolves_frame [OF evolves_refl [OF assms]]) auto
  with Cons show ?thesis
    by (cases x) (auto simp: sender_step_def Let_def intro: evolves_tell)
qed

lemma channel_WriteTo_keeps:
  assumes "channel_ok ch" "channel_WriteTo L envs ch data ds = (res, ch', out)"
  shows "keeps ch (ch', out)"
proof -
  have "OPanic \<notin> set (fst (snd (snd (split_loop (channel_writer L envs ds) (split_limit (c_maxDataLen ch)) 0 0 data (ch, [], 0)))))"
    by (rule split_loop_keeps [where P = "\<lambda>st. OPanic \<notin> set (fst (snd st))"])
      (auto simp: channel_writer_def writeTo_def writeTo_packet_def newID_def Let_def split_def split: sum.splits)
  then have "OPanic \<notin> set out"
    using assms(2) by (simp add: channel_WriteTo_def splitPacket_def split_def)
  then show ?thesis
    using channel_ok_WriteTo [OF assms(1), of L envs data ds] channel_WriteTo_addr [of L envs ch data ds]
      channel_WriteTo_destroyed [of L envs ch data ds] assms(2)
    by (simp add: keeps_def)
qed

lemma tru_channel_WriteTo_ok:
  assumes "tru_ok tru" "r < length (t_heap tru)"
  shows "evolves tru (snd (tru_channel_WriteTo L envs r data ds tru)) \<and>
     panicked (snd (tru_channel_WriteTo L envs r data ds tru)) = panicked tru"
proof -
  obtain res ch out where w: "channel_WriteTo L envs (get_ch tru r) data ds = (res, ch, out)"
    by (metis prod.collapse)
  show ?thesis
    using evolves_channel_op [OF evolves_refl [OF assms(1)] assms(2) channel_WriteTo_keeps [OF tru_okD(1) [OF assms] w]]
    by (simp add: tru_channel_WriteTo_def w)
qed

lemma channel_Close_ok:
  assumes "evolves s tru" "r < length (t_heap tru)"
  shows "evolves s (channel_Close L env r tru) \<and> panicked (channel_Close L env r tru) = panicked tru"
proof -
  have ok: "channel_ok (get_ch tru r)" by (rule tru_okD(1) [OF evolvesD(1) [OF assms(1)] assms(2)])
  obtain res ch out where w: "writeToDisconnect L (te_wenv env) (get_ch tru r) = (res, ch, out)"
    by (metis prod.collapse)
  then have "keeps (get_ch tru r) (ch, out)"
    using writeTo_control_ok(4) [OF ok, of L "te_wenv env"] by simp
  from evolves_channel_op [OF assms this] show ?thesis
    using assms by (auto simp: channel_Close_def Let_def w intro!: evolves_destroy)
qed

lemma keeps_armActivity:
  "channel_ok ch \<Longrightarrow> keeps ch (ch\<lparr>c_stat := stat_armActivity now (c_stat ch)\<rparr>, [])"
  by (simp add: keeps_def channel_ok_def timers_ok_def stat_armActivity_def)

lemma channel_op_ok:
  assumes "tru_ok tru" "r < length (t_heap tru)" "keeps (get_ch tru r) (ch, [])"
  shows "evolves tru (put_ch r ch tru) \<and> panicked (put_ch r ch tru) = panicked tru"
  using evolves_put [OF evolves_refl [OF assms(1)] assms(3)] by simp

lemma keeps_reader: "channel_ok ch \<Longrightarrow> keeps ch (ch\<lparr>c_reader := f\<rparr>, [])"
  by (simp add: keeps_def channel_ok_def timers_ok_def)

lemma keeps_speed_timers:
  "channel_ok ch \<Longrightarrow> keeps ch (send_speed_timer now ch, [])"
  "channel_ok ch \<Longrightarrow> keeps ch (recv_speed_timer now ch, [])"
  by (simp_all add: keeps_def channel_ok_def timers_ok_def send_speed_timer_def recv_speed_timer_def speed_tick_def
      speed_ok_timer speed_ok_add)

lemma late_rearm_ok: "channel_ok ch \<Longrightarrow> keeps ch (late_rearm now k ch, [])"
  by (cases k) (simp_all add: keeps_def channel_ok_def timers_ok_def stat_armActivity_def
      sq_retransmit_arm_def speed_ok_timer)

lemma late_delivery_ok: "channel_ok ch \<Longrightarrow> keeps ch (late_delivery now i ch)"
  by (auto simp: late_delivery_def keeps_def channel_ok_def timers_ok_def Let_def split: option.split timer.split)

lemma delivery_timer_ok:
  assumes "channel_ok ch"
  shows "keeps ch (delivery_timer now e ch)"
proof -
  let ?es = "map (\<lambda>(x, p). (x, if x = e then p\<lparr>p_deliveryTimer := Stopped\<rparr> else p)) (sq_queue (c_sendQueue ch))"
  have "sq_ok ((c_sendQueue ch)\<lparr>sq_queue := ?es\<rparr>)"
    by (rule sq_ok_views [OF channel_okD(3) [OF assms]]) (auto simp: wire_of_def)
  then show ?thesis
    using assms
    by (auto simp: delivery_timer_def keeps_def channel_ok_def timers_ok_def Let_def split: option.split timer.split)
qed

lemma delivery_step_ok:
  assumes "tru_ok tru" "r < length (t_heap tru)"
  shows "evolves tru (delivery_step env r e tru) \<and> panicked (delivery_step env r e tru) = panicked tru"
proof -
  obtain ch out where d: "delivery_timer (te_now env) e (get_ch tru r) = (ch, out)" by fastforce
  have "keeps (get_ch tru r) (ch, out)"
    using delivery_timer_ok [OF tru_okD(1) [OF assms], of "te_now env" e] d by simp
  from evolves_channel_op [OF evolves_refl [OF assms(1)] assms(2) this] show ?thesis
    by (simp add: delivery_step_def d)
qed

lemma late_delivery_step_ok:
  assumes "tru_ok tru" "r < length (t_heap tru)"
  shows "evolves tru (late_delivery_step env r i tru) \<and> panicked (late_delivery_step env r i tru) = panicked tru"
proof -
  obtain ch out where d: "late_delivery (te_now env) i (get_ch tru r) = (ch, out)" by fastforce
  have "keeps (get_ch tru r) (ch, out)"
    using late_delivery_ok [OF tru_okD(1) [OF assms], of "te_now env" i] d by simp
  from evolves_channel_op [OF evolves_refl [OF assms(1)] assms(2) this] show ?thesis
    by (simp add: late_delivery_step_def d)
qed

lemma activity_timer_ok:
  assumes "tru_ok tru" "r < length (t_heap tru)"
  shows "evolves tru (activity_timer L env r tru) \<and> panicked (activity_timer L env r tru) = panicked tru"
proof -
  let ?ch = "get_ch tru r"
  have ok: "channel_ok ?ch" by (rule tru_okD(1) [OF assms(1,2)])
  note e = evolves_refl [OF assms(1)]
  have rearm: "evolves tru (put_ch r ((get_ch t r)\<lparr>c_stat := stat_armActivity now (c_stat (get_ch t r))\<rparr>) t)"
    if "evolves tru t" for t now
    using evolves_put [OF that] keeps_armActivity tru_okD(1) [OF evolvesD(1) [OF that]]
      evolvesD(3) [OF that assms(2)] by blast
  obtain res ch out where w: "writeToPing L (te_wenv env) ?ch = (res, ch, out)"
    by (metis prod.collapse)
  then have k: "keeps ?ch (ch, out)"
    using writeTo_control_ok(3) [OF ok, of L "te_wenv env"] by simp
  have 1: "evolves tru (emit r out (put_ch r ch tru))" "panicked (emit r out (put_ch r ch tru)) = panicked tru"
    by (rule evolves_channel_op [OF e assms(2) k])+
  show ?thesis
    using rearm [OF 1(1)] rearm [OF e] 1(2) evolves_destroy [OF e assms(2)]
    by (auto simp: activity_timer_def Let_def w split: activity.split)
qed

lemma retransmit_timer_ok:
  assumes "tru_ok tru" "r < length (t_heap tru)"
  shows "evolves tru (retransmit_timer env r tru) \<and> panicked (retransmit_timer env r tru) = panicked tru"
proof -
  obtain ch out dead where c: "channel_retransmit (te_now env) (get_ch tru r) = (ch, out, dead)"
    by (metis prod.collapse)
  then have "keeps (get_ch tru r) (ch, out)"
    using channel_retransmit_ok [OF tru_okD(1) [OF assms(1,2)], of "te_now env"] by simp
  from evolves_channel_op [OF evolves_refl [OF assms(1)] assms(2) this] assms(2) show ?thesis
    by (auto simp: retransmit_timer_def Let_def c intro!: evolves_destroy)
qed

lemma newCrypt_evolves:
  assumes "evolves s t" "newCrypt env t = (res, t')"
  shows "evolves s t' \<and> panicked t' = panicked t"
proof -
  have "evolves s (t\<lparr>t_privateKey := k\<rparr>)" for k
    by (rule evolves_frame [OF assms(1)]) simp_all
  then show ?thesis
    using panicked_newCrypt [of env t] assms(2) newCrypt_frame [OF assms(2)] by (metis snd_conv)
qed

lemma Connect_start_ok:
  assumes ok: "tru_ok tru"
  shows "evolves tru (snd (Connect_start L env uuid addr tru)) \<and>
     panicked (snd (Connect_start L env uuid addr tru)) = panicked tru"
proof -
  obtain res t where 1: "newCrypt env tru = (res, t)" by fastforce
  have t: "evolves tru t" "panicked t = panicked tru"
    using newCrypt_evolves [OF evolves_refl [OF ok] 1] by simp_all
  have add: "evolves tru (connect_add uuid t)"
    using evolves_connect_put [OF t(1), of "\<lparr>cd_uuid = uuid, cd_wch = WWaiting, cd_ch = None\<rparr>" uuid]
    by (simp add: connect_add_def connect_put_def)
  have p: "panicked (connect_delete uuid (connect_close uuid (connect_add uuid t))) = panicked tru"
    "panicked (connect_add uuid t) = panicked tru"
    using t(2) by (simp_all add: connect_delete_def connect_close_def connect_add_def split: option.split)
  show ?thesis
    using 1 t add evolves_connect_delete [OF evolves_connect_close [OF add]] p
    by (auto simp: Connect_start_def Let_def intro!: evolves_tell split: sum.split option.split)
qed

text \<open>Setting the reader panics exactly when the connection has handed over no channel.\<close>

lemma Connect_finish_ok:
  assumes ok: "tru_ok tru" and w: "connect_wait timedout uuid tru = Some res"
  shows "evolves tru (snd (Connect_finish reader res tru)) \<and>
     (panicked (snd (Connect_finish reader res tru)) \<longleftrightarrow> panicked tru \<or> res = Connected None \<and> reader \<noteq> None)"
proof -
  have "channel_ok (get_ch tru r)" if "res = Connected (Some r)" for r
    using w that tru_okD(1,5) [OF ok]
    by (auto simp: connect_wait_def connect_get_def split: option.splits wchan.splits if_splits)
  then have "evolves tru (put_ch r ((get_ch tru r)\<lparr>c_reader := Some f\<rparr>) tru)" if "res = Connected (Some r)" for r f
    using that by (intro evolves_put [OF evolves_refl [OF ok], of _ _ "[]"])
      (simp add: keeps_def channel_ok_def timers_ok_def)
  then show ?thesis
    using evolves_refl [OF ok]
    by (auto simp: Connect_finish_def intro!: evolves_tell split: connect_result.split option.split)
qed

lemma channels_emit [simp, frame_simps]: "t_channels (emit r outs tru) = t_channels tru"
  by (simp add: emit_eq)

lemma channels_put [simp, frame_simps]: "t_channels (put_ch r ch tru) = t_channels tru"
  by (simp add: put_ch_def)

lemma channel_Close_channels:
  assumes "tru_ok tru" "getChannel a tru = Some r"
  shows "t_channels (channel_Close L env r tru) = gm_del a (t_channels tru)"
    "st_destroyed (c_stat (get_ch (channel_Close L env r tru) r))"
proof -
  have r: "live tru r" "c_addr (get_ch tru r) = a" by (rule getChannel_ok [OF assms, THEN conjunct1] getChannel_ok [OF assms, THEN conjunct2])+
  obtain res ch out where w: "writeToDisconnect L (te_wenv env) (get_ch tru r) = (res, ch, out)"
    by (metis prod.collapse)
  have "c_addr ch = a"
    using w r(2) by (metis writeToDisconnect_def writeTo_addr fst_conv snd_conv)
  then show "t_channels (channel_Close L env r tru) = gm_del a (t_channels tru)"
    using r w by (simp add: channel_Close_def Let_def destroy_def) (simp add: put_ch_def tell_def log_msg_def emit_eq)
  show "st_destroyed (c_stat (get_ch (channel_Close L env r tru) r))"
    using r w by (simp add: channel_Close_def Let_def destroy_get channel_stop_def)
qed

lemma channel_Close_listening [simp, frame_simps]: "t_listening (channel_Close L env r tru) = t_listening tru"
  by (simp add: channel_Close_def Let_def split_def destroy_def put_ch_def tell_def log_msg_def emit_eq)

text \<open>A turn of the loop of \<open>Close\<close> panics exactly when the address has no channel any more.\<close>

lemma each_channel_ok:
  assumes "evolves s tru"
  shows "evolves s (each_channel (channel_Close L env) a tru) \<and>
     (panicked (each_channel (channel_Close L env) a tru) \<longleftrightarrow> panicked tru \<or> getChannel a tru = None)"
proof (cases "getChannel a tru")
  case None
  then show ?thesis using evolves_tell [OF assms] by (simp add: each_channel_def)
next
  case (Some r)
  then have "r < length (t_heap tru)" using getChannel_ok [OF evolvesD(1) [OF assms]] by blast
  then show ?thesis using Some channel_Close_ok [OF assms] by (simp add: each_channel_def)
qed

text \<open>Closing every channel finds each of them and leaves none.\<close>

lemma close_all_keys:
  fixes L :: crypto and env :: tenv
  assumes "map fst (t_channels t) = ks" "evolves s t"
  defines "u \<equiv> fold (each_channel (channel_Close L env)) ks t"
  shows "evolves s u \<and> evolves t u \<and> panicked u = panicked t \<and> t_listening u = t_listening t \<and> t_channels u = [] \<and>
     (\<forall>a r. getChannel a t = Some r \<longrightarrow> st_destroyed (c_stat (get_ch u r)))"
  using assms(1,2) unfolding u_def
proof (induction ks arbitrary: t)
  case Nil
  then show ?case by (auto simp: getChannel_def evolvesD(1) evolves_refl)
next
  case (Cons a ks)
  let ?run = "fold (each_channel (channel_Close L env))"
  obtain r cs where cs: "t_channels t = (a, r) # cs"
    using Cons.prems(1) by (cases "t_channels t") auto
  have ok: "tru_ok t" by (rule evolvesD(1) [OF Cons.prems(2)])
  have get: "getChannel a t = Some r" by (simp add: getChannel_def cs)
  then have r: "r < length (t_heap t)" using getChannel_ok [OF ok] by blast
  let ?t = "channel_Close L env r t"
  have each: "each_channel (channel_Close L env) a t = ?t" by (simp add: each_channel_def get)
  have close: "evolves s ?t" "panicked ?t = panicked t" "evolves t ?t"
    using channel_Close_ok [OF Cons.prems(2) r] channel_Close_ok [OF evolves_refl [OF ok] r] by simp_all
  have del: "t_channels ?t = cs"
    using channel_Close_channels(1) [OF ok get] cs tru_okD(2) [OF ok] by (simp add: gm_ok_def)
  have IH: "evolves s (?run ks ?t)" "evolves ?t (?run ks ?t)" "panicked (?run ks ?t) = panicked ?t"
    "t_listening (?run ks ?t) = t_listening t" "t_channels (?run ks ?t) = []"
    "\<And>a r. getChannel a ?t = Some r \<Longrightarrow> st_destroyed (c_stat (get_ch (?run ks ?t) r))"
    using Cons.IH [OF _ close(1)] Cons.prems(1) cs del by simp_all
  have "st_destroyed (c_stat (get_ch (?run ks ?t) r))"
    using IH(2) channel_Close_channels(2) [OF ok get] evolvesD(3) [OF close(3) r] by (auto simp: evolves_def)
  then have "st_destroyed (c_stat (get_ch (?run ks ?t) x))" if "getChannel b t = Some x" for b x
    using that IH(6) by (cases "b = a") (auto simp: getChannel_def cs del)
  then show ?case
    using IH close evolves_trans [OF close(3) IH(2)] by (simp add: each)
qed

lemma close_parts_ok:
  assumes "tru_ok tru"
  shows "evolves tru (close_begin tru) \<and> panicked (close_begin tru) = panicked tru"
    and "evolves tru (close_end tru) \<and> (panicked (close_end tru) \<longleftrightarrow> panicked tru \<or> \<not> t_listening tru)"
proof -
  note e = evolves_refl [OF assms]
  show "evolves tru (close_begin tru) \<and> panicked (close_begin tru) = panicked tru"
    using e by (auto simp: close_begin_def intro: evolves_tell split: option.split)
  have "evolves tru (stopListen tru)" "panicked (stopListen tru) \<longleftrightarrow> panicked tru \<or> \<not> t_listening tru"
    using evolves_tell [OF e] evolves_frame [OF e, of "tru\<lparr>t_listening := False\<rparr>"]
    by (auto simp: stopListen_def) (simp_all add: panicked_def)
  then show "evolves tru (close_end tru) \<and> (panicked (close_end tru) \<longleftrightarrow> panicked tru \<or> \<not> t_listening tru)"
    using evolves_frame [of tru "stopListen tru" "(stopListen tru)\<lparr>t_statTimer := NoTimer\<rparr>"]
    by (auto simp: close_end_def StatisticPrintStop_def panicked_def)
qed

lemma close_frames [simp]:
  "t_channels (close_begin tru) = t_channels tru" "t_heap (close_begin tru) = t_heap tru"
  "t_listening (close_begin tru) = t_listening tru"
  "t_channels (close_end tru) = t_channels tru" "t_heap (close_end tru) = t_heap tru"
  by (simp_all add: close_begin_def close_end_def stopListen_def StatisticPrintStop_def tell_def split: option.split)

lemma tru_Close_ok:
  assumes ok: "tru_ok tru"
  shows "evolves tru (tru_Close L env tru) \<and> t_channels (tru_Close L env tru) = [] \<and>
     (\<forall>a r. getChannel a tru = Some r \<longrightarrow> st_destroyed (c_stat (get_ch (tru_Close L env tru) r))) \<and>
     (panicked (tru_Close L env tru) \<longleftrightarrow> panicked tru \<or> \<not> t_listening tru)"
proof -
  let ?t = "close_begin tru"
  let ?u = "ForEachChannel (channel_Close L env) ?t"
  note t = close_parts_ok(1) [OF ok]
  have all: "evolves tru ?u" "panicked ?u = panicked ?t" "t_listening ?u = t_listening ?t" "t_channels ?u = []"
    "\<And>a r. getChannel a ?t = Some r \<Longrightarrow> st_destroyed (c_stat (get_ch ?u r))"
    using close_all_keys [OF refl, of tru ?t L env] t by (simp_all add: ForEachChannel_def)
  note u = close_parts_ok(2) [OF evolvesD(1) [OF all(1)]]
  have "evolves tru (close_end ?u)" by (rule evolves_trans [OF all(1)]) (use u in simp)
  then show ?thesis
    using u all t by (auto simp: tru_Close_def getChannel_def)
qed

subsection \<open>All reachable states\<close>

lemma listen_turn_ok:
  assumes "tru_ok tru" "hash_laws L" "listen_turn L env res tru = Some tru'"
  shows "evolves tru tru' \<and> (panicked tru' \<longrightarrow> panicked tru \<or> (\<exists>a bs. res = ReadData a bs \<and> fatal env (take (64 * 1024) bs) tru))"
proof (cases res)
  case ReadError
  with assms(3) have "tru' = tru" by (auto simp: listen_turn_def split: if_splits)
  with assms(1) show ?thesis by (simp add: evolves_refl)
next
  case (ReadData a bs)
  then have "tru' = tru \<or> tru' = serve L env a (take (64 * 1024) bs) tru"
    using assms(3) by (auto simp: listen_turn_def Let_def split: if_splits)
  then show ?thesis
    using serve_ok [OF assms(1,2), of env a "take (64 * 1024) bs"] evolves_refl [OF assms(1)] ReadData by blast
qed

lemma tru_WriteTo_ok: "tru_ok tru \<Longrightarrow> evolves tru (snd (tru_WriteTo resolve data addri tru))"
  by (auto simp: tru_WriteTo_def evolves_refl evolves_tell split: addr_arg.split option.split)

lemma setters_ok:
  assumes "tru_ok tru"
  shows "evolves tru (SetMaxDataLen m tru)" "evolves tru (SetSendDelay d tru)" "evolves tru (SetPunchCb f tru)"
    "evolves tru (StatisticPrint now tru)" "evolves tru (StatisticPrintStop tru)" "evolves tru (snd (StatisticMinilog tru))"
  using evolves_refl [OF assms]
  by (auto simp: SetMaxDataLen_def SetSendDelay_def SetPunchCb_def StatisticPrint_def StatisticPrintStop_def
      StatisticMinilog_def Let_def split_def intro: evolves_frame)

lemma timer_steps_ok:
  assumes "tru_ok tru" "r < length (t_heap tru)"
  shows "evolves tru (setReader f r tru)"
    "evolves tru (put_ch r (send_speed_timer now (get_ch tru r)) tru)"
    "evolves tru (put_ch r (recv_speed_timer now (get_ch tru r)) tru)"
    "evolves tru (put_ch r (late_rearm now k (get_ch tru r)) tru)"
  unfolding setReader_def
  using channel_op_ok [OF assms] keeps_reader keeps_speed_timers late_rearm_ok tru_okD(1) [OF assms] by blast+

lemma tru_act_evolves:
  assumes "hash_laws L" "tru_ok tru" "tru_act L l tru tru'"
  shows "evolves tru tru'"
  using assms(3)
proof cases
  case (step_listen env res)
  then show ?thesis using listen_turn_ok [OF assms(2,1)] by blast
next
  case (step_activity r t env)
  then show ?thesis using activity_timer_ok [OF assms(2)] by blast
next
  case (step_retransmit r t env)
  then show ?thesis using retransmit_timer_ok [OF assms(2)] by blast
next
  case (step_delivery r env e)
  then show ?thesis using delivery_step_ok [OF assms(2)] by blast
next
  case (step_late_delivery r env i)
  then show ?thesis using late_delivery_step_ok [OF assms(2)] by blast
next
  case (step_rearm r now k)
  then show ?thesis using timer_steps_ok(4) [OF assms(2)] by blast
next
  case (step_send_speed r t now)
  then show ?thesis using timer_steps_ok(2) [OF assms(2)] by blast
next
  case (step_recv_speed r t now)
  then show ?thesis using timer_steps_ok(3) [OF assms(2)] by blast
next
  case (step_set_reader r f)
  then show ?thesis using timer_steps_ok(1) [OF assms(2)] by blast
next
  case (step_close r env)
  then show ?thesis using channel_Close_ok [OF evolves_refl [OF assms(2)]] by blast
next
  case (step_connected timedout uuid res reader)
  then show ?thesis using Connect_finish_ok [OF assms(2)] by blast
qed (simp_all add: assms(2) evolves_refl reader_step_ok sender_step_ok tru_channel_WriteTo_ok Connect_start_ok
    tru_WriteTo_ok setters_ok close_parts_ok each_channel_ok evolves_connect_close evolves_connect_delete)

lemma tru_step_evolves: "hash_laws L \<Longrightarrow> tru_ok tru \<Longrightarrow> tru_step L tru tru' \<Longrightarrow> evolves tru tru'"
  using tru_act_evolves by (auto simp: tru_step_def)

lemma parse_params_frame:
  "parse_params now ps tru = (e, tru') \<Longrightarrow> t_heap tru' = t_heap tru \<and> t_channels tru' = t_channels tru \<and>
     t_connects tru' = t_connects tru \<and> t_readerCh tru' = t_readerCh tru \<and> t_senderCh tru' = t_senderCh tru \<and>
     t_events tru' = t_events tru"
proof (induction now ps tru rule: parse_params.induct)
  case (2 now p ps tru)
  then show ?case
    by (cases p) (auto simp: StatisticPrint_def split: if_splits)
qed simp

lemma New_ok:
  assumes "New env listen params = (None, tru)"
  shows "tru_ok tru \<and> t_heap tru = [] \<and> t_channels tru = [] \<and> t_events tru = [] \<and> t_listening tru"
proof -
  obtain t where p: "parse_params (te_now env) params (tru_zero\<lparr>t_start := te_now env, t_sendDelay := startSendDelay\<rparr>) = (None, t)"
    "tru = t\<lparr>t_privateKey := te_key env, t_listening := True\<rparr>"
    using assms by (auto simp: New_def split: prod.splits option.splits if_splits)
  show ?thesis
    using parse_params_frame [OF p(1)] by (simp add: p(2) tru_ok_def tru_zero_def)
qed

lemma reachable_ok: "reachable L tru \<Longrightarrow> hash_laws L \<Longrightarrow> tru_ok tru"
  by (induction rule: reachable.induct) (use New_ok tru_step_evolves evolvesD(1) in blast)+

text \<open>Any number of steps.\<close>

abbreviation tru_steps :: "crypto \<Rightarrow> tru \<Rightarrow> tru \<Rightarrow> bool" where
  "tru_steps L \<equiv> (tru_step L)\<^sup>*\<^sup>*"

lemma tru_steps_evolves: "tru_steps L tru tru' \<Longrightarrow> hash_laws L \<Longrightarrow> tru_ok tru \<Longrightarrow> evolves tru tru'"
proof (induction rule: rtranclp_induct)
  case base
  then show ?case by (simp add: evolves_refl)
next
  case (step y z)
  then show ?case using tru_step_evolves evolvesD(1) evolves_trans by blast
qed

text \<open>The steps that panic.\<close>

lemma tru_act_panics:
  assumes "hash_laws L" "tru_ok tru" "tru_act L l tru tru'" "panicked tru'" "\<not> panicked tru"
  shows "(\<exists>a bs env. l = Received (ReadData a bs) \<and> fatal env (take (64 * 1024) bs) tru) \<or>
     (\<exists>timedout uuid f. connect_wait timedout uuid tru = Some (Connected None) \<and>
        tru' = snd (Connect_finish (Some f) (Connected None) tru)) \<or>
     (\<exists>env a. getChannel a tru = None \<and> tru' = each_channel (channel_Close L env) a tru) \<or>
     (\<not> t_listening tru \<and> tru' = close_end tru)"
  using assms(3)
proof cases
  case (step_listen env res)
  then show ?thesis using listen_turn_ok [OF assms(2,1) step_listen(2)] assms(4,5) by blast
next
  case (step_connected timedout uuid res reader)
  then show ?thesis
    using Connect_finish_ok [OF assms(2) step_connected(3), of reader] assms(4,5) by (cases reader) blast+
next
  case (step_activity r t env)
  then show ?thesis using activity_timer_ok [OF assms(2)] assms(4,5) by blast
next
  case (step_retransmit r t env)
  then show ?thesis using retransmit_timer_ok [OF assms(2)] assms(4,5) by blast
next
  case (step_delivery r env e)
  then show ?thesis using delivery_step_ok [OF assms(2)] assms(4,5) by blast
next
  case (step_late_delivery r env i)
  then show ?thesis using late_delivery_step_ok [OF assms(2)] assms(4,5) by blast
next
  case (step_write r data envs ds)
  then show ?thesis using tru_channel_WriteTo_ok [OF assms(2)] assms(4,5) by blast
next
  case (step_close r env)
  then show ?thesis using channel_Close_ok [OF evolves_refl [OF assms(2)]] assms(4,5) by blast
next
  case (step_close_key env a)
  then show ?thesis using each_channel_ok [OF evolves_refl [OF assms(2)], of L env a] assms(4,5) by blast
next
  case (step_connect env uuid addr)
  then show ?thesis using Connect_start_ok [OF assms(2), of L env uuid addr] assms(4,5) by simp
next
  case (step_raw data resolve addri)
  then show ?thesis using assms(4,5) by (auto simp: tru_WriteTo_def split: addr_arg.splits option.splits)
qed (use assms(4,5) reader_step_ok [OF assms(2)] sender_step_ok [OF assms(2)] close_parts_ok [OF assms(2)] in
  \<open>auto simp: setReader_def connect_close_def connect_delete_def connect_put_def SetMaxDataLen_def SetSendDelay_def SetPunchCb_def
     StatisticPrint_def StatisticPrintStop_def StatisticMinilog_def Let_def split_def panicked_def put_ch_def split: if_splits option.splits\<close>)

subsection \<open>The loop of Close among other steps\<close>

text \<open>
  The turns of the loop for the keys it has still to visit, with any steps of the connector that do
  not panic before each turn: the channels that it found, and the states before and after.  A turn
  that finds no channel panics and ends the loop.
\<close>

inductive close_loop :: "crypto \<Rightarrow> string list \<Rightarrow> nat list \<Rightarrow> tru \<Rightarrow> tru \<Rightarrow> bool" for L where
  close_none: "close_loop L [] [] t t"
| close_found: "tru_steps L t u \<Longrightarrow> panicked u = panicked t \<Longrightarrow> getChannel a u = Some r \<Longrightarrow>
    close_loop L ks rs (each_channel (channel_Close L env) a u) t' \<Longrightarrow> close_loop L (a # ks) (r # rs) t t'"
| close_gone: "tru_steps L t u \<Longrightarrow> panicked u = panicked t \<Longrightarrow> getChannel a u = None \<Longrightarrow>
    close_loop L (a # ks) [] t (each_channel (channel_Close L env) a u)"

lemma close_loop_ok:
  assumes "close_loop L ks rs t t'" "hash_laws L" "tru_ok t"
  shows "evolves t t' \<and> (panicked t' \<longleftrightarrow> panicked t \<or> length rs < length ks) \<and> length rs \<le> length ks \<and>
     (\<forall>r\<in>set rs. st_destroyed (c_stat (get_ch t' r)))"
  using assms
proof (induction rule: close_loop.induct)
  case (close_none t)
  then show ?case by (simp add: evolves_refl)
next
  case (close_found t u a r ks rs env t')
  have u: "evolves t u" by (rule tru_steps_evolves [OF close_found.hyps(1) close_found.prems])
  note turn = each_channel_ok [OF u, of L env a]
  have r: "r < length (t_heap u)" using getChannel_ok [OF evolvesD(1) [OF u] close_found.hyps(3)] by blast
  have IH: "evolves (each_channel (channel_Close L env) a u) t'"
    "panicked t' \<longleftrightarrow> panicked (each_channel (channel_Close L env) a u) \<or> length rs < length ks" "length rs \<le> length ks"
    "\<forall>r\<in>set rs. st_destroyed (c_stat (get_ch t' r))"
    using close_found.IH [OF close_found.prems(1) evolvesD(1)] turn by blast+
  have close: "each_channel (channel_Close L env) a u = channel_Close L env r u"
    by (simp add: each_channel_def close_found.hyps(3))
  have "r < length (t_heap (channel_Close L env r u))"
    using evolvesD(3) [OF conjunct1 [OF channel_Close_ok [OF evolves_refl [OF evolvesD(1) [OF u]] r]] r] .
  then have "st_destroyed (c_stat (get_ch t' r))"
    using channel_Close_channels(2) [OF evolvesD(1) [OF u] close_found.hyps(3), of L env] IH(1)
    unfolding close by (auto simp: evolves_def)
  then show ?case
    using IH turn close_found.hyps(2,3) evolves_trans [OF conjunct1 [OF turn] IH(1)] by auto
next
  case (close_gone t u a ks env)
  have u: "evolves t u" by (rule tru_steps_evolves [OF close_gone.hyps(1) close_gone.prems])
  then show ?case
    using each_channel_ok [OF u, of L env a] close_gone.hyps(2,3) by simp
qed

text \<open>The undisturbed loop of \<open>tru_Close\<close> is one of these.\<close>

lemma close_loop_undisturbed:
  assumes "tru_ok t"
  shows "close_loop L (map fst (t_channels t)) (map snd (t_channels t)) t (ForEachChannel (channel_Close L env) t)"
  unfolding ForEachChannel_def
  using assms
proof (induction "t_channels t" arbitrary: t)
  case Nil
  then show ?case by (simp flip: Nil.hyps add: close_none)
next
  case (Cons x cs)
  obtain a r where x: "x = (a, r)" by (cases x)
  have cs: "t_channels t = (a, r) # cs" using Cons.hyps(2) x by simp
  have get: "getChannel a t = Some r" by (simp add: getChannel_def cs)
  then have r: "r < length (t_heap t)" using getChannel_ok [OF Cons.prems] by blast
  have each: "each_channel (channel_Close L env) a t = channel_Close L env r t" by (simp add: each_channel_def get)
  have ok: "tru_ok (channel_Close L env r t)"
    using channel_Close_ok [OF evolves_refl [OF Cons.prems] r] evolvesD(1) by blast
  have del: "t_channels (channel_Close L env r t) = cs"
    using channel_Close_channels(1) [OF Cons.prems get] cs tru_okD(2) [OF Cons.prems] by (simp add: gm_ok_def)
  have "close_loop L (a # map fst cs) (r # map snd cs) t (fold (each_channel (channel_Close L env)) (map fst cs) (channel_Close L env r t))"
    using Cons.hyps(1) [OF del [symmetric] ok] del get by (intro close_found [where u = t and env = env]) (simp_all add: each)
  then show ?case by (simp add: cs each)
qed

text \<open>A datagram from an address without a channel.\<close>

lemma serve_stranger:
  assumes "getChannel addr tru = None"
    and "\<And>pac. unmarshalBinary bs (newPacket (te_now env)) = Inr pac \<Longrightarrow>
      p_status pac \<notin> {statusConnect, statusConnectServerAnswer, statusConnectClientAnswer, statusConnectDone, statusPunch}"
  shows "serve L env addr bs tru = tru"
proof (cases "unmarshalBinary bs (newPacket (te_now env))")
  case (Inr pac)
  then show ?thesis using assms(1) assms(2) [OF Inr] by (simp add: serve_def Let_def)
qed (simp add: serve_def)

subsection \<open>Properties\<close>

definition sample_tenv :: tenv where
  "sample_tenv =
     \<lparr>te_now = second, te_stamp = ''t'', te_wenv = sample_wenv, te_seeds = (\<lambda>_. []), te_rnd = (\<lambda>_. 0),
      te_key = Some [1]\<rparr>"

definition sample_tru :: tru where
  "sample_tru = snd (New sample_tenv True [])"

text \<open>The same connector with one channel, to a server at \<open>a\<close>.\<close>

definition sample_tru1 :: tru where
  "sample_tru1 = snd (newChannel sample_tenv ''a'' False sample_tru)"

lemma sample_tru_New: "New sample_tenv True [] = (None, sample_tru)"
  by (simp add: sample_tru_def New_def sample_tenv_def)

lemma sample_tru_ok: "tru_ok sample_tru" "\<not> panicked sample_tru" "t_listening sample_tru"
  using New_ok [OF sample_tru_New] by (simp_all add: panicked_def)

lemma sample_tru1_ok: "tru_ok sample_tru1" "t_heap sample_tru1 = [make_channel second sample_tru ''a'' False \<lparr>k_private = [1], k_session = []\<rparr>]"
  "getChannel ''a'' sample_tru1 = Some 0" "t_reader sample_tru1 = None" "\<not> panicked sample_tru1" "t_listening sample_tru1"
proof -
  obtain res where r: "newChannel sample_tenv ''a'' False sample_tru = (res, sample_tru1)"
    unfolding sample_tru1_def by (metis prod.collapse)
  show "tru_ok sample_tru1"
    by (rule evolvesD(1) [OF evolves_new [OF evolves_refl [OF sample_tru_ok(1)] r]])
  show "t_heap sample_tru1 = [make_channel second sample_tru ''a'' False \<lparr>k_private = [1], k_session = []\<rparr>]"
    "getChannel ''a'' sample_tru1 = Some 0" "t_reader sample_tru1 = None" "\<not> panicked sample_tru1" "t_listening sample_tru1"
    by (simp_all add: sample_tru1_def sample_tru_def New_def sample_tenv_def newChannel_def newCrypt_def log_msg_def
        tru_zero_def getChannel_def Let_def make_channel_def panicked_def)
qed

lemma plain_hash_laws: "hash_laws plain_crypto"
  using plain_crypto_laws by (simp add: crypto_laws_def)

lemma destroy_state:
  "t_channels (destroy env msg r tru) = gm_del (c_addr (get_ch tru r)) (t_channels tru)"
  "t_events (destroy env msg r tru) = t_events tru @ destroy_events r tru"
  "t_senderCh (destroy env msg r tru) = t_senderCh tru"
  by (simp_all add: destroy_def Let_def) (simp_all add: put_ch_def tell_def log_msg_def)

lemma channel_Close_live:
  assumes "live tru r"
  shows "channel_Close L env r tru = destroy env (''channel close, destroy '' @ c_addr (get_ch tru r)) r
       (tell [EvUdp (c_addr (get_ch tru r)) (marshalBinary (control_packet (te_wenv env) 0 statusDisconnect))] tru)"
proof -
  obtain res ch out where w: "writeToDisconnect L (te_wenv env) (get_ch tru r) = (res, ch, out)"
    by (metis prod.collapse)
  then show ?thesis
    using writeToDisconnect_eq [of L "te_wenv env" "get_ch tru r"] assms
    by (simp add: channel_Close_def emit_def put_ch_def tell_def)
qed

lemma destroy_reader: "t_reader (destroy env msg r tru) = t_reader tru"
  by (simp add: destroy_def Let_def put_ch_def tell_def log_msg_def)

text \<open>
  A datagram from an address without a channel changes nothing at all, unless it is a connect or
  a punch packet; a buffer too short for a header never does.
\<close>

lemma stranger_ignored:
  assumes "getChannel addr tru = None"
    and "\<And>pac. unmarshalBinary bs (newPacket (te_now env)) = Inr pac \<Longrightarrow>
      p_status pac \<notin> {statusConnect, statusConnectServerAnswer, statusConnectClientAnswer, statusConnectDone, statusPunch}"
  shows "serve L env addr bs tru = tru"
  using assms by (rule serve_stranger)

text \<open>
  Closing a channel. A live channel writes a disconnect packet to its peer, tells both readers
  that it is destroyed, and frees its address; closing it again does nothing.
\<close>

lemma close_channel_once:
  assumes "tru_ok tru" "live tru r"
  shows "t_events (channel_Close L env r tru) = t_events tru @
       EvUdp (c_addr (get_ch tru r)) (marshalBinary (control_packet (te_wenv env) 0 statusDisconnect)) # destroy_events r tru \<and>
     getChannel (c_addr (get_ch tru r)) (channel_Close L env r tru) = None \<and>
     st_destroyed (c_stat (get_ch (channel_Close L env r tru) r)) \<and>
     channel_Close L env' r (channel_Close L env r tru) = channel_Close L env r tru"
proof -
  have d: "st_destroyed (c_stat (get_ch (channel_Close L env r tru) r))"
    using assms(2) by (simp add: channel_Close_live destroy_get channel_stop_def)
  moreover have "channel_Close L env' r (channel_Close L env r tru) = channel_Close L env r tru"
    using d by (subst channel_Close_def) simp
  ultimately show ?thesis
    using assms(2) by (simp add: channel_Close_live destroy_state getChannel_def destroy_events_def) (simp add: tell_def)
qed

text \<open>
  C11: When the connector panics. Serving a datagram, whatever its bytes and sender, panics
  exactly for a connect-done of a connection still in the table whose Connect is no longer
  waiting. Connect panics at its end exactly when it was handed no channel and a reader was
  given (a connect-done that came before its server answer does that). No other step of the
  connector panics but the loop of Close at an address whose channel is gone, and the end of
  Close when the connector is closed already. (A write with a negative length limit panics in
  its caller, which is a result here.)
\<close>

lemma serve_panics_iff:
  assumes "tru_ok tru" "hash_laws L" "\<not> panicked tru"
  defines "done_again \<equiv> (\<lambda>env bs. \<exists>pac cp cd. unmarshalBinary bs (newPacket (te_now env)) = Inr pac \<and>
     p_status pac = statusConnectDone \<and> connect_unmarshal (p_data pac) = Inr cp \<and>
     connect_get (cp_uuid cp) tru = Some cd \<and> cd_wch cd \<noteq> WWaiting)"
  shows "(panicked (serve L env addr bs tru) \<longleftrightarrow> done_again env bs) \<and>
     (connect_wait timedout uuid tru = Some res \<longrightarrow>
        (panicked (snd (Connect_finish reader res tru)) \<longleftrightarrow> res = Connected None \<and> reader \<noteq> None)) \<and>
     (\<forall>l tru'. tru_act L l tru tru' \<and> panicked tru' \<longrightarrow>
        (\<exists>a bs env. l = Received (ReadData a bs) \<and> done_again env (take (64 * 1024) bs)) \<or>
        (\<exists>timedout uuid f. connect_wait timedout uuid tru = Some (Connected None) \<and>
           tru' = snd (Connect_finish (Some f) (Connected None) tru)) \<or>
        (\<exists>env a. getChannel a tru = None \<and> tru' = each_channel (channel_Close L env) a tru) \<or>
        (\<not> t_listening tru \<and> tru' = close_end tru))"
proof -
  have fatal: "fatal env bs tru \<longleftrightarrow> done_again env bs" for env bs
    by (auto simp: fatal_def done_twice_def done_again_def split: sum.splits option.splits)
  show ?thesis
    using serve_ok [OF assms(1,2), of env addr bs] Connect_finish_ok [OF assms(1), of timedout uuid res reader]
      tru_act_panics [OF assms(2,1) _ _ assms(3)] assms(3) unfolding fatal by blast
qed

lemma serve_panics_iff_witness: "\<not> panicked (serve plain_crypto sample_tenv ''b'' [1, 2, 3, 4, 5] sample_tru)"
proof -
  have "t_connects sample_tru = []"
    by (simp add: sample_tru_def New_def sample_tenv_def tru_zero_def)
  then show ?thesis
    using serve_panics_iff [OF sample_tru_ok(1) plain_hash_laws sample_tru_ok(2), of sample_tenv "''b''" "[1, 2, 3, 4, 5]"]
    by (simp add: connect_get_def)
qed

text \<open>
  C12: In every state the connector can reach from New, by datagrams, timers, goroutine turns
  and calls in any order, every channel is well formed (identifiers below the limit, both queues
  consistent, the collector sound, the retransmission and activity timers armed on a live
  channel), a mapped address names a channel of that address that is not destroyed, the
  goroutine queues and the table of connections name channels that exist, and destroying a
  channel there stops all its four timers (one that has just fired may be armed once more after
  that, and the delivery timers belong to the packets).
\<close>

lemma reachable_invariant:
  assumes "reachable L tru" "hash_laws L"
  shows "(\<forall>ch\<in>set (t_heap tru). channel_ok ch) \<and>
     (\<forall>a r. getChannel a tru = Some r \<longrightarrow> live tru r \<and> c_addr (get_ch tru r) = a) \<and>
     (\<forall>x\<in>set (t_readerCh tru) \<union> set (t_senderCh tru). fst x < length (t_heap tru)) \<and>
     (\<forall>u cd r. connect_get u tru = Some cd \<and> (cd_ch cd = Some r \<or> cd_wch cd = WSent (Some r)) \<longrightarrow> r < length (t_heap tru)) \<and>
     (\<forall>r env msg. r < length (t_heap tru) \<longrightarrow> (let ch = get_ch (destroy env msg r tru) r in
        \<not> armed (st_timer (c_stat ch)) \<and> \<not> armed (sq_timer (c_sendQueue ch)) \<and>
        \<not> armed (sp_timer (st_sendSpeed (c_stat ch))) \<and> \<not> armed (sp_timer (st_recvSpeed (c_stat ch)))))"
proof -
  have ok: "tru_ok tru" by (rule reachable_ok [OF assms])
  have "let ch = get_ch (destroy env msg r tru) r in
      \<not> armed (st_timer (c_stat ch)) \<and> \<not> armed (sq_timer (c_sendQueue ch)) \<and>
      \<not> armed (sp_timer (st_sendSpeed (c_stat ch))) \<and> \<not> armed (sp_timer (st_recvSpeed (c_stat ch)))"
    if "r < length (t_heap tru)" for r env msg
    using that by (simp add: Let_def destroy_get channel_stop_def stat_destroy_def sq_destroy_def)
  then show ?thesis
    using ok getChannel_ok [OF ok] unfolding tru_ok_def connect_get_def by blast
qed

lemma reachable_invariant_witness: "list_all channel_ok (t_heap (serve plain_crypto sample_tenv ''a'' [0, 0, 0, 0, 0] sample_tru)) \<and>
   length (t_heap (serve plain_crypto sample_tenv ''a'' [0, 0, 0, 0, 0] sample_tru)) = 1"
proof -
  let ?t = "serve plain_crypto sample_tenv ''a'' [0, 0, 0, 0, 0] sample_tru"
  have "listen_turn plain_crypto sample_tenv (ReadData ''a'' [0, 0, 0, 0, 0]) sample_tru = Some ?t"
    by (simp add: listen_turn_def sample_tru_ok(3))
  then have "reachable plain_crypto ?t"
    by (rule reach_step [OF reach_new [OF sample_tru_New] tru_stepI [OF step_listen]])
  from reachable_invariant [OF this plain_hash_laws] have "list_all channel_ok (t_heap ?t)"
    by (simp add: list_all_iff)
  moreover have "length (t_heap ?t) = 1" by code_simp
  ultimately show ?thesis ..
qed

text \<open>
  C14: A channel keeps its address for ever, and one that is destroyed stays destroyed: no
  datagram, timer or call brings it back, and no address leads to it again.
\<close>

lemma destroyed_forever:
  assumes "tru_steps L tru tru'" "hash_laws L" "tru_ok tru" "r < length (t_heap tru)"
  shows "r < length (t_heap tru') \<and> c_addr (get_ch tru' r) = c_addr (get_ch tru r) \<and>
     (st_destroyed (c_stat (get_ch tru r)) \<longrightarrow>
        st_destroyed (c_stat (get_ch tru' r)) \<and> (\<forall>a. getChannel a tru' \<noteq> Some r))"
proof -
  have e: "evolves tru tru'" by (rule tru_steps_evolves [OF assms(1-3)])
  then have "r < length (t_heap tru')" "c_addr (get_ch tru' r) = c_addr (get_ch tru r)"
    "st_destroyed (c_stat (get_ch tru r)) \<longrightarrow> st_destroyed (c_stat (get_ch tru' r))"
    using assms(4) by (auto simp: evolves_def)
  then show ?thesis
    using getChannel_ok [OF evolvesD(1) [OF e]] by blast
qed

lemma destroyed_forever_witness:
  "c_addr (get_ch (channel_Close plain_crypto sample_tenv 0 sample_tru1) 0) = ''a''"
proof -
  have "tru_step plain_crypto sample_tru1 (channel_Close plain_crypto sample_tenv 0 sample_tru1)"
    by (rule tru_stepI [OF step_close]) (simp add: sample_tru1_ok)
  from destroyed_forever [OF r_into_rtranclp [where r = "tru_step plain_crypto", OF this] plain_hash_laws sample_tru1_ok(1), of 0]
  show ?thesis by (simp add: sample_tru1_ok)
qed

text \<open>
  C28: Two channels of one address. When the peer's address is mapped to a newer live channel,
  destroying an older channel of the same address (closing it, its inactivity, too many
  attempts) frees the address of the newer one: it stays alive with its timers, but no address
  leads to it, and its peer's packets are ignored.
\<close>

lemma stale_channel:
  assumes "r < length (t_heap tru)" "r \<noteq> r'" "c_addr (get_ch tru r) = a"
    and "getChannel a tru = Some r'" "live tru r'"
  shows "getChannel a (destroy env msg r tru) = None \<and> get_ch (destroy env msg r tru) r' = get_ch tru r' \<and>
     live (destroy env msg r tru) r' \<and>
     (unmarshalBinary bs (newPacket (te_now env')) = Inr pac \<and> p_status pac \<in> {statusData, statusDataNext, statusAck} \<longrightarrow>
        serve L env' a bs (destroy env msg r tru) = destroy env msg r tru)"
proof -
  have none: "getChannel a (destroy env msg r tru) = None"
    using assms(1,3) by (simp add: getChannel_def destroy_state)
  moreover have "get_ch (destroy env msg r tru) r' = get_ch tru r'" "length (t_heap (destroy env msg r tru)) = length (t_heap tru)"
    using assms(2) by (simp_all add: destroy_get)
  moreover have "serve L env' a bs (destroy env msg r tru) = destroy env msg r tru"
    if "unmarshalBinary bs (newPacket (te_now env')) = Inr pac \<and> p_status pac \<in> {statusData, statusDataNext, statusAck}"
    using that by (intro serve_stranger [OF none]) auto
  ultimately show ?thesis
    using assms(5) by simp
qed

lemma stale_channel_witness:
  "getChannel ''a'' (destroy sample_tenv [] 0 (snd (newChannel sample_tenv ''a'' True sample_tru1))) = None \<and>
   length (t_heap (snd (newChannel sample_tenv ''a'' True sample_tru1))) = 2"
proof -
  let ?t = "snd (newChannel sample_tenv ''a'' True sample_tru1)"
  have t: "length (t_heap ?t) = 2" "c_addr (get_ch ?t 0) = ''a''" "getChannel ''a'' ?t = Some 1"
    "\<not> st_destroyed (c_stat (get_ch ?t 1))"
    by code_simp+
  then show ?thesis
    using stale_channel [of 0 ?t 1 "''a''" sample_tenv "[]"] by simp
qed

text \<open>
  C30: A server answer or a connect-done whose identifier is not in the table of connections,
  such as one that the network repeats after Connect has returned. From an unknown address it
  changes nothing; but from the address of a channel it destroys that channel, although nothing
  is wrong with it.
\<close>

lemma stale_answer:
  assumes "tru_ok tru" "unmarshalBinary bs (newPacket (te_now env)) = Inr pac"
    and "p_status pac = statusConnectServerAnswer \<or> p_status pac = statusConnectDone"
    and "connect_unmarshal (p_data pac) = Inr cp" "connect_get (cp_uuid cp) tru = None"
  shows "case getChannel addr tru of
       None \<Rightarrow> serve L env addr bs tru = tru
     | Some r \<Rightarrow> st_destroyed (c_stat (get_ch (serve L env addr bs tru) r)) \<and>
         getChannel addr (serve L env addr bs tru) = None \<and>
         t_events (serve L env addr bs tru) = t_events tru @ destroy_events r tru"
proof -
  have run: "\<exists>e. connect_serve L env addr pac tru = (Some e, tru)"
    using assms(3-5) by (auto simp: connect_serve_def serve_server_answer_def serve_done_def)
  show ?thesis
  proof (cases "getChannel addr tru")
    case None
    then show ?thesis using assms(2,3) run by (auto simp: serve_def Let_def)
  next
    case (Some r)
    then have "serve L env addr bs tru = destroy env (''channel connection error, destroy '' @ c_addr (get_ch tru r)) r tru"
      using assms(2,3) run by (auto simp: serve_def Let_def)
    then show ?thesis
      using Some getChannel_ok [OF assms(1) Some]
      by (simp add: destroy_get channel_stop_def destroy_state) (simp add: getChannel_def destroy_state)
  qed
qed

lemma stale_answer_witness:
  "st_destroyed (c_stat (get_ch (serve plain_crypto sample_tenv ''a''
     (marshalBinary (set_data [1, 7] (set_status statusConnectDone (newPacket 0)))) sample_tru1) 0))"
proof -
  let ?p = "set_data [1, 7] (set_status statusConnectDone (newPacket 0))"
  obtain q where q: "unmarshalBinary (marshalBinary ?p) (newPacket (te_now sample_tenv)) = Inr q"
    "p_status q = statusConnectDone" "p_data q = [1, 7]"
    by (simp add: unmarshal_marshal packet_setters)
  have "connect_unmarshal [1, 7] = Inr \<lparr>cp_uuid = [7], cp_data = []\<rparr>"
    by (simp add: connect_unmarshal_def read_bytes_def)
  moreover have "t_connects sample_tru1 = []" by code_simp
  ultimately show ?thesis
    using stale_answer [OF sample_tru1_ok(1) q(1), where addr = "''a''" and L = plain_crypto] q(2,3)
    by (simp add: sample_tru1_ok(3) connect_get_def)
qed

text \<open>
  C34: The activity check of a live channel. After more than six silent seconds the channel is
  destroyed, its address is free and both readers are told; otherwise it stays and the check is
  armed again in 500 ms (checkInactiveAfter; the comment of checkActivity has it every second),
  and a client channel, after more than four, sends a ping.
\<close>

lemma activity_check:
  assumes "tru_ok tru" "live tru r"
  shows "let ch = get_ch tru r; tru' = activity_timer L env r tru in
     if st_lastActivity (c_stat ch) + 6 * second < te_now env
     then st_destroyed (c_stat (get_ch tru' r)) \<and> getChannel (c_addr ch) tru' = None \<and>
       t_events tru' = t_events tru @ destroy_events r tru
     else \<not> st_destroyed (c_stat (get_ch tru' r)) \<and> t_channels tru' = t_channels tru \<and>
       st_timer (c_stat (get_ch tru' r)) = Armed (te_now env + 500 * millisecond) \<and>
       t_senderCh tru' = t_senderCh tru @
         (if st_lastActivity (c_stat ch) + 4 * second < te_now env \<and> \<not> c_serverMode ch
          then [(r, control_packet (te_wenv env) 0 statusPing)] else [])"
proof -
  define ch where "ch = get_ch tru r"
  obtain res ch1 out where w: "writeToPing L (te_wenv env) ch = (res, ch1, out)"
    by (metis prod.collapse)
  then have ping: "ch1 = ch" "out = [OSend (control_packet (te_wenv env) 0 statusPing)]"
    using writeToPing_eq [of L "te_wenv env" ch] assms(2) by (simp_all add: ch_def)
  have put: "put_ch r (get_ch tru r) tru = tru"
    by (simp add: put_ch_def)
  have six: "stat_activity (te_now env) (c_stat ch) = Inactive \<longleftrightarrow> st_lastActivity (c_stat ch) + 6 * second < te_now env"
    and four: "stat_activity (te_now env) (c_stat ch) = Keepalive \<longleftrightarrow>
      st_lastActivity (c_stat ch) + 4 * second < te_now env \<and> te_now env \<le> st_lastActivity (c_stat ch) + 6 * second"
    by (auto simp: stat_activity_def)
  show ?thesis
  proof (cases "stat_activity (te_now env) (c_stat ch)")
    case Inactive
    then show ?thesis
      using six assms(2)
      by (simp add: activity_timer_def Let_def destroy_get destroy_state channel_stop_def getChannel_def flip: ch_def)
  next
    case Keepalive
    then show ?thesis
      using six four w ping put assms(2)
      by (simp add: activity_timer_def Let_def emit_eq put_ch_def stat_armActivity_def flip: ch_def)
  next
    case Active
    then show ?thesis
      using six four assms(2)
      by (simp add: activity_timer_def Let_def put_ch_def stat_armActivity_def flip: ch_def)
  qed
qed

lemma activity_check_witness:
  "st_destroyed (c_stat (get_ch (activity_timer plain_crypto (sample_tenv\<lparr>te_now := 60 * second\<rparr>) 0 sample_tru1) 0))"
  using activity_check [OF sample_tru1_ok(1), where r = 0 and env = "sample_tenv\<lparr>te_now := 60 * second\<rparr>" and L = plain_crypto]
  by (simp add: sample_tru1_ok make_channel_def Let_def stat_init_def stat_zero_def stat_armActivity_def stat_setLastActivity_def)

text \<open>
  C35: Closing the connector. When nothing comes between, Close destroys every mapped channel
  and leaves the map empty, although closing removes entries under the loop, and panics exactly
  when the connector was closed before (the stop channel is closed twice). But the loop looks
  each address up without the lock: with other steps between its turns it destroys each channel
  it finds and panics exactly when an address has no channel any more at its turn, and any
  mapped channel can be gone by then.
\<close>

lemma close_connector:
  assumes "tru_ok tru" "hash_laws L" "\<not> panicked tru"
  shows "t_channels (tru_Close L env tru) = [] \<and>
     (\<forall>a r. getChannel a tru = Some r \<longrightarrow> st_destroyed (c_stat (get_ch (tru_Close L env tru) r))) \<and>
     (panicked (tru_Close L env tru) \<longleftrightarrow> \<not> t_listening tru) \<and>
     (\<forall>ks rs tru'. close_loop L ks rs tru tru' \<longrightarrow>
        (\<forall>r\<in>set rs. st_destroyed (c_stat (get_ch tru' r))) \<and> (panicked tru' \<longleftrightarrow> length rs < length ks)) \<and>
     close_loop L (map fst (t_channels tru)) (map snd (t_channels tru)) tru (ForEachChannel (channel_Close L env) tru) \<and>
     (\<forall>a r ks. getChannel a tru = Some r \<longrightarrow> (\<exists>tru'. close_loop L (a # ks) [] tru tru'))"
proof (intro conjI allI impI)
  fix a r ks assume get: "getChannel a tru = Some r"
  then have r: "live tru r" using getChannel_ok [OF assms(1)] by blast
  let ?u = "channel_Close L env r tru"
  have "tru_step L tru ?u" using r by (intro tru_stepI [OF step_close]) simp
  moreover have "panicked ?u = panicked tru"
    using channel_Close_ok [OF evolves_refl [OF assms(1)]] r by blast
  moreover have "getChannel a ?u = None"
    using channel_Close_channels(1) [OF assms(1) get] by (simp add: getChannel_def)
  ultimately show "\<exists>tru'. close_loop L (a # ks) [] tru tru'"
    using close_gone [OF r_into_rtranclp [where r = "tru_step L"]] by blast
qed (use tru_Close_ok [OF assms(1), of L env] close_loop_ok [OF _ assms(2,1)] close_loop_undisturbed [OF assms(1)] assms(3) in blast)+

lemma close_connector_witness:
  "t_channels (tru_Close plain_crypto sample_tenv sample_tru1) = [] \<and> \<not> panicked (tru_Close plain_crypto sample_tenv sample_tru1) \<and>
   (\<exists>tru'. close_loop plain_crypto [''a''] [] sample_tru1 tru')"
  using close_connector [OF sample_tru1_ok(1) plain_hash_laws sample_tru1_ok(5), of sample_tenv] sample_tru1_ok(3,6) by blast

end
