(* ===== verification/Handshake.thy ===== *)
theory Handshake
  imports System
begin

section \<open>The handshake\<close>

text \<open>
  The four messages of the handshake between two connectors, and what they leave: one session
  key on both ends, and two fresh channels that the delivery theorem applies to.
\<close>

subsection \<open>A new channel of a connector that has its key\<close>

lemma newChannel_key:
  assumes "t_privateKey t = Some k"
  obtains t' where "newChannel env a sm t = (Inr (length (t_heap t)), t')"
    "t_heap t' = t_heap t @ [make_channel (te_now env) t a sm \<lparr>k_private = k, k_session = []\<rparr>]"
    "t_privateKey t' = Some k" "t_senderCh t' = t_senderCh t" "t_connects t' = t_connects t"
    "t_maxDataLen t' = t_maxDataLen t" "getChannel a t' = Some (length (t_heap t))"
proof -
  let ?t = "log_msg env (''new channel '' @ a) t"
  have "newCrypt env ?t = (Inr \<lparr>k_private = k, k_session = []\<rparr>, ?t)"
    using assms by (simp add: newCrypt_def log_msg_def)
  moreover have "make_channel (te_now env) ?t a sm c = make_channel (te_now env) t a sm c" for c
    by (simp add: make_channel_def log_msg_def Let_def)
  ultimately show thesis
    using assms by (intro that [of "snd (newChannel env a sm t)"])
      (auto simp: newChannel_def Let_def getChannel_def tell_def log_msg_def split: option.split)
qed

text \<open>What a handshake message looks like: a status and a connect packet.\<close>

definition handshake_packet :: "u8 \<Rightarrow> bytes \<Rightarrow> bytes \<Rightarrow> packet \<Rightarrow> bool" where
  "handshake_packet st uuid data p \<longleftrightarrow>
     p_status p = st \<and> connect_unmarshal (p_data p) = Inr \<lparr>cp_uuid = uuid, cp_data = data\<rparr>"

lemma handshake_packet_new:
  "length uuid < 256 \<Longrightarrow>
   handshake_packet st uuid data
     (set_data (connect_marshal \<lparr>cp_uuid = uuid, cp_data = data\<rparr>) (set_status st (newPacket now)))"
  by (simp add: handshake_packet_def packet_setters connect_unmarshal_marshal)

lemma handshake_packet_arrival:
  "handshake_packet st uuid data p \<Longrightarrow>
   \<exists>q. unmarshalBinary (marshalBinary p) (newPacket now) = Inr q \<and> handshake_packet st uuid data q"
  by (simp add: handshake_packet_def unmarshal_marshal)

text \<open>\<open>serve\<close> on a handshake message whose handler succeeds.\<close>

definition reconnected :: "tenv \<Rightarrow> string \<Rightarrow> u8 \<Rightarrow> tru \<Rightarrow> tru" where
  "reconnected env a st tru =
     (case getChannel a tru of
        Some r \<Rightarrow> if st = statusConnect
                  then destroy env (''channel reconnect, destroy '' @ c_addr (get_ch tru r)) r tru else tru
      | None \<Rightarrow> tru)"

lemma serve_handshake:
  assumes "unmarshalBinary bs (newPacket (te_now env)) = Inr q"
    "p_status q \<in> {statusConnect, statusConnectServerAnswer, statusConnectClientAnswer, statusConnectDone}"
    "connect_serve L env a q (reconnected env a (p_status q) tru) = (None, tru')"
  shows "serve L env a bs tru = tru'"
proof -
  have s: "p_status q = statusConnect \<or> p_status q = statusConnectServerAnswer \<or>
      p_status q = statusConnectClientAnswer \<or> p_status q = statusConnectDone"
    using assms(2) by auto
  show ?thesis
    unfolding serve_def assms(1) sum.case Let_def if_P [OF s] assms(3) [unfolded reconnected_def]
    by (simp split: option.split)
qed

lemma reconnected_frame:
  "t_privateKey (reconnected env a st tru) = t_privateKey tru"
  "t_senderCh (reconnected env a st tru) = t_senderCh tru"
  "t_connects (reconnected env a st tru) = t_connects tru"
  "t_maxDataLen (reconnected env a st tru) = t_maxDataLen tru"
  by (simp_all add: reconnected_def destroy_def Let_def put_ch_def tell_def log_msg_def split: option.split)

lemma reconnected_id: "st \<noteq> statusConnect \<Longrightarrow> reconnected env a st tru = tru"
  by (simp add: reconnected_def split: option.split)

subsection \<open>The four handlers on the messages of one handshake\<close>

lemma serve_connect_success:
  assumes laws: "crypto_laws L" and key: "t_privateKey t = Some k" and uuid: "length uuid < 256"
    and p: "handshake_packet statusConnect uuid pub p" "bytesToPublicKey L pub = Inr (cr_public L kc)"
  obtains t' enc spub q where "serve_connect L env a p t = (None, t')"
    "rsa_decrypt L \<lparr>k_private = kc, k_session = []\<rparr> enc = Inr spub" "bytesToPublicKey L spub = Inr (cr_public L k)"
    "handshake_packet statusConnectServerAnswer uuid enc q"
    "t_senderCh t' = t_senderCh t @ [(length (t_heap t), q)]" "getChannel a t' = Some (length (t_heap t))"
    "t_heap t' = t_heap t @ [make_channel (te_now env) t a True \<lparr>k_private = k, k_session = []\<rparr>]"
proof -
  obtain t1 where 1: "newChannel env a True t = (Inr (length (t_heap t)), t1)"
    "t_heap t1 = t_heap t @ [make_channel (te_now env) t a True \<lparr>k_private = k, k_session = []\<rparr>]"
    "t_senderCh t1 = t_senderCh t" "getChannel a t1 = Some (length (t_heap t))"
    using newChannel_key [OF key, of env a True] by metis
  have l: "oaep_laws L" "key_laws L" using laws by (simp_all add: crypto_laws_def)
  obtain spub where spub: "publicKeyToBytes L (cr_public L k) = Inr spub" "bytesToPublicKey L spub = Inr (cr_public L k)"
    using public_key_roundtrip [OF l(2)] by blast
  obtain enc where enc: "rsa_encrypt L (te_seeds env) (cr_public L kc) spub = Inr enc"
    "rsa_decrypt L \<lparr>k_private = kc, k_session = []\<rparr> enc = Inr spub"
    using rsa_roundtrip [OF l(1), of "te_seeds env" "\<lparr>k_private = kc, k_session = []\<rparr>" spub] by auto
  let ?q = "set_data (connect_marshal \<lparr>cp_uuid = uuid, cp_data = enc\<rparr>)
      (set_status statusConnectServerAnswer (newPacket (te_now env)))"
  have c: "k_private (c_crypt (get_ch t1 (length (t_heap t)))) = k"
    by (simp add: 1(2) nth_append make_channel_def Let_def)
  have run: "serve_connect L env a p t = (None, emit (length (t_heap t)) [OSend ?q] t1)"
    using p 1(1) spub(1) enc(1) by (simp add: serve_connect_def handshake_packet_def c)
  then show thesis
    using 1(2-4) by (intro that [OF run enc(2) spub(2) handshake_packet_new [OF uuid]]) (simp_all add: emit_eq getChannel_def)
qed

lemma serve_server_answer_success:
  assumes laws: "crypto_laws L" and key: "t_privateKey t = Some k" and uuid: "length uuid < 256"
    and p: "handshake_packet statusConnectServerAnswer uuid enc p" "rsa_decrypt L \<lparr>k_private = k, k_session = []\<rparr> enc = Inr spub"
      "bytesToPublicKey L spub = Inr (cr_public L ks)"
    and cd: "connect_get uuid t = Some cd"
  obtains t' enc' q sk where "serve_server_answer L env a p t = (None, t')"
    "rsa_decrypt L \<lparr>k_private = ks, k_session = []\<rparr> enc' = Inr sk" "length sk = 32"
    "handshake_packet statusConnectClientAnswer uuid enc' q"
    "t_senderCh t' = t_senderCh t @ [(length (t_heap t), q)]" "getChannel a t' = Some (length (t_heap t))"
    "connect_get uuid t' = Some (cd\<lparr>cd_ch := Some (length (t_heap t))\<rparr>)"
    "t_heap t' = t_heap t @ [(make_channel (te_now env) t a False \<lparr>k_private = k, k_session = []\<rparr>)
       \<lparr>c_crypt := \<lparr>k_private = k, k_session = sk\<rparr>\<rparr>]"
proof -
  let ?ch = "make_channel (te_now env) t a False \<lparr>k_private = k, k_session = []\<rparr>" and ?r = "length (t_heap t)"
  obtain t1 where 1: "newChannel env a False t = (Inr ?r, t1)" "t_heap t1 = t_heap t @ [?ch]"
    "t_senderCh t1 = t_senderCh t" "getChannel a t1 = Some ?r"
    using newChannel_key [OF key, of env a False] by metis
  have l: "oaep_laws L" "hash_laws L" using laws by (simp_all add: crypto_laws_def)
  define sk where "sk = makeSesionKey L (te_rnd env)"
  obtain enc' where enc': "rsa_encrypt L (te_seeds env) (cr_public L ks) sk = Inr enc'"
    "rsa_decrypt L \<lparr>k_private = ks, k_session = []\<rparr> enc' = Inr sk"
    using rsa_roundtrip [OF l(1), of "te_seeds env" "\<lparr>k_private = ks, k_session = []\<rparr>" sk] by auto
  let ?q = "set_data (connect_marshal \<lparr>cp_uuid = uuid, cp_data = enc'\<rparr>)
      (set_status statusConnectClientAnswer (newPacket (te_now env)))"
  let ?t = "put_ch ?r (?ch\<lparr>c_crypt := \<lparr>k_private = k, k_session = sk\<rparr>\<rparr>)
      (emit ?r [OSend ?q] (connect_put uuid (cd\<lparr>cd_ch := Some ?r\<rparr>) t1))"
  have c: "c_crypt ?ch = \<lparr>k_private = k, k_session = []\<rparr>" "t_heap t1 ! ?r = ?ch"
    by (simp_all add: 1(2) make_channel_def Let_def)
  have run: "serve_server_answer L env a p t = (None, ?t)"
    using p 1(1) cd c enc'(1)
    by (simp add: serve_server_answer_def handshake_packet_def Let_def setSesionKey_def flip: sk_def)
  have sk: "length sk = 32"
    by (simp add: sk_def makeSesionKey_length [OF l(2)])
  show thesis
    using 1(2-4) by (intro that [OF run enc'(2) sk handshake_packet_new [OF uuid]])
      (simp_all add: put_ch_def emit_eq getChannel_def connect_put_def connect_get_def)
qed

lemma serve_client_answer_success:
  assumes uuid: "length uuid < 256"
    and p: "handshake_packet statusConnectClientAnswer uuid enc p" "rsa_decrypt L (c_crypt (get_ch t r)) enc = Inr sk"
    and r: "getChannel a t = Some r"
  obtains t' q where "serve_client_answer L env a p t = (None, t')"
    "handshake_packet statusConnectDone uuid [] q" "t_senderCh t' = t_senderCh t @ [(r, q)]" "getChannel a t' = Some r"
    "t_heap t' = (t_heap t)[r := (get_ch t r)\<lparr>c_crypt := setSesionKey sk (c_crypt (get_ch t r))\<rparr>]"
proof -
  let ?q = "set_data (connect_marshal \<lparr>cp_uuid = uuid, cp_data = []\<rparr>)
      (set_status statusConnectDone (newPacket (te_now env)))"
  have run: "serve_client_answer L env a p t =
      (None, emit r [OSend ?q] (put_ch r ((get_ch t r)\<lparr>c_crypt := setSesionKey sk (c_crypt (get_ch t r))\<rparr>) t))"
    using p r by (simp add: serve_client_answer_def handshake_packet_def Let_def)
  then show thesis
    using r by (intro that [OF run handshake_packet_new [OF uuid]]) (simp_all add: emit_eq put_ch_def getChannel_def)
qed

lemma serve_done_success:
  assumes "handshake_packet statusConnectDone uuid d p" "connect_get uuid t = Some cd" "cd_wch cd = WWaiting"
  shows "serve_done p t = (None, connect_put uuid (cd\<lparr>cd_wch := WSent (cd_ch cd)\<rparr>) t)"
  using assms by (simp add: serve_done_def handshake_packet_def)

subsection \<open>The whole handshake\<close>

definition last_udp :: "tru \<Rightarrow> bytes" where
  "last_udp tru = (case last (t_events tru) of EvUdp a bs \<Rightarrow> bs | _ \<Rightarrow> [])"

text \<open>
  The run: the client at \<open>ca\<close> connects to the server at \<open>sa\<close>, each side serves the datagram that the
  other has just written, and its sender goroutine writes the answer.
\<close>

definition handshake :: "crypto \<Rightarrow> (nat \<Rightarrow> tenv) \<Rightarrow> bytes \<Rightarrow> string \<Rightarrow> string \<Rightarrow> tru \<Rightarrow> tru \<Rightarrow> tru \<times> tru" where
  "handshake L env uuid sa ca C S =
     (let C = snd (Connect_start L (env 0) uuid (Some sa) C);
          S = sender_step (serve L (env 1) ca (last_udp C) S);
          C = sender_step (serve L (env 2) sa (last_udp S) C);
          S = sender_step (serve L (env 3) ca (last_udp C) S);
          C = serve L (env 4) sa (last_udp S) C
      in (C, S))"

text \<open>A channel on which nothing was sent or received yet.\<close>

definition fresh :: "channel \<Rightarrow> bool" where
  "fresh ch \<longleftrightarrow> fresh_sender ch \<and> fresh_receiver ch"

lemma fresh_make: "0 \<le> t_maxDataLen t \<Longrightarrow> fresh (make_channel now t a sm c)"
proof -
  assume m: "0 \<le> t_maxDataLen t"
  have "sq_fifo (sq_init now sq_empty)"
    by (simp add: sq_init_def sq_retransmit_arm_def sq_fifo_def sq_ok_def sq_empty_def)
  then show ?thesis
    using m by (simp add: fresh_def fresh_sender_def fresh_receiver_def)
      (simp add: make_channel_def Let_def, simp add: sq_init_def sq_retransmit_arm_def sq_empty_def)
qed

lemma fresh_crypt [simp]: "fresh (ch\<lparr>c_crypt := c\<rparr>) = fresh ch"
  by (simp add: fresh_def fresh_sender_def fresh_receiver_def)

lemma sender_step_single:
  assumes "t_senderCh t = [(r, p)]" "\<not> st_destroyed (c_stat (get_ch t r))"
  shows "t_heap (sender_step t) = t_heap t" "t_senderCh (sender_step t) = []" "t_privateKey (sender_step t) = t_privateKey t"
    "t_channels (sender_step t) = t_channels t" "t_connects (sender_step t) = t_connects t"
    "last_udp (sender_step t) = marshalBinary p" "t_maxDataLen (sender_step t) = t_maxDataLen t"
  using assms by (simp_all add: sender_step_def tell_def last_udp_def)

lemma Connect_start_success:
  assumes laws: "crypto_laws L" and key: "t_privateKey C = Some k" and uuid: "length uuid < 256"
  obtains p pub where "handshake_packet statusConnect uuid pub p" "bytesToPublicKey L pub = Inr (cr_public L k)"
    "Connect_start L env uuid (Some sa) C = (None, tell [EvUdp sa (marshalBinary p)] (connect_add uuid C))"
proof -
  have "key_laws L" using laws by (simp add: crypto_laws_def)
  then obtain pub where pub: "publicKeyToBytes L (cr_public L k) = Inr pub" "bytesToPublicKey L pub = Inr (cr_public L k)"
    using public_key_roundtrip by blast
  show thesis
    using key pub(1) by (intro that [OF handshake_packet_new [OF uuid] pub(2)])
      (simp add: Connect_start_def newCrypt_def Let_def)
qed

lemma fresh_live: "fresh ch \<Longrightarrow> \<not> st_destroyed (c_stat ch)"
  by (simp add: fresh_def fresh_sender_def)

text \<open>Each message served and its answer written, in one step.\<close>

lemma serve_connect_step:
  assumes laws: "crypto_laws L" and S: "t_privateKey S = Some ks" "t_senderCh S = []" "0 \<le> t_maxDataLen S"
    and uuid: "length uuid < 256"
    and p: "handshake_packet statusConnect uuid pub p" "bytesToPublicKey L pub = Inr (cr_public L kc)"
  obtains S' enc spub q r where "sender_step (serve L env ca (marshalBinary p) S) = S'"
    "handshake_packet statusConnectServerAnswer uuid enc q" "last_udp S' = marshalBinary q" "t_senderCh S' = []"
    "rsa_decrypt L \<lparr>k_private = kc, k_session = []\<rparr> enc = Inr spub" "bytesToPublicKey L spub = Inr (cr_public L ks)"
    "getChannel ca S' = Some r" "r < length (t_heap S')" "fresh (get_ch S' r)"
    "c_crypt (get_ch S' r) = \<lparr>k_private = ks, k_session = []\<rparr>"
proof -
  obtain q1 where q1: "unmarshalBinary (marshalBinary p) (newPacket (te_now env)) = Inr q1" "handshake_packet statusConnect uuid pub q1"
    using handshake_packet_arrival [OF p(1)] by blast
  define S0 where "S0 = reconnected env ca statusConnect S"
  have S0: "t_privateKey S0 = Some ks" "t_senderCh S0 = []" "0 \<le> t_maxDataLen S0"
    using S by (simp_all add: S0_def reconnected_frame)
  let ?r = "length (t_heap S0)" and ?ch = "make_channel (te_now env) S0 ca True \<lparr>k_private = ks, k_session = []\<rparr>"
  obtain S1 enc spub q where 2: "serve_connect L env ca q1 S0 = (None, S1)"
    "rsa_decrypt L \<lparr>k_private = kc, k_session = []\<rparr> enc = Inr spub" "bytesToPublicKey L spub = Inr (cr_public L ks)"
    "handshake_packet statusConnectServerAnswer uuid enc q" "t_senderCh S1 = [(?r, q)]" "getChannel ca S1 = Some ?r"
    "t_heap S1 = t_heap S0 @ [?ch]"
    using serve_connect_success [OF laws S0(1) uuid q1(2) p(2), of env ca] S0(2) by (metis append_Nil)
  have "serve L env ca (marshalBinary p) S = S1"
    using q1 2(1) by (intro serve_handshake [OF q1(1)]) (simp_all add: handshake_packet_def connect_serve_def S0_def)
  then show thesis
    using sender_step_single [OF 2(5)] 2(2-7) fresh_make [OF S0(3)]
    by (intro that [of "sender_step S1" enc q spub ?r]) (simp_all add: getChannel_def, simp_all add: make_channel_def Let_def)
qed

lemma serve_server_answer_step:
  assumes laws: "crypto_laws L" and C: "t_privateKey C = Some kc" "t_senderCh C = []" "0 \<le> t_maxDataLen C"
    and uuid: "length uuid < 256"
    and p: "handshake_packet statusConnectServerAnswer uuid enc p" "rsa_decrypt L \<lparr>k_private = kc, k_session = []\<rparr> enc = Inr spub"
      "bytesToPublicKey L spub = Inr (cr_public L ks)"
    and cd: "connect_get uuid C = Some cd"
  obtains C' enc' q r sk where "sender_step (serve L env sa (marshalBinary p) C) = C'"
    "handshake_packet statusConnectClientAnswer uuid enc' q" "last_udp C' = marshalBinary q" "t_senderCh C' = []"
    "rsa_decrypt L \<lparr>k_private = ks, k_session = []\<rparr> enc' = Inr sk" "length sk = 32"
    "connect_get uuid C' = Some (cd\<lparr>cd_ch := Some r\<rparr>)" "getChannel sa C' = Some r" "fresh (get_ch C' r)"
    "c_crypt (get_ch C' r) = \<lparr>k_private = kc, k_session = sk\<rparr>"
proof -
  obtain q1 where q1: "unmarshalBinary (marshalBinary p) (newPacket (te_now env)) = Inr q1"
    "handshake_packet statusConnectServerAnswer uuid enc q1"
    using handshake_packet_arrival [OF p(1)] by blast
  let ?r = "length (t_heap C)"
  let ?ch = "\<lambda>sk. (make_channel (te_now env) C sa False \<lparr>k_private = kc, k_session = []\<rparr>)
       \<lparr>c_crypt := \<lparr>k_private = kc, k_session = sk\<rparr>\<rparr>"
  obtain C1 enc' q sk where 2: "serve_server_answer L env sa q1 C = (None, C1)"
    "rsa_decrypt L \<lparr>k_private = ks, k_session = []\<rparr> enc' = Inr sk" "length sk = 32"
    "handshake_packet statusConnectClientAnswer uuid enc' q" "t_senderCh C1 = [(?r, q)]" "getChannel sa C1 = Some ?r"
    "connect_get uuid C1 = Some (cd\<lparr>cd_ch := Some ?r\<rparr>)" "t_heap C1 = t_heap C @ [?ch sk]"
    using serve_server_answer_success [OF laws C(1) uuid q1(2) p(2,3) cd, of env sa] C(2) by (metis append_Nil)
  have "serve L env sa (marshalBinary p) C = C1"
    using q1 2(1)
    by (intro serve_handshake [OF q1(1)]) (simp_all add: handshake_packet_def connect_serve_def reconnected_id)
  then show thesis
    using sender_step_single [OF 2(5)] 2(2-8) fresh_make [OF C(3)]
    by (intro that [of "sender_step C1" enc' q sk ?r]) (simp_all add: getChannel_def connect_get_def)
qed

lemma serve_client_answer_step:
  assumes S: "t_senderCh S = []" "getChannel ca S = Some r" "r < length (t_heap S)" "fresh (get_ch S r)"
      "c_crypt (get_ch S r) = \<lparr>k_private = ks, k_session = []\<rparr>"
    and uuid: "length uuid < 256"
    and p: "handshake_packet statusConnectClientAnswer uuid enc p" "rsa_decrypt L \<lparr>k_private = ks, k_session = []\<rparr> enc = Inr sk"
  obtains S' q where "sender_step (serve L env ca (marshalBinary p) S) = S'"
    "handshake_packet statusConnectDone uuid [] q" "last_udp S' = marshalBinary q" "t_senderCh S' = []"
    "getChannel ca S' = Some r" "fresh (get_ch S' r)" "c_crypt (get_ch S' r) = \<lparr>k_private = ks, k_session = sk\<rparr>"
proof -
  obtain q1 where q1: "unmarshalBinary (marshalBinary p) (newPacket (te_now env)) = Inr q1"
    "handshake_packet statusConnectClientAnswer uuid enc q1"
    using handshake_packet_arrival [OF p(1)] by blast
  obtain S1 q where 2: "serve_client_answer L env ca q1 S = (None, S1)" "handshake_packet statusConnectDone uuid [] q"
    "t_senderCh S1 = [(r, q)]" "getChannel ca S1 = Some r"
    "t_heap S1 = (t_heap S)[r := (get_ch S r)\<lparr>c_crypt := setSesionKey sk (c_crypt (get_ch S r))\<rparr>]"
    using serve_client_answer_success [OF uuid q1(2) _ S(2), of L sk env] p(2) S(1,5) by (metis append_Nil)
  have "serve L env ca (marshalBinary p) S = S1"
    using q1 2(1)
    by (intro serve_handshake [OF q1(1)]) (simp_all add: handshake_packet_def connect_serve_def reconnected_id)
  then show thesis
    using sender_step_single [OF 2(3)] 2(2-5) S(3-5) fresh_live [OF S(4)]
    by (intro that [of "sender_step S1" q]) (simp_all add: getChannel_def setSesionKey_def)
qed

lemma serve_done_step:
  assumes uuid: "length uuid < 256" and p: "handshake_packet statusConnectDone uuid d p"
    and cd: "connect_get uuid C = Some cd" "cd_wch cd = WWaiting"
  shows "serve L env sa (marshalBinary p) C = connect_put uuid (cd\<lparr>cd_wch := WSent (cd_ch cd)\<rparr>) C"
proof -
  obtain q where q: "unmarshalBinary (marshalBinary p) (newPacket (te_now env)) = Inr q" "handshake_packet statusConnectDone uuid d q"
    using handshake_packet_arrival [OF p] by blast
  show ?thesis
    using q(2) serve_done_success [OF q(2) cd]
    by (intro serve_handshake [OF q(1)]) (simp_all add: handshake_packet_def connect_serve_def reconnected_id)
qed

text \<open>The four messages, the states between them, and the outcome.\<close>

lemma handshake_messages:
  assumes laws: "crypto_laws L" and uuid: "length uuid < 256"
    and C: "t_privateKey C = Some kc" "t_senderCh C = []" "0 \<le> t_maxDataLen C"
    and S: "t_privateKey S = Some ks" "t_senderCh S = []" "0 \<le> t_maxDataLen S"
    and run: "handshake L env uuid sa ca C S = (C', S')"
  obtains p1 p2 p3 p4 pub enc enc' sk rc rs C1 S1 C2 where
    "Connect_start L (env 0) uuid (Some sa) C = (None, C1)" "C1 = tell [EvUdp sa (marshalBinary p1)] (connect_add uuid C)"
    "handshake_packet statusConnect uuid pub p1"
    "S1 = sender_step (serve L (env 1) ca (marshalBinary p1) S)"
    "handshake_packet statusConnectServerAnswer uuid enc p2" "last_udp S1 = marshalBinary p2"
    "C2 = sender_step (serve L (env 2) sa (marshalBinary p2) C1)"
    "handshake_packet statusConnectClientAnswer uuid enc' p3" "last_udp C2 = marshalBinary p3"
    "rsa_decrypt L \<lparr>k_private = ks, k_session = []\<rparr> enc' = Inr sk" "length sk = 32"
    "S' = sender_step (serve L (env 3) ca (marshalBinary p3) S1)"
    "handshake_packet statusConnectDone uuid [] p4" "last_udp S' = marshalBinary p4"
    "C' = serve L (env 4) sa (marshalBinary p4) C2"
    "connect_wait False uuid C' = Some (Connected (Some rc))" "getChannel sa C' = Some rc" "getChannel ca S' = Some rs"
    "fresh (get_ch C' rc)" "fresh (get_ch S' rs)" "t_senderCh C' = []" "t_senderCh S' = []"
    "c_crypt (get_ch C' rc) = \<lparr>k_private = kc, k_session = sk\<rparr>" "c_crypt (get_ch S' rs) = \<lparr>k_private = ks, k_session = sk\<rparr>"
proof -
  obtain p1 pub where 1: "handshake_packet statusConnect uuid pub p1" "bytesToPublicKey L pub = Inr (cr_public L kc)"
    "Connect_start L (env 0) uuid (Some sa) C = (None, tell [EvUdp sa (marshalBinary p1)] (connect_add uuid C))"
    by (rule Connect_start_success [OF laws C(1) uuid])
  define C1 where "C1 = tell [EvUdp sa (marshalBinary p1)] (connect_add uuid C)"
  have C1: "t_privateKey C1 = Some kc" "t_senderCh C1 = []" "0 \<le> t_maxDataLen C1" "last_udp C1 = marshalBinary p1"
    "connect_get uuid C1 = Some \<lparr>cd_uuid = uuid, cd_wch = WWaiting, cd_ch = None\<rparr>"
    using C by (simp_all add: C1_def tell_def connect_add_def last_udp_def connect_get_def)
  obtain S1 enc spub p2 rs where 2: "sender_step (serve L (env 1) ca (marshalBinary p1) S) = S1"
    "handshake_packet statusConnectServerAnswer uuid enc p2" "last_udp S1 = marshalBinary p2" "t_senderCh S1 = []"
    "rsa_decrypt L \<lparr>k_private = kc, k_session = []\<rparr> enc = Inr spub" "bytesToPublicKey L spub = Inr (cr_public L ks)"
    "getChannel ca S1 = Some rs" "rs < length (t_heap S1)" "fresh (get_ch S1 rs)"
    "c_crypt (get_ch S1 rs) = \<lparr>k_private = ks, k_session = []\<rparr>"
    by (rule serve_connect_step [OF laws S uuid 1(1,2)])
  obtain C2 enc' p3 rc sk where 3: "sender_step (serve L (env 2) sa (marshalBinary p2) C1) = C2"
    "handshake_packet statusConnectClientAnswer uuid enc' p3" "last_udp C2 = marshalBinary p3" "t_senderCh C2 = []"
    "rsa_decrypt L \<lparr>k_private = ks, k_session = []\<rparr> enc' = Inr sk" "length sk = 32"
    "connect_get uuid C2 = Some \<lparr>cd_uuid = uuid, cd_wch = WWaiting, cd_ch = Some rc\<rparr>" "getChannel sa C2 = Some rc"
    "fresh (get_ch C2 rc)" "c_crypt (get_ch C2 rc) = \<lparr>k_private = kc, k_session = sk\<rparr>"
    using serve_server_answer_step [OF laws C1(1-3) uuid 2(2,5,6) C1(5)] by (metis connectData.update_convs(3))
  obtain S2 p4 where 4: "sender_step (serve L (env 3) ca (marshalBinary p3) S1) = S2"
    "handshake_packet statusConnectDone uuid [] p4" "last_udp S2 = marshalBinary p4" "t_senderCh S2 = []"
    "getChannel ca S2 = Some rs" "fresh (get_ch S2 rs)" "c_crypt (get_ch S2 rs) = \<lparr>k_private = ks, k_session = sk\<rparr>"
    by (rule serve_client_answer_step [OF 2(4,7-10) uuid 3(2,5)])
  let ?C = "connect_put uuid \<lparr>cd_uuid = uuid, cd_wch = WSent (Some rc), cd_ch = Some rc\<rparr> C2"
  have 5: "serve L (env 4) sa (marshalBinary p4) C2 = ?C"
    using serve_done_step [OF uuid 4(2) 3(7)] by simp
  have fin: "C' = ?C" "S' = S2"
    using run 1(3) C1(4) 2(1,3) 3(1,3) 4(1,3) 5 by (simp_all add: handshake_def Let_def flip: C1_def)
  have C': "connect_wait False uuid ?C = Some (Connected (Some rc))" "getChannel sa ?C = Some rc" "t_heap ?C = t_heap C2"
    "t_senderCh ?C = []"
    using 3(4,8) by (simp_all add: connect_wait_def connect_get_def connect_put_def getChannel_def)
  show thesis
    by (rule that [OF 1(3) [folded C1_def] C1_def 1(1) 2(1) [symmetric] 2(2,3) 3(1) [symmetric] 3(2,3,5,6) 4(1) [symmetric, folded fin(2)]
      4(2) 4(3) [folded fin(2)] 5 [symmetric, folded fin(1)] C'(1) [folded fin(1)] C'(2) [folded fin(1)] 4(5) [folded fin(2)]])
      (simp_all add: fin C' 3(9,10) 4(4,6,7))
qed

lemma handshake_agrees:
  assumes "crypto_laws L" "length uuid < 256"
    and "t_privateKey C = Some kc" "t_senderCh C = []" "0 \<le> t_maxDataLen C"
    and "t_privateKey S = Some ks" "t_senderCh S = []" "0 \<le> t_maxDataLen S"
    and "handshake L env uuid sa ca C S = (C', S')"
  shows "\<exists>rc rs. connect_wait False uuid C' = Some (Connected (Some rc)) \<and>
     getChannel sa C' = Some rc \<and> getChannel ca S' = Some rs \<and>
     fresh (get_ch C' rc) \<and> fresh (get_ch S' rs) \<and> length (k_session (c_crypt (get_ch C' rc))) = 32 \<and>
     k_session (c_crypt (get_ch S' rs)) = k_session (c_crypt (get_ch C' rc))"
  by (rule handshake_messages [OF assms]) auto

text \<open>A new channel without a session key passes the first data packet on as it is.\<close>

lemma first_data_read:
  assumes "\<not> st_destroyed (c_stat ch)" "c_expectedID ch = 0" "c_recvQueue ch = rq_init" "c_combine ch = combine_clear"
    and "k_session (c_crypt ch) = []" "p_status q = statusData" "p_id q = 0"
  shows "snd (serve_channel L env q ch) = [OSend (control_packet env 0 statusAck), ORead q]"
proof -
  have "set_data (p_data q) q = q" by (simp add: set_data_def)
  moreover have "process (\<lambda>st. c_expectedID (fst st)) f rq_init st = (rq_init, st)" for f and st :: "channel \<times> out list"
    by (simp add: process.simps rq_get_def rq_init_def)
  ultimately show ?thesis
    using assms by (simp add: serve_channel_def serve_data_def Let_def split_def decryptPacketData_def ison_def writeToAck_eq
        accept_data_def distance_def sendToReader_def newExpectedID_def combine_packet_def combine_clear_def)
qed

subsection \<open>Properties\<close>



text \<open>
  C27: A connect-done that comes before the server's answer. It is accepted from any address as
  soon as its identifier is known, so Connect returns without an error and without a channel;
  and when a reader was given, setting it on the missing channel panics.
\<close>

lemma nil_channel:
  assumes "unmarshalBinary bs (newPacket (te_now env)) = Inr pac" "p_status pac = statusConnectDone"
    and "connect_unmarshal (p_data pac) = Inr cp" "connect_get (cp_uuid cp) tru = Some cd"
    and "cd_wch cd = WWaiting" "cd_ch cd = None"
  shows "connect_wait timedout (cp_uuid cp) (serve L env addr bs tru) = Some (Connected None) \<and>
     Connect_finish None (Connected None) (serve L env addr bs tru) = (Connected None, serve L env addr bs tru) \<and>
     fst (Connect_finish (Some f) (Connected None) (serve L env addr bs tru)) = ConnectPanic"
proof -
  have p: "handshake_packet statusConnectDone (cp_uuid cp) (cp_data cp) pac"
    using assms(2,3) by (simp add: handshake_packet_def)
  have "serve L env addr bs tru = connect_put (cp_uuid cp) (cd\<lparr>cd_wch := WSent None\<rparr>) tru"
    using serve_done_success [OF p assms(4,5)] assms(2,6)
    by (intro serve_handshake [OF assms(1)]) (simp_all add: connect_serve_def reconnected_id)
  then show ?thesis
    by (simp add: connect_wait_def connect_get_def connect_put_def Connect_finish_def)
qed

lemma nil_channel_witness:
  "connect_wait False [7] (serve plain_crypto sample_tenv ''x''
     (marshalBinary (set_data (connect_marshal \<lparr>cp_uuid = [7], cp_data = []\<rparr>) (set_status statusConnectDone (newPacket 0))))
     (snd (Connect_start plain_crypto sample_tenv [7] (Some ''s'') sample_tru))) = Some (Connected None)"
proof -
  let ?p = "set_data (connect_marshal \<lparr>cp_uuid = [7], cp_data = []\<rparr>) (set_status statusConnectDone (newPacket 0))"
  let ?t = "snd (Connect_start plain_crypto sample_tenv [7] (Some ''s'') sample_tru)"
  have "handshake_packet statusConnectDone [7] [] ?p"
    by (rule handshake_packet_new) simp
  then obtain q where q: "unmarshalBinary (marshalBinary ?p) (newPacket (te_now sample_tenv)) = Inr q"
    "p_status q = statusConnectDone" "connect_unmarshal (p_data q) = Inr \<lparr>cp_uuid = [7], cp_data = []\<rparr>"
    using handshake_packet_arrival unfolding handshake_packet_def by blast
  have "connect_get [7] ?t = Some \<lparr>cd_uuid = [7], cd_wch = WWaiting, cd_ch = None\<rparr>"
    by code_simp
  from nil_channel [OF q, unfolded connectPacketData.select_convs, OF this] show ?thesis
    by simp
qed

text \<open>
  C31: A connect packet that arrives again from the address of a live channel, such as a delayed
  copy of the one that opened it. It destroys the channel and puts a new one without a session
  key in its place; and until the handshake is through, a data packet of the old session with
  the first identifier is passed to the reader undecrypted.
\<close>

lemma replayed_connect:
  assumes "crypto_laws L" "tru_ok tru" "getChannel a tru = Some r" "t_privateKey tru = Some k" "length uuid < 256"
    and "handshake_packet statusConnect uuid pub p" "bytesToPublicKey L pub = Inr (cr_public L kc)"
    and "p_status d = statusData" "p_id d = 0"
  shows "\<exists>n t'. serve L env a (marshalBinary p) tru = t' \<and> st_destroyed (c_stat (get_ch t' r)) \<and>
     getChannel a t' = Some n \<and> k_session (c_crypt (get_ch t' n)) = [] \<and>
     (\<exists>q. p_data q = p_data d \<and> t_readerCh (serve L env' a (marshalBinary d) t') = t_readerCh t' @ [(n, q)])"
proof -
  have r: "r < length (t_heap tru)" using getChannel_ok [OF assms(2,3)] by blast
  define t0 where "t0 = reconnected env a statusConnect tru"
  let ?n = "length (t_heap t0)"
  obtain q1 where q1: "unmarshalBinary (marshalBinary p) (newPacket (te_now env)) = Inr q1" "handshake_packet statusConnect uuid pub q1"
    using handshake_packet_arrival [OF assms(6)] by blast
  obtain t' where t': "serve_connect L env a q1 t0 = (None, t')" "getChannel a t' = Some ?n"
    "t_heap t' = t_heap t0 @ [make_channel (te_now env) t0 a True \<lparr>k_private = k, k_session = []\<rparr>]"
    using serve_connect_success [OF assms(1) _ assms(5) q1(2) assms(7), of t0 k env a] assms(4)
    by (auto simp: t0_def reconnected_frame)
  have run: "serve L env a (marshalBinary p) tru = t'"
    using q1 t'(1) by (intro serve_handshake [OF q1(1)]) (simp_all add: handshake_packet_def connect_serve_def t0_def)
  have dead: "r < ?n" "st_destroyed (c_stat (get_ch t0 r))"
    using assms(3) r by (simp_all add: t0_def reconnected_def destroy_get channel_stop_def)
  have new: "get_ch t' ?n = make_channel (te_now env) t0 a True \<lparr>k_private = k, k_session = []\<rparr>"
    by (simp add: t'(3))
  obtain q where q: "unmarshalBinary (marshalBinary d) (newPacket (te_now env')) = Inr q"
    "p_data q = p_data d" "p_status q = statusData" "p_id q = 0"
    using assms(8,9) by (simp add: unmarshal_marshal)
  have "snd (serve_channel L (te_wenv env') q (get_ch t' ?n)) = [OSend (control_packet (te_wenv env') 0 statusAck), ORead q]"
    unfolding new using q(3,4) by (intro first_data_read)
      (simp_all add: make_channel_def Let_def stat_init_def stat_zero_def stat_armActivity_def stat_setLastActivity_def)
  then obtain ch where "serve_channel L (te_wenv env') q (get_ch t' ?n) =
      (ch, [OSend (control_packet (te_wenv env') 0 statusAck), ORead q])"
    by (metis prod.collapse)
  then have "t_readerCh (serve L env' a (marshalBinary d) t') = t_readerCh t' @ [(?n, q)]"
    using q(1,3) t'(2) unfolding serve_def by (simp add: Let_def emit_eq) (simp add: put_ch_def)
  then show ?thesis
    using run dead t'(2) new q(2) by (auto simp: t'(3) nth_append make_channel_def Let_def)
qed

lemma replayed_connect_witness:
  "st_destroyed (c_stat (get_ch (serve plain_crypto sample_tenv ''a''
     (marshalBinary (set_data (connect_marshal \<lparr>cp_uuid = [7], cp_data = [5]\<rparr>) (set_status statusConnect (newPacket 0)))) sample_tru1) 0))"
proof -
  let ?p = "set_data (connect_marshal \<lparr>cp_uuid = [7], cp_data = [5]\<rparr>) (set_status statusConnect (newPacket 0))"
  have "handshake_packet statusConnect [7] [5] ?p"
    by (rule handshake_packet_new) simp
  moreover have "bytesToPublicKey plain_crypto [5] = Inr (cr_public plain_crypto [5])" "t_privateKey sample_tru1 = Some [1]"
    by code_simp+
  ultimately show ?thesis
    using replayed_connect [OF plain_crypto_laws sample_tru1_ok(1,3), where uuid = "[7]" and pub = "[5]" and p = ?p and k = "[1]"
        and kc = "[5]" and d = "set_status statusData (newPacket 0)" and env = sample_tenv]
    by (auto simp: packet_setters newPacket_def)
qed

text \<open>
  C32: The session key of a live channel can be replaced from outside. A client answer is served
  in any state of the handshake: a datagram of that status from the peer's address that carries
  a key encrypted for the connector's public key, which the connector gives to everyone, makes
  that key the channel's session key; and one that carries nothing leaves it empty, so that from
  then on every packet is sent in the clear. The channel stays live and mapped.
\<close>

lemma key_replaced:
  assumes "crypto_laws L" "tru_ok tru" "getChannel a tru = Some r"
    and "rsa_encrypt L seeds (cr_public L (k_private (c_crypt (get_ch tru r)))) key = Inr enc"
    and "handshake_packet statusConnectClientAnswer uuid enc p"
  shows "let t' = serve L env a (marshalBinary p) tru in
     getChannel a t' = Some r \<and> \<not> st_destroyed (c_stat (get_ch t' r)) \<and> k_session (c_crypt (get_ch t' r)) = key \<and>
     (key = [] \<longrightarrow> encryptPacketData L rnd (c_crypt (get_ch t' r)) i data = Inr data)"
proof -
  have r: "r < length (t_heap tru)" "\<not> st_destroyed (c_stat (get_ch tru r))"
    using getChannel_ok [OF assms(2,3)] by blast+
  obtain q where q: "unmarshalBinary (marshalBinary p) (newPacket (te_now env)) = Inr q"
    "p_status q = statusConnectClientAnswer" "connect_unmarshal (p_data q) = Inr \<lparr>cp_uuid = uuid, cp_data = enc\<rparr>"
    using handshake_packet_arrival [OF assms(5)] unfolding handshake_packet_def by blast
  have "oaep_laws L" using assms(1) by (simp add: crypto_laws_def)
  then have dec: "rsa_decrypt L (c_crypt (get_ch tru r)) enc = Inr key"
    using rsa_roundtrip [of L seeds "c_crypt (get_ch tru r)" key] assms(4) by auto
  define pac where "pac = set_data (connect_marshal \<lparr>cp_uuid = uuid, cp_data = []\<rparr>) (set_status statusConnectDone (newPacket (te_now env)))"
  have "connect_serve L env a q tru =
      (None, emit r [OSend pac] (put_ch r ((get_ch tru r)\<lparr>c_crypt := setSesionKey key (c_crypt (get_ch tru r))\<rparr>) tru))"
    using q(2,3) assms(3) dec by (simp add: connect_serve_def serve_client_answer_def pac_def Let_def)
  then have "serve L env a (marshalBinary p) tru = emit r [OSend pac] (put_ch r ((get_ch tru r)\<lparr>c_crypt := setSesionKey key (c_crypt (get_ch tru r))\<rparr>) tru)"
    using q(1,2) by (intro serve_handshake [OF q(1)]) (simp_all add: reconnected_id)
  then show ?thesis
    using r assms(3) by (simp add: Let_def getChannel_def setSesionKey_def encryptPacketData_def ison_def)
qed

lemma key_replaced_witness:
  "k_session (c_crypt (get_ch (serve plain_crypto sample_tenv ''a''
     (marshalBinary (set_data (connect_marshal \<lparr>cp_uuid = [7], cp_data = []\<rparr>) (set_status statusConnectClientAnswer (newPacket 0))))
     (put_ch 0 ((get_ch sample_tru1 0)\<lparr>c_crypt := \<lparr>k_private = [1], k_session = [9]\<rparr>\<rparr>) sample_tru1)) 0)) = []"
proof -
  let ?t = "put_ch 0 ((get_ch sample_tru1 0)\<lparr>c_crypt := \<lparr>k_private = [1], k_session = [9]\<rparr>\<rparr>) sample_tru1"
  have "channel_ok (get_ch sample_tru1 0)"
    using sample_tru1_ok make_channel_ok by simp
  then have "tru_ok ?t"
    by (rule tru_ok_put [OF sample_tru1_ok(1) keeps_session])
  moreover have "getChannel ''a'' ?t = Some 0"
    using sample_tru1_ok(3) by (simp add: getChannel_def)
  moreover have "rsa_encrypt plain_crypto (\<lambda>_. []) (cr_public plain_crypto (k_private (c_crypt (get_ch ?t 0)))) [] = Inr []"
    by (simp add: rsa_encrypt_def)
  moreover have "handshake_packet statusConnectClientAnswer [7] []
      (set_data (connect_marshal \<lparr>cp_uuid = [7], cp_data = []\<rparr>) (set_status statusConnectClientAnswer (newPacket 0)))"
    by (rule handshake_packet_new) simp
  ultimately show ?thesis
    using key_replaced [OF plain_crypto_laws] unfolding Let_def by blast
qed

end
