(* ===== verification/Link.thy ===== *)
theory Link
  imports System
begin

section \<open>Two channels and the network between them\<close>

text \<open>
  The two ends of a session, running: each of them writes messages, serves what arrives, and is
  visited by its timers, in any interleaving, over a network that may lose, repeat, delay and
  reorder every packet.  The specification is a pair of reliable streams.
\<close>

subsection \<open>What a channel can do\<close>

text \<open>
  One operation on a channel, \<open>net\<close> being the packets that may arrive (or any packet that is neither
  data nor an acknowledgement): the new channel, its outputs, and the messages written.  A channel is stopped when it is destroyed, for whichever
  reason; what it does after that its peer does not see.
\<close>

inductive chan_op ::
  "crypto \<Rightarrow> packet list \<Rightarrow> channel \<Rightarrow> channel \<Rightarrow> out list \<Rightarrow> bytes list \<Rightarrow> bool" for L net ch where
  op_write: "(\<And>k. env_ok (envs k)) \<Longrightarrow> delivery_ok ds \<Longrightarrow> channel_WriteTo L envs ch m ds = (res, ch', out) \<Longrightarrow>
    chan_op L net ch ch' out [m]"
| op_serve: "p \<in> set net \<Longrightarrow> serve_channel L env (arrival now p) ch = (ch', out) \<Longrightarrow> chan_op L net ch ch' out []"
| op_control: "p_status pac \<notin> {statusData, statusDataNext, statusAck} \<Longrightarrow> serve_channel L env pac ch = (ch', out) \<Longrightarrow>
    chan_op L net ch ch' out []"
| op_retransmit: "channel_retransmit now ch = (ch', out, dead) \<Longrightarrow>
    chan_op L net ch (if dead then channel_stop ch' else ch') out []"
| op_ping: "writeToPing L env ch = (res, ch', out) \<Longrightarrow> chan_op L net ch ch' out []"
| op_activity: "chan_op L net ch (ch\<lparr>c_stat := stat_armActivity now (c_stat ch)\<rparr>) [] []"
| op_delivery: "delivery_timer now e ch = (ch', out) \<Longrightarrow> chan_op L net ch ch' out []"
| op_late_delivery: "late_delivery now i ch = (ch', out) \<Longrightarrow> chan_op L net ch ch' out []"
| op_send_speed: "chan_op L net ch (send_speed_timer now ch) [] []"
| op_recv_speed: "chan_op L net ch (recv_speed_timer now ch) [] []"
| op_reader: "chan_op L net ch (ch\<lparr>c_reader := f\<rparr>) [] []"
| op_close: "writeToDisconnect L env ch = (res, ch', out) \<Longrightarrow> chan_op L net ch (channel_stop ch') out []"
| op_stop: "chan_op L net ch (channel_stop ch) [] []"

text \<open>The fields the sending half and the receiving half of a channel consist of.\<close>

definition sender_view :: "channel \<Rightarrow> u32 \<times> int \<times> crypt \<times> bool \<times> (u32 \<times> u8 \<times> bytes) list" where
  "sender_view ch = (c_id ch, c_maxDataLen ch, c_crypt ch, sq_fifo (c_sendQueue ch), map wire_of (sq_items (c_sendQueue ch)))"

definition receiver_view :: "channel \<Rightarrow> u32 \<times> receive_queue \<times> combinePacket \<times> crypt" where
  "receiver_view ch = (c_expectedID ch, c_recvQueue ch, c_combine ch, c_crypt ch)"

lemma views_stat [simp]:
  "sender_view (ch\<lparr>c_stat := s\<rparr>) = sender_view ch" "receiver_view (ch\<lparr>c_stat := s\<rparr>) = receiver_view ch"
  "sender_view (ch\<lparr>c_reader := f\<rparr>) = sender_view ch" "receiver_view (ch\<lparr>c_reader := f\<rparr>) = receiver_view ch"
  by (simp_all add: sender_view_def receiver_view_def)

lemma views_speed_timers [simp]:
  "sender_view (send_speed_timer now ch) = sender_view ch" "receiver_view (send_speed_timer now ch) = receiver_view ch"
  "sender_view (recv_speed_timer now ch) = sender_view ch" "receiver_view (recv_speed_timer now ch) = receiver_view ch"
  by (simp_all add: send_speed_timer_def recv_speed_timer_def)

lemma views_stop [simp]: "sender_view (channel_stop ch) = sender_view ch" "receiver_view (channel_stop ch) = receiver_view ch"
  by (simp_all add: sender_view_def receiver_view_def channel_stop_def sq_destroy_def)

subsection \<open>Writing\<close>

lemma sq_items_fold_add [simp]: "sq_items (fold sq_add pks q) = sq_items q @ pks"
  by (induction pks arbitrary: q) (simp_all add: sqf.items_add)

lemma sq_fifo_fold_add:
  "sq_fifo q \<Longrightarrow> distinct (map p_id (sq_items q @ pks)) \<Longrightarrow> sq_fifo (fold sq_add pks q)"
proof (induction pks arbitrary: q)
  case (Cons p pks)
  have "sq_lookup q (p_id p) = None"
  proof (rule ccontr)
    assume "sq_lookup q (p_id p) \<noteq> None"
    then obtain a where "a \<in> set (sq_items q)" "p_id a = p_id p"
      using sqf.get_items [OF Cons.prems(1), of "p_id p"] by blast
    then have "p_id p \<in> p_id ` set (sq_items q)" by (metis imageI)
    then show False using Cons.prems(2) by simp
  qed
  then have "sq_fifo (sq_add p q)" by (rule sqf.fifo_add [OF Cons.prems(1)])
  then show ?case using Cons by (simp add: sqf.items_add)
qed simp

text \<open>A write touches the sending half only, and what it sends it has queued.\<close>

definition writes :: "channel \<Rightarrow> channel \<times> out list \<Rightarrow> bool" where
  "writes ch0 st \<longleftrightarrow> (\<exists>pks. c_sendQueue (fst st) = fold sq_add pks (c_sendQueue ch0) \<and>
     set (sends (snd st)) \<subseteq> set pks \<and> reads (snd st) = [] \<and> receiver_view (fst st) = receiver_view ch0 \<and>
     c_maxDataLen (fst st) = c_maxDataLen ch0)"

lemma sends_append [simp]: "sends (xs @ ys) = sends xs @ sends ys"
  by (induction xs rule: sends.induct) auto

lemma OSend_sends: "OSend p \<in> set os \<Longrightarrow> p \<in> set (sends os)"
  by (induction os rule: sends.induct) auto

lemma receiver_view_delay [simp]: "receiver_view (snd (writeToDelay env s ch)) = receiver_view ch"
  by (simp add: receiver_view_def)

lemma writes_packet:
  assumes "stat AND NOT statusSplit = statusData"
  shows "writes ch (writeTo_packet env ch i d stat f t)"
proof -
  define pac where "pac = (let p = setRetransmitTime (we_sent env) ch (set_data d (set_status stat (set_id i (newPacket (we_sent env)))))
     in if stat = statusData then setDelivery (we_sent env) f (setDeliveryTimeout t p) else p)"
  show ?thesis
    using assms unfolding writes_def
    by (intro exI [of _ "[pac]"]) (auto simp: writeTo_packet_def pac_def Let_def receiver_view_def)
qed

lemma writes_trans:
  assumes "writes a (b, o1)" "writes b (c, o2)"
  shows "writes a (c, o1 @ o2)"
proof -
  obtain p q where "c_sendQueue b = fold sq_add p (c_sendQueue a)" "set (sends o1) \<subseteq> set p" "reads o1 = []"
    "receiver_view b = receiver_view a" "c_maxDataLen b = c_maxDataLen a" "c_maxDataLen c = c_maxDataLen b"
    "c_sendQueue c = fold sq_add q (c_sendQueue b)" "set (sends o2) \<subseteq> set q" "reads o2 = []" "receiver_view c = receiver_view b"
    using assms by (auto simp: writes_def)
  then show ?thesis
    unfolding writes_def by (intro exI [of _ "p @ q"]) auto
qed

lemma writes_refl [simp]: "writes ch (ch, [])"
  by (auto simp: writes_def intro: exI [of _ "[]"])

lemma writes_cong:
  "writes a st \<Longrightarrow> c_sendQueue a = c_sendQueue b \<Longrightarrow> receiver_view a = receiver_view b \<Longrightarrow>
   c_maxDataLen a = c_maxDataLen b \<Longrightarrow> writes b st"
  by (simp add: writes_def)

lemma writes_writeTo:
  assumes "stat AND NOT statusSplit = statusData"
  shows "writes ch (snd (writeTo L env ch d stat ds is))"
proof (cases "st_destroyed (c_stat ch)")
  case True
  then show ?thesis by (simp add: writeTo_def)
next
  case live: False
  let ?ch = "snd (newID (snd (writeToDelay env statusData ch)))"
  have eq: "c_sendQueue ?ch = c_sendQueue ch" "receiver_view ?ch = receiver_view ch" "c_maxDataLen ?ch = c_maxDataLen ch"
    by (simp_all add: newID_def receiver_view_def)
  show ?thesis
  proof (cases "parse_delivery None DeliveryTimeout ds")
    case (Inl e)
    then show ?thesis using live by (simp add: writeTo_def)
  next
    case (Inr ft)
    have "writes ch (?ch, [])"
      using eq by (intro writes_cong [OF writes_refl [of ?ch]])
    moreover have "writes ch (writeTo_packet env ?ch i d' stat (fst ft) (snd ft))" for i d'
      using eq by (intro writes_cong [OF writes_packet [OF assms]])
    ultimately show ?thesis
      using live Inr assms by (auto simp: writeTo_def Let_def split_def split: sum.split)
  qed
qed

lemma writes_WriteTo: "writes ch (snd (channel_WriteTo L envs ch data ds))"
proof -
  have step: "writes ch (fst (snd (channel_writer L envs ds d sp st)), fst (snd (snd (channel_writer L envs ds d sp st))))"
    if sp: "sp = 0 \<or> sp = statusSplit" and st: "writes ch (fst st, fst (snd st))" for d sp st
  proof -
    obtain ch1 o1 k where st': "st = (ch1, o1, k)" by (cases st)
    obtain r ch2 o2 where w: "writeTo L (envs k) ch1 d (statusData OR sp) ds [] = (r, ch2, o2)"
      by (metis prod.collapse)
    have "writes ch1 (ch2, o2)"
      using writes_writeTo [OF split_status [OF sp], of ch1 L "envs k" d ds "[]"] w by simp
    then show ?thesis
      using writes_trans [of ch ch1 o1 ch2 o2] st w st' by (simp add: channel_writer_def)
  qed
  have "writes ch (fst (snd (split_loop (channel_writer L envs ds) m 0 0 data (ch, [], 0))),
      fst (snd (snd (split_loop (channel_writer L envs ds) m 0 0 data (ch, [], 0)))))" for m
    by (rule split_loop_keeps_pieces [where P = "\<lambda>st. writes ch (fst st, fst (snd st))"]) (simp_all add: step)
  then show ?thesis
    by (simp add: channel_WriteTo_def splitPacket_def split_def)
qed

subsection \<open>Serving\<close>

lemma sendToReader_views:
  "sender_view (fst (sendToReader now p st)) = sender_view (fst st) \<and>
   sends (snd (sendToReader now p st)) = sends (snd st) \<and>
   st_destroyed (c_stat (fst (sendToReader now p st))) = st_destroyed (c_stat (fst st))"
  by (simp add: sendToReader_def newExpectedID_def Let_def sender_view_def split: prod.split sum.split option.split)

lemma accept_data_sender:
  "sender_view (fst (accept_data now pac ch)) = sender_view ch \<and> sends (snd (accept_data now pac ch)) = [] \<and>
   st_destroyed (c_stat (fst (accept_data now pac ch))) = st_destroyed (c_stat ch)"
proof -
  let ?P = "\<lambda>st. sender_view (fst st) = sender_view ch \<and> sends (snd st) = [] \<and>
    st_destroyed (c_stat (fst st)) = st_destroyed (c_stat ch)"
  have "?P (snd (process ex (sendToReader now) q (sendToReader now pac (ch, []))))" for ex q
    by (rule process_keeps [where P = ?P]) (simp_all add: sendToReader_views)
  then show ?thesis
    by (auto simp: accept_data_def Let_def split_def sender_view_def split: option.split)
qed

text \<open>An acknowledgement removes the packets of its identifier, and does not touch the receiving half.\<close>

lemma serve_ack_effect:
  assumes "sq_fifo (c_sendQueue ch)"
  shows "sq_items (c_sendQueue (fst (serve_ack now pac ch))) = filter (\<lambda>p. p_id p \<noteq> p_id pac) (sq_items (c_sendQueue ch))"
    "sq_fifo (c_sendQueue (fst (serve_ack now pac ch)))"
    "receiver_view (fst (serve_ack now pac ch)) = receiver_view ch"
    "c_id (fst (serve_ack now pac ch)) = c_id ch" "c_maxDataLen (fst (serve_ack now pac ch)) = c_maxDataLen ch"
    "c_crypt (fst (serve_ack now pac ch)) = c_crypt ch"
    "sends (snd (serve_ack now pac ch)) = []" "reads (snd (serve_ack now pac ch)) = []"
proof -
  let ?i = "p_id pac" and ?q = "c_sendQueue ch"
  note del = sqf.items_del [OF assms, of ?i] sqf.fifo_del [OF assms, of ?i]
  obtain found q where d: "sq_delete ?i ?q = (found, q)" by fastforce
  have none: "q = ?q" if "sq_get ?q ?i = None"
    using that d by (simp add: sq_delete_def)
  have *: "sq_items (c_sendQueue (fst (serve_ack now pac ch))) = filter (\<lambda>p. p_id p \<noteq> ?i) (sq_items ?q) \<and>
    sq_fifo (c_sendQueue (fst (serve_ack now pac ch))) \<and>
    receiver_view (fst (serve_ack now pac ch)) = receiver_view ch \<and>
    c_id (fst (serve_ack now pac ch)) = c_id ch \<and> c_maxDataLen (fst (serve_ack now pac ch)) = c_maxDataLen ch \<and>
    c_crypt (fst (serve_ack now pac ch)) = c_crypt ch \<and>
    sends (snd (serve_ack now pac ch)) = [] \<and> reads (snd (serve_ack now pac ch)) = []"
    using del d none assms
    by (cases "sq_get ?q ?i"; cases found)
      (auto simp: serve_ack_def setTripTime_def Let_def receiver_view_def split: option.split)
  then show "sq_items (c_sendQueue (fst (serve_ack now pac ch))) = filter (\<lambda>p. p_id p \<noteq> p_id pac) (sq_items (c_sendQueue ch))"
    "sq_fifo (c_sendQueue (fst (serve_ack now pac ch)))"
    "receiver_view (fst (serve_ack now pac ch)) = receiver_view ch"
    "c_id (fst (serve_ack now pac ch)) = c_id ch" "c_maxDataLen (fst (serve_ack now pac ch)) = c_maxDataLen ch"
    "c_crypt (fst (serve_ack now pac ch)) = c_crypt ch"
    "sends (snd (serve_ack now pac ch)) = []" "reads (snd (serve_ack now pac ch)) = []"
    by blast+
qed

text \<open>What serving a packet does, by its status.\<close>

lemma serve_channel_ack:
  "p_status pac = statusAck \<Longrightarrow> serve_channel L env pac ch =
     (let (ch, out) = serve_ack (we_now env) pac ch
      in (ch\<lparr>c_stat := stat_setLastActivity (we_now env) (c_stat ch)\<rparr>, out))"
  by (simp add: serve_channel_def split_def Let_def)

lemma serve_channel_data_sender:
  assumes "p_status pac = statusData \<or> p_status pac = statusDataNext"
  shows "sender_view (fst (serve_channel L env pac ch)) = sender_view ch"
    and "set (sends (snd (serve_channel L env pac ch))) \<subseteq> {control_packet env (p_id pac) statusAck}"
proof -
  have *: "sender_view (fst (serve_channel L env pac ch)) = sender_view ch \<and>
     set (sends (snd (serve_channel L env pac ch))) \<subseteq> {control_packet env (p_id pac) statusAck}"
  proof (cases "decryptPacketData L (c_crypt ch) (p_id pac) (p_data pac)")
    case (Inl e)
    then show ?thesis
      using assms by (auto simp: serve_channel_def serve_data_def Let_def)
  next
    case (Inr data)
    obtain ch' out where acc: "accept_data (we_now env) (set_data data pac) ch = (ch', out)" by fastforce
    show ?thesis
      using serve_channel_data [OF assms Inr acc] accept_data_sender [of "we_now env" "set_data data pac" ch] acc
      by (auto simp: writeToAck_eq)
  qed
  from * show "sender_view (fst (serve_channel L env pac ch)) = sender_view ch" by blast
  from * show "set (sends (snd (serve_channel L env pac ch))) \<subseteq> {control_packet env (p_id pac) statusAck}" by blast
qed

lemma serve_channel_other:
  assumes "p_status pac \<noteq> statusData" "p_status pac \<noteq> statusDataNext" "p_status pac \<noteq> statusAck"
  shows "sender_view (fst (serve_channel L env pac ch)) = sender_view ch"
    "receiver_view (fst (serve_channel L env pac ch)) = receiver_view ch"
    "reads (snd (serve_channel L env pac ch)) = []"
    "set (sends (snd (serve_channel L env pac ch))) \<subseteq> {control_packet env 0 statusPong}"
  using assms writeToPong_eq [of L env ch]
  by (auto simp: serve_channel_def Let_def split_def)

subsection \<open>The retransmission pass\<close>

lemma retransmit_sent_queued:
  "set (fst (snd (retransmit_loop now setRt es))) \<subseteq> snd ` set (fst (retransmit_loop now setRt es))"
proof (induction now setRt es rule: retransmit_loop.induct)
  case (2 now setRt e pac es)
  then show ?case
    by (cases "p_retransmitTime pac < now"; cases "maxRetransmitAttempts \<le> p_retransmitAttempts pac")
      (auto simp: Let_def split_def)
qed simp

lemma sends_map_OSend [simp]: "sends (map OSend ps) = ps"
  by (induction ps) auto

lemma sq_fifo_views:
  assumes fifo: "sq_fifo q" and fst: "map fst es = map fst (sq_queue q)"
    and wire: "map (wire_of \<circ> snd) es = map (wire_of \<circ> snd) (sq_queue q)"
  shows "sq_fifo (q\<lparr>sq_queue := es\<rparr>)"
proof -
  have ids: "map (p_id \<circ> snd) es = map (p_id \<circ> snd) (sq_queue q)"
    using arg_cong [OF wire, of "map fst"] by (simp add: wire_of_def o_def)
  have "gm_get (sq_index q) (p_id (snd x)) = Some (fst x)" if "x \<in> set es" for x
  proof -
    obtain j where j: "j < length es" "x = es ! j" using \<open>x \<in> set es\<close> by (metis in_set_conv_nth)
    have len: "length es = length (sq_queue q)" using arg_cong [OF fst, of length] by simp
    have "p_id (snd x) = p_id (snd (sq_queue q ! j))" "fst x = fst (sq_queue q ! j)"
      using j len arg_cong [OF ids, of "\<lambda>xs. xs ! j"] arg_cong [OF fst, of "\<lambda>xs. xs ! j"] by simp_all
    then show ?thesis
      using fifo j len by (simp add: sq_fifo_def)
  qed
  then show ?thesis
    using sq_ok_views [OF sqf.fifo_inv [OF fifo] fst wire] by (simp add: sq_fifo_def)
qed

lemma channel_retransmit_views:
  assumes run: "channel_retransmit now ch = (ch', out, dead)" and fifo: "sq_fifo (c_sendQueue ch)"
  shows "sender_view ch' = sender_view ch" "receiver_view ch' = receiver_view ch" "reads out = []"
    "set (sends out) \<subseteq> set (sq_items (c_sendQueue ch'))"
proof -
  obtain es sent d where r: "retransmit_loop now (setRetransmitTime now ch) (sq_queue (c_sendQueue ch)) = (es, sent, d)"
    by (metis prod.collapse)
  note frame = retransmit_loop_frame [of "setRetransmitTime now ch" now "sq_queue (c_sendQueue ch)", unfolded r, simplified]
  have fifo': "sq_fifo ((c_sendQueue ch)\<lparr>sq_queue := es\<rparr>)"
    using frame by (intro sq_fifo_views [OF fifo]) simp_all
  have items: "sq_items (c_sendQueue ch') = map snd es"
    using run r by (auto simp: channel_retransmit_def Let_def sq_retransmit_arm_def sq_items_def)
  have "map wire_of (map snd es) = map wire_of (sq_items (c_sendQueue ch))"
    using frame(2) by (simp add: sq_items_def)
  then show "sender_view ch' = sender_view ch"
    using run r fifo fifo' items by (auto simp: sender_view_def channel_retransmit_def Let_def sq_retransmit_arm_def)
  show "receiver_view ch' = receiver_view ch" "reads out = []"
    using run r by (auto simp: channel_retransmit_def Let_def receiver_view_def)
  show "set (sends out) \<subseteq> set (sq_items (c_sendQueue ch'))"
    using run r items retransmit_sent_queued [of now "setRetransmitTime now ch" "sq_queue (c_sendQueue ch)"]
    by (auto simp: channel_retransmit_def Let_def)
qed

lemma delivery_timer_wires:
  "delivery_timer now e ch = (ch', out) \<Longrightarrow> map wire_of (sq_items (c_sendQueue ch')) = map wire_of (sq_items (c_sendQueue ch))"
  by (auto simp: delivery_timer_def Let_def sq_items_def wire_of_def split: option.splits timer.splits if_splits)

lemma delivery_timer_views:
  assumes "delivery_timer now e ch = (ch', out)" "sq_fifo (c_sendQueue ch)"
  shows "sender_view ch' = sender_view ch \<and> receiver_view ch' = receiver_view ch \<and> sends out = [] \<and> reads out = []"
proof -
  let ?es = "map (\<lambda>(x, p). (x, if x = e then p\<lparr>p_deliveryTimer := Stopped\<rparr> else p)) (sq_queue (c_sendQueue ch))"
  have "map (wire_of \<circ> snd) ?es = map (wire_of \<circ> snd) (sq_queue (c_sendQueue ch))"
    by (auto simp: wire_of_def)
  moreover from this have "sq_fifo ((c_sendQueue ch)\<lparr>sq_queue := ?es\<rparr>)"
    by (rule sq_fifo_views [OF assms(2), rotated]) auto
  ultimately show ?thesis
    using assms
    by (auto simp: delivery_timer_def Let_def sender_view_def receiver_view_def sq_items_def
        split: option.splits timer.splits if_splits)
qed

lemma late_delivery_views:
  assumes "late_delivery now i ch = (ch', out)"
  shows "sender_view ch' = sender_view ch" "receiver_view ch' = receiver_view ch" "sends out = []" "reads out = []"
    "c_sendQueue ch' = c_sendQueue ch" "c_maxDataLen ch' = c_maxDataLen ch" "c_crypt ch' = c_crypt ch"
  using assms
  by (auto simp: late_delivery_def Let_def sender_view_def receiver_view_def split: option.splits timer.splits if_splits)

subsection \<open>The link\<close>

text \<open>
  An end of the link: its channel, every packet it has given to the network, the messages its
  application has written, and what its reader has got.
\<close>

record endpoint =
  e_ch :: channel
  e_net :: "packet list"
  e_msgs :: "bytes list"
  e_reads :: "packet list"

definition advance :: "endpoint \<Rightarrow> channel \<Rightarrow> out list \<Rightarrow> bytes list \<Rightarrow> endpoint" where
  "advance e ch out ms =
     \<lparr>e_ch = ch, e_net = e_net e @ sends out, e_msgs = e_msgs e @ ms, e_reads = e_reads e @ reads out\<rparr>"

text \<open>
  A step of one end.  Any packet the other end ever sent may arrive now, which covers loss,
  repetition, delay and reordering.
\<close>

inductive link_step :: "crypto \<Rightarrow> endpoint \<times> endpoint \<Rightarrow> endpoint \<times> endpoint \<Rightarrow> bool" for L where
  step_left: "\<not> st_destroyed (c_stat (e_ch a)) \<Longrightarrow> chan_op L (e_net b) (e_ch a) ch out ms \<Longrightarrow>
    link_step L (a, b) (advance a ch out ms, b)"
| step_right: "\<not> st_destroyed (c_stat (e_ch b)) \<Longrightarrow> chan_op L (e_net a) (e_ch b) ch out ms \<Longrightarrow>
    link_step L (a, b) (a, advance b ch out ms)"

inductive_cases link_stepE: "link_step L ab ab'"

abbreviation link_steps :: "crypto \<Rightarrow> endpoint \<times> endpoint \<Rightarrow> endpoint \<times> endpoint \<Rightarrow> bool" where
  "link_steps L \<equiv> (link_step L)\<^sup>*\<^sup>*"

definition sent_stream :: "endpoint \<Rightarrow> (bytes \<times> u8) list" where
  "sent_stream e = stream_fragments (e_ch e) (e_msgs e)"

text \<open>A link that carries at most half the identifiers in each direction.\<close>

definition short_link :: "endpoint \<times> endpoint \<Rightarrow> bool" where
  "short_link ab \<longleftrightarrow> length (sent_stream (fst ab)) \<le> 2 ^ 19 \<and> length (sent_stream (snd ab)) \<le> 2 ^ 19"

definition fresh_end :: "channel \<Rightarrow> endpoint" where
  "fresh_end ch = \<lparr>e_ch = ch, e_net = [], e_msgs = [], e_reads = []\<rparr>"

text \<open>
  The invariant of the stream from \<open>a\<close> to \<open>b\<close>: the receiver has the packets \<open>A\<close>; every queued
  packet and every data packet on the network carries a fragment of the stream; what is
  acknowledged is in \<open>A\<close>; and each packet is in \<open>A\<close> or still queued at the sender.
\<close>

definition is_data :: "packet \<Rightarrow> bool" where
  "is_data p \<longleftrightarrow> p_status p = statusData \<or> p_status p = statusDataNext"

definition stream_carries :: "crypto \<Rightarrow> endpoint \<Rightarrow> packet \<Rightarrow> bool" where
  "stream_carries L a p \<longleftrightarrow>
     (\<exists>n<length (sent_stream a). carries L (c_crypt (e_ch a)) (plain_stream (sent_stream a)) n p)"

definition sender_inv :: "crypto \<Rightarrow> endpoint \<Rightarrow> bool" where
  "sender_inv L a \<longleftrightarrow> c_id (e_ch a) = rep_id (length (sent_stream a)) \<and> 0 \<le> c_maxDataLen (e_ch a) \<and>
     sq_fifo (c_sendQueue (e_ch a)) \<and> (\<forall>p\<in>set (sq_items (c_sendQueue (e_ch a))). stream_carries L a p) \<and>
     (\<forall>p\<in>set (e_net a). is_data p \<longrightarrow> stream_carries L a p)"

definition receiver_inv :: "endpoint \<Rightarrow> endpoint \<Rightarrow> nat set \<Rightarrow> bool" where
  "receiver_inv a b A \<longleftrightarrow> A \<subseteq> {..<length (sent_stream a)} \<and>
     (\<exists>hist. received (plain_stream (sent_stream a)) A hist (e_ch b) \<and> e_reads b = fst (combine_all hist combine_clear)) \<and>
     (\<forall>p\<in>set (e_net b). p_status p = statusAck \<longrightarrow> (\<exists>n\<in>A. p_id p = rep_id n))"

definition kept :: "endpoint \<Rightarrow> nat set \<Rightarrow> bool" where
  "kept a A \<longleftrightarrow> (\<forall>n<length (sent_stream a). n \<in> A \<or> (\<exists>p\<in>set (sq_items (c_sendQueue (e_ch a))). p_id p = rep_id n))"

definition flows :: "crypto \<Rightarrow> endpoint \<Rightarrow> endpoint \<Rightarrow> bool" where
  "flows L a b \<longleftrightarrow> decryptPacketData L (c_crypt (e_ch b)) = decryptPacketData L (c_crypt (e_ch a)) \<and>
     sender_inv L a \<and> (\<exists>A. receiver_inv a b A \<and> kept a A)"

subsection \<open>Steps at the sending end\<close>

lemma carries_wire:
  "wire_of p = wire_of q \<Longrightarrow> carries L c w n p = carries L c w n q"
  by (auto simp: carries_def wire_of_def)

lemma carries_key: "decryptPacketData L c = decryptPacketData L d \<Longrightarrow> carries L c w n p = carries L d w n p"
  by (simp add: carries_def)

lemma stream_carries_wire: "wire_of p = wire_of q \<Longrightarrow> stream_carries L a p = stream_carries L a q"
  unfolding stream_carries_def using carries_wire by metis

lemma stream_carries_data: "stream_carries L a p \<Longrightarrow> is_data p"
  by (auto simp: stream_carries_def carries_def is_data_def)

lemma sent_stream_advance:
  "c_maxDataLen ch = c_maxDataLen (e_ch a) \<Longrightarrow>
   sent_stream (advance a ch out ms) = sent_stream a @ concat (map (message_fragments (e_ch a)) ms)"
  by (simp add: sent_stream_def advance_def stream_fragments_def message_fragments_def [abs_def])

lemma advance_sel [simp]:
  "e_ch (advance a ch out ms) = ch" "e_net (advance a ch out ms) = e_net a @ sends out"
  "e_msgs (advance a ch out ms) = e_msgs a @ ms" "e_reads (advance a ch out ms) = e_reads a @ reads out"
  by (simp_all add: advance_def)

lemma stream_carries_frame:
  "sender_view ch = sender_view (e_ch a) \<Longrightarrow> stream_carries L (advance a ch out []) p = stream_carries L a p"
  by (simp add: stream_carries_def sent_stream_advance sender_view_def)

lemma wire_in_set: "map wire_of xs = map wire_of ys \<Longrightarrow> p \<in> set xs \<Longrightarrow> \<exists>q\<in>set ys. wire_of p = wire_of q"
  by (metis (no_types, lifting) image_iff list.set_map)

text \<open>A step that leaves the sending half alone, and sends data only from its queue.\<close>

lemma sender_inv_frame:
  assumes inv: "sender_inv L a" and view: "sender_view ch = sender_view (e_ch a)"
    and out: "\<And>p. p \<in> set (sends out) \<Longrightarrow> is_data p \<Longrightarrow> p \<in> set (sq_items (c_sendQueue ch))"
  shows "sender_inv L (advance a ch out [])" and "sent_stream (advance a ch out []) = sent_stream a"
proof -
  have v: "c_id ch = c_id (e_ch a)" "c_maxDataLen ch = c_maxDataLen (e_ch a)" "c_crypt ch = c_crypt (e_ch a)"
    "sq_fifo (c_sendQueue ch) = sq_fifo (c_sendQueue (e_ch a))"
    "map wire_of (sq_items (c_sendQueue ch)) = map wire_of (sq_items (c_sendQueue (e_ch a)))"
    using view by (simp_all add: sender_view_def)
  show F: "sent_stream (advance a ch out []) = sent_stream a" by (simp add: sent_stream_advance v)
  have items: "stream_carries L a p" if p: "p \<in> set (sq_items (c_sendQueue ch))" for p
  proof -
    obtain q where q: "q \<in> set (sq_items (c_sendQueue (e_ch a)))" "wire_of p = wire_of q"
      using wire_in_set [OF v(5) p] by blast
    show ?thesis
      using inv q(1) by (simp add: sender_inv_def stream_carries_wire [OF q(2)])
  qed
  show "sender_inv L (advance a ch out [])"
    using inv items out unfolding sender_inv_def by (auto simp: stream_carries_frame [OF view] v F)
qed

lemma kept_frame:
  assumes "kept a A" "sent_stream a' = sent_stream a"
    and wires: "map wire_of (sq_items (c_sendQueue (e_ch a'))) = map wire_of (sq_items (c_sendQueue (e_ch a)))"
  shows "kept a' A"
  unfolding kept_def
proof (intro allI impI)
  fix n assume "n < length (sent_stream a')"
  with assms(1,2) consider "n \<in> A" | q where "q \<in> set (sq_items (c_sendQueue (e_ch a)))" "p_id q = rep_id n"
    by (auto simp: kept_def)
  then show "n \<in> A \<or> (\<exists>p\<in>set (sq_items (c_sendQueue (e_ch a'))). p_id p = rep_id n)"
  proof cases
    case 2
    then obtain p where "p \<in> set (sq_items (c_sendQueue (e_ch a')))" "wire_of q = wire_of p"
      using wire_in_set [OF wires [symmetric]] by blast
    then show ?thesis using 2 by (auto simp: wire_of_def)
  qed simp
qed

lemma sender_frame_step:
  assumes flow: "flows L a b" and view: "sender_view ch = sender_view (e_ch a)"
    and out: "\<And>p. p \<in> set (sends out) \<Longrightarrow> is_data p \<Longrightarrow> p \<in> set (sq_items (c_sendQueue ch))"
  shows "flows L (advance a ch out []) b"
proof -
  have inv: "sender_inv L a" using flow by (simp add: flows_def)
  note frame = sender_inv_frame [OF inv view out]
  have "kept (advance a ch out []) A" if "kept a A" for A
    using view by (intro kept_frame [OF that frame(2)]) (simp_all add: sender_view_def)
  moreover have "receiver_inv (advance a ch out []) b A = receiver_inv a b A" for A
    by (simp add: receiver_inv_def frame(2))
  moreover have "c_crypt ch = c_crypt (e_ch a)" using view by (simp add: sender_view_def)
  ultimately show ?thesis
    using flow frame(1) unfolding flows_def by auto
qed

lemma rep_id_eq:
  assumes "i < N" "j < N" "N \<le> 2 ^ 19" "rep_id i = rep_id j"
  shows "i = j"
proof -
  have "i \<in> {0..<0 + 2 ^ 19}" "j \<in> {0..<0 + 2 ^ 19}" using assms(1-3) by auto
  then show ?thesis by (rule ids.rep_inj_window [OF assms(4)])
qed

lemma received_prefix: "received w A hist ch \<Longrightarrow> {..<length hist} \<subseteq> A"
  unfolding received_def Let_def by blast

lemma received_combine: "received w A hist ch \<Longrightarrow> c_combine ch = snd (combine_all hist combine_clear)"
  unfolding received_def Let_def by blast

text \<open>An acknowledgement arrives.\<close>

lemma sender_inv_ack:
  assumes inv: "sender_inv L a"
    and ch: "sq_items (c_sendQueue ch) = filter (\<lambda>q. p_id q \<noteq> i) (sq_items (c_sendQueue (e_ch a)))"
      "sq_fifo (c_sendQueue ch)" "c_id ch = c_id (e_ch a)" "c_maxDataLen ch = c_maxDataLen (e_ch a)"
      "c_crypt ch = c_crypt (e_ch a)" "sends out = []"
  shows "sender_inv L (advance a ch out [])" and "sent_stream (advance a ch out []) = sent_stream a"
proof -
  show F: "sent_stream (advance a ch out []) = sent_stream a" by (simp add: sent_stream_advance ch)
  have "stream_carries L (advance a ch out []) p = stream_carries L a p" for p
    by (simp add: stream_carries_def F ch)
  then show "sender_inv L (advance a ch out [])"
    using inv unfolding sender_inv_def by (auto simp: ch F)
qed

lemma sender_ack_step:
  assumes flow: "flows L a b" and short: "length (sent_stream a) \<le> 2 ^ 19"
    and p: "p \<in> set (e_net b)" "p_status p = statusAck" and i: "p_id pac = p_id p"
    and ch: "sq_items (c_sendQueue ch) = filter (\<lambda>q. p_id q \<noteq> p_id pac) (sq_items (c_sendQueue (e_ch a)))"
      "sq_fifo (c_sendQueue ch)" "c_id ch = c_id (e_ch a)" "c_maxDataLen ch = c_maxDataLen (e_ch a)"
      "c_crypt ch = c_crypt (e_ch a)" "sends out = []"
  shows "flows L (advance a ch out []) b"
proof -
  let ?a = "advance a ch out []"
  have inv: "sender_inv L a" using flow by (simp add: flows_def)
  note frame = sender_inv_ack [OF inv ch]
  obtain A where A: "receiver_inv a b A" "kept a A"
    using flow by (auto simp: flows_def)
  obtain n where n: "n \<in> A" "p_id p = rep_id n"
    using A(1) p by (auto simp: receiver_inv_def)
  have N: "n < length (sent_stream a)" using n A(1) by (auto simp: receiver_inv_def)
  have "kept ?a A"
    unfolding kept_def
  proof (intro allI impI)
    fix m assume m: "m < length (sent_stream ?a)"
    have "m = n" if "rep_id m = rep_id n"
      using rep_id_eq [OF _ N short that] m frame(2) by simp
    then show "m \<in> A \<or> (\<exists>p\<in>set (sq_items (c_sendQueue (e_ch ?a))). p_id p = rep_id m)"
      using A(2) m n i unfolding kept_def frame(2) by (force simp: ch)
  qed
  moreover have "receiver_inv ?a b A"
    using A(1) by (simp add: receiver_inv_def frame(2))
  ultimately show ?thesis
    using flow frame(1) unfolding flows_def by (auto simp: ch)
qed

lemma fragments_all_status: "x \<in> set (sent_stream a) \<Longrightarrow> snd x = 0 \<or> snd x = statusSplit"
  by (auto simp: sent_stream_def stream_fragments_def message_fragments_def dest: fragments_status)

text \<open>What a stream's prefix carries, the longer stream carries.\<close>

lemma plain_stream_append: "n < length F \<Longrightarrow> plain_stream (F @ G) n = plain_stream F n"
  by (simp add: plain_stream_def nth_append)

lemma carries_cong: "w n = w' n \<Longrightarrow> carries L c w n p = carries L c w' n p"
  by (simp add: carries_def)

lemma sent_carries_at:
  assumes sent: "sent_as L c (length F) G pks" and j: "j < length G"
    and G: "\<forall>x\<in>set G. snd x = 0 \<or> snd x = statusSplit"
  shows "carries L c (plain_stream (F @ G)) (length F + j) (pks ! j)"
proof -
  have "snd (G ! j) = 0 \<or> snd (G ! j) = statusSplit" using G j by simp
  then show ?thesis
    using sent j by (auto simp: sent_as_def carries_def plain_stream_def nth_append)
qed

lemma rq_holds_cong: "(\<And>n. n \<in> B \<Longrightarrow> w n = w' n) \<Longrightarrow> rq_holds w rep B r \<Longrightarrow> rq_holds w' rep B r"
  by (simp add: rq_holds_def)

lemma received_stream_cong:
  assumes w: "\<And>n. n \<in> A \<Longrightarrow> w n = w' n" and "received w A hist ch"
  shows "received w' A hist ch"
proof -
  have "map w [0..<length hist] = map w' [0..<length hist]"
    using assms by (intro map_cong) (auto simp: received_def Let_def)
  then show ?thesis
    using assms(2) rq_holds_cong [of "A - {..<length hist}" w w' rep_id "c_recvQueue ch"] w
    by (simp add: received_def Let_def)
qed

text \<open>The stream of \<open>a'\<close> is longer than that of \<open>a\<close>.\<close>

lemma stream_carries_append:
  assumes "sent_stream a' = sent_stream a @ G" "c_crypt (e_ch a') = c_crypt (e_ch a)" "stream_carries L a p"
  shows "stream_carries L a' p"
proof -
  let ?F = "sent_stream a"
  obtain n where n: "n < length ?F" "carries L (c_crypt (e_ch a)) (plain_stream ?F) n p"
    using assms(3) by (auto simp: stream_carries_def)
  then have "carries L (c_crypt (e_ch a)) (plain_stream (?F @ G)) n p"
    using carries_cong [of "plain_stream (?F @ G)" n "plain_stream ?F"] plain_stream_append [OF n(1)] by simp
  moreover have "n < length (?F @ G)" using n(1) by simp
  ultimately show ?thesis unfolding stream_carries_def assms(1,2) by blast
qed

lemma receiver_inv_append:
  assumes "sent_stream a' = sent_stream a @ G" "receiver_inv a b A"
  shows "receiver_inv a' b A"
proof -
  let ?F = "sent_stream a"
  have sub: "A \<subseteq> {..<length ?F}" using assms(2) by (simp add: receiver_inv_def)
  have same: "plain_stream ?F n = plain_stream (sent_stream a') n" if "n \<in> A" for n
    unfolding assms(1) using plain_stream_append [of n ?F G] that sub by auto
  obtain hist where h: "received (plain_stream ?F) A hist (e_ch b)" "e_reads b = fst (combine_all hist combine_clear)"
    using assms(2) by (auto simp: receiver_inv_def)
  have "received (plain_stream (sent_stream a')) A hist (e_ch b)"
    by (rule received_stream_cong [OF same h(1)])
  moreover have "A \<subseteq> {..<length (sent_stream a')}" using sub by (auto simp: assms(1))
  ultimately show ?thesis
    using assms(2) h(2) unfolding receiver_inv_def by blast
qed

lemma kept_append:
  assumes F: "sent_stream a' = sent_stream a @ G"
    and items: "sq_items (c_sendQueue (e_ch a')) = sq_items (c_sendQueue (e_ch a)) @ pks"
    and sent: "sent_as L c (length (sent_stream a)) G pks" and kept: "kept a A"
  shows "kept a' A"
  unfolding kept_def
proof (intro allI impI)
  fix n assume n: "n < length (sent_stream a')"
  let ?j = "n - length (sent_stream a)"
  show "n \<in> A \<or> (\<exists>p\<in>set (sq_items (c_sendQueue (e_ch a'))). p_id p = rep_id n)"
  proof (cases "n < length (sent_stream a)")
    case True
    then show ?thesis using kept items by (auto simp: kept_def)
  next
    case False
    then have j: "?j < length G" "n = length (sent_stream a) + ?j" using n F by auto
    then have "p_id (pks ! ?j) = rep_id n" "pks ! ?j \<in> set pks"
      using sent by (auto simp: sent_as_def)
    then show ?thesis using items by auto
  qed
qed

text \<open>Within half the circle, the next identifiers are none of those in use.\<close>

lemma next_ids_distinct:
  assumes old: "distinct (map p_id ps)" "p_id ` set ps \<subseteq> rep_id ` {..<N}"
    and new: "map p_id qs = map rep_id [N..<N + k]" and le: "N + k \<le> 2 ^ 19"
  shows "distinct (map p_id (ps @ qs))"
proof -
  have "distinct (map p_id qs)"
    unfolding new distinct_map inj_on_def using rep_id_eq [OF _ _ le] by auto
  moreover have "rep_id ` {..<N} \<inter> p_id ` set qs = {}"
  proof -
    have "p_id ` set qs = rep_id ` {N..<N + k}"
      using arg_cong [OF new, of set] by simp
    moreover have False if x: "x \<in> rep_id ` {..<N}" "x \<in> rep_id ` {N..<N + k}" for x
    proof -
      obtain i where i: "x = rep_id i" "i < N" using x(1) by blast
      obtain j where "x = rep_id j" "N \<le> j" "j < N + k" using x(2) by auto
      with i show False using rep_id_eq [of i "N + k" j, OF _ _ le] by simp
    qed
    ultimately show ?thesis by blast
  qed
  moreover have "p_id ` set ps \<inter> p_id ` set qs = {}"
    using old(2) calculation(2) by blast
  ultimately show ?thesis
    using old(1) by simp
qed

text \<open>A message is written.\<close>

lemma sender_inv_write:
  assumes laws: "crypto_laws L" and envs: "\<And>k. env_ok (envs k)" and ds: "delivery_ok ds"
    and inv: "sender_inv L a" and live: "\<not> st_destroyed (c_stat (e_ch a))"
    and run: "channel_WriteTo L envs (e_ch a) m ds = (res, ch, out)"
    and short: "length (sent_stream (advance a ch out [m])) \<le> 2 ^ 19"
  obtains G pks where "sender_inv L (advance a ch out [m])" "sent_stream (advance a ch out [m]) = sent_stream a @ G"
    "sq_items (c_sendQueue ch) = sq_items (c_sendQueue (e_ch a)) @ pks"
    "sent_as L (c_crypt (e_ch a)) (length (sent_stream a)) G pks" "set (sends out) \<subseteq> set pks" "c_crypt ch = c_crypt (e_ch a)"
proof -
  let ?a = "advance a ch out [m]" and ?F = "sent_stream a" and ?G = "message_fragments (e_ch a) m"
  let ?q = "c_sendQueue (e_ch a)"
  have a: "c_id (e_ch a) = rep_id (length ?F)" "0 \<le> c_maxDataLen (e_ch a)" "sq_fifo ?q"
    using inv by (simp_all add: sender_inv_def)
  obtain pks where pks: "sq_items (c_sendQueue ch) = sq_items ?q @ pks"
    "sent_as L (c_crypt (e_ch a)) (length ?F) ?G pks" "c_id ch = rep_id (length ?F + length ?G)"
    "sender_frame (e_ch a) ch"
    using channel_WriteTo_queued [where envs = envs and data = m, OF laws envs ds live a(1,2)] run by auto
  obtain pks' where w: "c_sendQueue ch = fold sq_add pks' ?q" "set (sends out) \<subseteq> set pks'"
    using writes_WriteTo [of "e_ch a" L envs m ds] run by (auto simp: writes_def)
  have [simp]: "pks' = pks" using w(1) pks(1) by simp
  have c: "c_crypt ch = c_crypt (e_ch a)" "c_maxDataLen ch = c_maxDataLen (e_ch a)"
    using pks(4) by (simp_all add: sender_frame_def)
  have F: "sent_stream ?a = ?F @ ?G" by (simp add: sent_stream_advance c)
  have len: "length pks = length ?G" "length ?F + length ?G \<le> 2 ^ 19"
    using pks(2) short F by (simp_all add: sent_as_def)
  have old: "stream_carries L a p \<Longrightarrow> stream_carries L ?a p" for p
    by (rule stream_carries_append [OF F]) (simp_all add: c)
  have new: "stream_carries L ?a p" if p: "p \<in> set pks" for p
  proof -
    have G: "\<forall>x\<in>set ?G. snd x = 0 \<or> snd x = statusSplit"
      by (auto simp: message_fragments_def dest: fragments_status)
    obtain j where j: "j < length ?G" "p = pks ! j" using p len by (metis in_set_conv_nth)
    have "length ?F + j < length (?F @ ?G)" using j(1) by simp
    then show ?thesis
      unfolding stream_carries_def F advance_sel c j(2) using sent_carries_at [OF pks(2) j(1) G] by blast
  qed
  have "map p_id pks = map rep_id [length ?F..<length ?F + length ?G]"
    using pks(2) len by (intro nth_equalityI) (simp_all add: sent_as_def)
  moreover have "p_id ` set (sq_items ?q) \<subseteq> rep_id ` {..<length ?F}"
    using inv by (fastforce simp: sender_inv_def stream_carries_def carries_def)
  ultimately have "distinct (map p_id (sq_items ?q @ pks))"
    using next_ids_distinct [OF sqf.items_distinct [OF a(3)] _ _ len(2)] by blast
  then have "sq_fifo (c_sendQueue ch)"
    using sq_fifo_fold_add [OF a(3)] w(1) by simp
  then have "sender_inv L ?a"
    unfolding sender_inv_def using inv pks(1,3) old new w(2) a(2)
    by (auto simp: F c sender_inv_def)
  then show thesis
    using that F pks(1,2) w(2) c(1) by simp
qed

lemma sender_write_step:
  assumes laws: "crypto_laws L" and envs: "\<And>k. env_ok (envs k)" and ds: "delivery_ok ds"
    and flow: "flows L a b" and live: "\<not> st_destroyed (c_stat (e_ch a))"
    and run: "channel_WriteTo L envs (e_ch a) m ds = (res, ch, out)"
    and short: "length (sent_stream (advance a ch out [m])) \<le> 2 ^ 19"
  shows "flows L (advance a ch out [m]) b"
proof -
  have inv: "sender_inv L a" using flow by (simp add: flows_def)
  obtain G pks where w: "sender_inv L (advance a ch out [m])" "sent_stream (advance a ch out [m]) = sent_stream a @ G"
    "sq_items (c_sendQueue ch) = sq_items (c_sendQueue (e_ch a)) @ pks"
    "sent_as L (c_crypt (e_ch a)) (length (sent_stream a)) G pks" "c_crypt ch = c_crypt (e_ch a)"
    by (rule sender_inv_write [OF laws envs ds inv live run short]) blast
  have "\<exists>A. receiver_inv (advance a ch out [m]) b A \<and> kept (advance a ch out [m]) A"
    using flow receiver_inv_append [OF w(2)] kept_append [OF w(2) _ w(4)] w(3) by (auto simp: flows_def)
  then show ?thesis
    using flow w(1,5) unfolding flows_def by auto
qed

subsection \<open>Steps at the receiving end\<close>

lemma receiver_frame_step:
  assumes flow: "flows L a b" and view: "receiver_view ch = receiver_view (e_ch b)"
    and out: "reads out = []" "\<And>p. p \<in> set (sends out) \<Longrightarrow> p_status p \<noteq> statusAck"
  shows "flows L a (advance b ch out ms)"
proof -
  have v: "c_expectedID ch = c_expectedID (e_ch b)" "c_recvQueue ch = c_recvQueue (e_ch b)"
    "c_combine ch = c_combine (e_ch b)" "c_crypt ch = c_crypt (e_ch b)"
    using view by (simp_all add: receiver_view_def)
  have "receiver_inv a (advance b ch out ms) A" if A: "receiver_inv a b A" for A
  proof -
    obtain hist where "received (plain_stream (sent_stream a)) A hist (e_ch b)" "e_reads b = fst (combine_all hist combine_clear)"
      using A by (auto simp: receiver_inv_def)
    moreover from this(1) have "received (plain_stream (sent_stream a)) A hist ch"
      by (rule received_cong) (simp_all add: v)
    ultimately show ?thesis
      using A out by (auto simp: receiver_inv_def)
  qed
  then show ?thesis
    using flow unfolding flows_def by (auto simp: v)
qed

lemma arrival_status [simp]: "p_status (arrival now p) = p_status p"
  by (simp add: arrival_def unmarshal_marshal)

lemma arrival_carries: "carries L c w n p \<Longrightarrow> carries L c w n (arrival now p)"
  by (auto simp: carries_def arrival_fields)

text \<open>A data packet arrives.\<close>

lemma receiver_data_step:
  assumes flow: "flows L a b" and short: "length (sent_stream a) \<le> 2 ^ 19"
    and p: "p \<in> set (e_net a)" "is_data p"
    and run: "serve_channel L env (arrival now p) (e_ch b) = (ch, out)"
  shows "flows L a (advance b ch out [])"
proof -
  let ?w = "plain_stream (sent_stream a)" and ?pac = "arrival now p"
  obtain A where A: "receiver_inv a b A" "kept a A" using flow by (auto simp: flows_def)
  obtain hist where hist: "received ?w A hist (e_ch b)" "e_reads b = fst (combine_all hist combine_clear)"
    using A(1) by (auto simp: receiver_inv_def)
  obtain n where n: "n < length (sent_stream a)" "carries L (c_crypt (e_ch a)) ?w n p"
    using flow p by (auto simp: flows_def sender_inv_def stream_carries_def)
  have pac: "carries L (c_crypt (e_ch b)) ?w n ?pac"
    using arrival_carries [OF n(2), of now] carries_key [of L "c_crypt (e_ch b)" "c_crypt (e_ch a)"] flow
    by (simp add: flows_def)
  have "{..<length hist} \<subseteq> {..<length (sent_stream a)}"
    using received_prefix [OF hist(1)] A(1) unfolding receiver_inv_def by (meson order_trans)
  then have "length hist \<le> length (sent_stream a)"
    unfolding lessThan_subset_iff .
  then have window: "length hist \<le> n + 2 ^ 19" "n < length hist + 2 ^ 19"
    using n(1) short by linarith+
  obtain hist' ch' out' where run': "serve_channel L env ?pac (e_ch b) = (ch', out')"
    "reads out' = fst (combine_all hist' (c_combine (e_ch b)))" "received ?w (insert n A) (hist @ hist') ch'"
    "c_crypt ch' = c_crypt (e_ch b)"
    using serve_channel_received [OF hist(1) pac window, of env] by blast
  have same: "ch' = ch" "out' = out" using run run'(1) by simp_all
  have "c_combine (e_ch b) = snd (combine_all hist combine_clear)"
    by (rule received_combine [OF hist(1)])
  then have "e_reads b @ reads out = fst (combine_all (hist @ hist') combine_clear)"
    using combine_all_append [of combine_clear hist hist'] hist(2) run'(2) by (simp add: same split_def Let_def)
  moreover have "\<exists>m\<in>insert n A. p_id q = rep_id m" if "q \<in> set (sends out)" "p_status q = statusAck" for q
  proof -
    have "q = control_packet env (p_id ?pac) statusAck"
      using serve_channel_data_sender(2) [of ?pac L env "e_ch b"] run that(1) p(2) by (auto simp: is_data_def)
    then show ?thesis
      using pac by (simp add: control_packet_def packet_setters carries_def)
  qed
  ultimately have "receiver_inv a (advance b ch out []) (insert n A)"
    using A(1) n(1) run'(3) unfolding receiver_inv_def same by auto
  moreover have "kept a (insert n A)"
    using A(2) by (auto simp: kept_def)
  ultimately show ?thesis
    using flow run'(4) unfolding flows_def by (auto simp: same)
qed

subsection \<open>Every step keeps both streams\<close>

definition both_flow :: "crypto \<Rightarrow> endpoint \<times> endpoint \<Rightarrow> bool" where
  "both_flow L ab \<longleftrightarrow> flows L (fst ab) (snd ab) \<and> flows L (snd ab) (fst ab)"

lemma queued_data: "flows L a b \<Longrightarrow> p \<in> set (sq_items (c_sendQueue (e_ch a))) \<Longrightarrow> is_data p"
  using stream_carries_data by (auto simp: flows_def sender_inv_def)

lemma data_not_ack: "is_data p \<Longrightarrow> p_status p \<noteq> statusAck"
  by (auto simp: is_data_def)

lemma control_status [simp]: "p_status (control_packet env i st) = st"
  by (simp add: control_packet_def packet_setters)

text \<open>A step of \<open>a\<close> that keeps both halves but for what it sends from its queue.\<close>

lemma quiet_step:
  assumes "flows L a b" "flows L b a" "sender_view ch = sender_view (e_ch a)" "receiver_view ch = receiver_view (e_ch a)"
    and "reads out = []"
    and out: "\<And>p. p \<in> set (sends out) \<Longrightarrow>
      p \<in> set (sq_items (c_sendQueue ch)) \<or> p_status p = statusPing \<or> p_status p = statusPong"
  shows "both_flow L (advance a ch out [], b)"
proof -
  have a: "flows L (advance a ch out []) b"
    by (rule sender_frame_step [OF assms(1,3)]) (use out in \<open>fastforce simp: is_data_def\<close>)
  have "p_status p \<noteq> statusAck" if "p \<in> set (sends out)" for p
    using out [OF that] queued_data [OF a, of p] data_not_ack by auto
  then show ?thesis
    using a receiver_frame_step [OF assms(2,4,5)] by (simp add: both_flow_def)
qed

text \<open>
  The kinds of operation: a write, the arrival of data, that of an acknowledgement, and the others, which
  leave both halves alone and send nothing but what is queued, pings and pongs.
\<close>

lemma serve_other_quiet:
  assumes "\<not> is_data pac" "p_status pac \<noteq> statusAck" "serve_channel L env pac ch = (ch', out)"
  shows "sender_view ch' = sender_view ch \<and> receiver_view ch' = receiver_view ch \<and> reads out = [] \<and>
     (\<forall>p\<in>set (sends out). p_status p = statusPong)"
proof -
  have "p_status pac \<noteq> statusData" "p_status pac \<noteq> statusDataNext" using assms(1) by (simp_all add: is_data_def)
  note eff = serve_channel_other [OF this assms(2), of L env ch, unfolded assms(3) fst_conv snd_conv]
  then show ?thesis by auto
qed

lemma chan_op_kinds:
  assumes run: "chan_op L net ch ch' out ms" and fifo: "sq_fifo (c_sendQueue ch)"
  obtains (wrote) envs ds m res where "ms = [m]" "\<And>k. env_ok (envs k)" "delivery_ok ds" "channel_WriteTo L envs ch m ds = (res, ch', out)"
  | (data) p env now where "ms = []" "p \<in> set net" "is_data p" "serve_channel L env (arrival now p) ch = (ch', out)"
  | (ack) p env now where "ms = []" "p \<in> set net" "p_status p = statusAck" "serve_channel L env (arrival now p) ch = (ch', out)"
  | (quiet) "ms = []" "sender_view ch' = sender_view ch" "receiver_view ch' = receiver_view ch" "reads out = []"
      "\<And>p. p \<in> set (sends out) \<Longrightarrow> p \<in> set (sq_items (c_sendQueue ch')) \<or> p_status p = statusPing \<or> p_status p = statusPong"
  using run
proof cases
  case (op_write envs ds m res)
  show thesis by (rule wrote [OF op_write])
next
  case (op_serve p env now)
  consider "is_data p" | "p_status p = statusAck" | "\<not> is_data (arrival now p)" "p_status (arrival now p) \<noteq> statusAck"
    by (auto simp: is_data_def)
  then show thesis
  proof cases
    case 1
    then show thesis by (rule data [OF op_serve(1,2) _ op_serve(3)])
  next
    case 2
    then show thesis by (rule ack [OF op_serve(1,2) _ op_serve(3)])
  next
    case 3
    note eff = serve_other_quiet [OF 3 op_serve(3)]
    show thesis by (rule quiet) (use eff op_serve(1) in auto)
  qed
next
  case (op_control pac env)
  then have "\<not> is_data pac" "p_status pac \<noteq> statusAck" by (simp_all add: is_data_def)
  note eff = serve_other_quiet [OF this op_control(3)]
  show thesis by (rule quiet) (use eff op_control(1) in auto)
next
  case (op_retransmit now ch1 dead)
  note eff = channel_retransmit_views [OF op_retransmit(3) fifo]
  have "sq_items (c_sendQueue (channel_stop ch1)) = sq_items (c_sendQueue ch1)"
    by (simp add: channel_stop_def sq_destroy_def)
  then show thesis
    using op_retransmit(1,2) eff by (intro quiet) (simp_all, blast)
next
  case (op_ping env res)
  then have "ch' = ch" "set (sends out) \<subseteq> {control_packet env 0 statusPing}" "reads out = []"
    using writeToPing_eq [of L env ch] by auto
  then show thesis using op_ping(1) by (intro quiet) auto
next
  case (op_delivery now e)
  then show thesis using delivery_timer_views [OF op_delivery(2) fifo] by (intro quiet) auto
next
  case (op_late_delivery now i)
  then show thesis using late_delivery_views [OF op_late_delivery(2)] by (intro quiet) auto
next
  case (op_close env res ch1)
  then have "ch1 = ch" "sends out = []" "reads out = []"
    using writeToDisconnect_eq [of L env ch] by auto
  then show thesis using op_close(1,2) by (intro quiet) auto
qed (auto intro: quiet)

lemma serve_ack_flow:
  assumes flows: "flows L a b" "flows L b a" and short: "length (sent_stream a) \<le> 2 ^ 19"
    and p: "p \<in> set (e_net b)" "p_status p = statusAck" and run: "serve_channel L env (arrival now p) (e_ch a) = (ch, out)"
  shows "both_flow L (advance a ch out [], b)"
proof -
  let ?pac = "arrival now p"
  obtain ch1 out1 where 1: "serve_ack (we_now env) ?pac (e_ch a) = (ch1, out1)" by fastforce
  then have eq: "ch = ch1\<lparr>c_stat := stat_setLastActivity (we_now env) (c_stat ch1)\<rparr>" "out = out1"
    using run p(2) by (simp_all add: serve_channel_ack)
  have "sq_fifo (c_sendQueue (e_ch a))" using flows(1) by (simp add: flows_def sender_inv_def)
  note eff = serve_ack_effect [OF this, of "we_now env" ?pac, unfolded 1 fst_conv snd_conv]
  obtain n where "p_id p = rep_id n"
    using flows(1) p by (auto simp: flows_def receiver_inv_def)
  then have i: "p_id ?pac = p_id p" by (simp add: arrival_fields)
  have "flows L (advance a ch out []) b"
    by (rule sender_ack_step [OF flows(1) short p i]) (simp_all add: eq eff)
  moreover have "flows L b (advance a ch out [])"
    by (rule receiver_frame_step [OF flows(2)]) (simp_all add: eq eff)
  ultimately show ?thesis by (simp add: both_flow_def)
qed

lemma serve_data_flow:
  assumes flows: "flows L a b" "flows L b a" and short: "length (sent_stream b) \<le> 2 ^ 19"
    and p: "p \<in> set (e_net b)" "is_data p" and run: "serve_channel L env (arrival now p) (e_ch a) = (ch, out)"
  shows "both_flow L (advance a ch out [], b)"
proof -
  have st: "p_status (arrival now p) = statusData \<or> p_status (arrival now p) = statusDataNext"
    using p(2) by (simp add: is_data_def)
  have "flows L b (advance a ch out [])"
    by (rule receiver_data_step [OF flows(2) short p run])
  moreover have "flows L (advance a ch out []) b"
    using serve_channel_data_sender [OF st, of L env "e_ch a"] run
    by (auto intro!: sender_frame_step [OF flows(1)] simp: is_data_def)
  ultimately show ?thesis by (simp add: both_flow_def)
qed

lemma write_flow:
  assumes laws: "crypto_laws L" and flows: "flows L a b" "flows L b a" and live: "\<not> st_destroyed (c_stat (e_ch a))"
    and short: "length (sent_stream (advance a ch out [m])) \<le> 2 ^ 19"
    and run: "\<And>k. env_ok (envs k)" "delivery_ok ds" "channel_WriteTo L envs (e_ch a) m ds = (res, ch, out)"
  shows "both_flow L (advance a ch out [m], b)"
proof -
  have a: "flows L (advance a ch out [m]) b"
    by (rule sender_write_step [OF laws run(1,2) flows(1) live run(3) short])
  have w: "writes (e_ch a) (ch, out)"
    using writes_WriteTo [of "e_ch a" L envs m ds] run(3) by simp
  have "flows L b (advance a ch out [m])"
  proof (rule receiver_frame_step [OF flows(2)])
    show "receiver_view ch = receiver_view (e_ch a)" "reads out = []"
      using w by (auto simp: writes_def)
    fix p assume "p \<in> set (sends out)"
    then have "p \<in> set (sq_items (c_sendQueue ch))"
      using w by (auto simp: writes_def)
    then show "p_status p \<noteq> statusAck"
      using queued_data [OF a, of p] data_not_ack by simp
  qed
  with a show ?thesis by (simp add: both_flow_def)
qed

lemma chan_op_flow:
  assumes laws: "crypto_laws L" and flows: "flows L a b" "flows L b a"
    and live: "\<not> st_destroyed (c_stat (e_ch a))"
    and short: "length (sent_stream (advance a ch out ms)) \<le> 2 ^ 19" "length (sent_stream a) \<le> 2 ^ 19"
      "length (sent_stream b) \<le> 2 ^ 19"
    and run: "chan_op L (e_net b) (e_ch a) ch out ms"
  shows "both_flow L (advance a ch out ms, b)"
proof -
  have "sq_fifo (c_sendQueue (e_ch a))" using flows(1) by (simp add: flows_def sender_inv_def)
  with run show ?thesis
  proof (cases rule: chan_op_kinds)
    case (wrote envs ds m res)
    then show ?thesis using write_flow [OF laws flows live, of ch out m envs ds res] short(1) by simp
  next
    case (data p env now)
    then show ?thesis using serve_data_flow [OF flows short(3)] by simp
  next
    case (ack p env now)
    then show ?thesis using serve_ack_flow [OF flows short(2)] by simp
  next
    case quiet
    then show ?thesis using quiet_step [OF flows quiet(2-4)] by simp
  qed
qed

subsection \<open>Runs of the link\<close>

text \<open>No operation changes the session key or the maximum data length of a channel.\<close>

lemma serve_channel_keeps:
  "c_maxDataLen (fst (serve_channel L env pac ch)) = c_maxDataLen ch \<and> c_crypt (fst (serve_channel L env pac ch)) = c_crypt ch"
proof -
  consider (data) "p_status pac = statusData \<or> p_status pac = statusDataNext" | (ack) "p_status pac = statusAck"
    | (other) "p_status pac \<noteq> statusData" "p_status pac \<noteq> statusDataNext" "p_status pac \<noteq> statusAck" by blast
  then show ?thesis
  proof cases
    case data
    then show ?thesis using serve_channel_data_sender(1) [OF data, of L env ch] by (simp add: sender_view_def)
  next
    case ack
    then show ?thesis
      by (simp add: serve_channel_ack serve_ack_def setTripTime_def Let_def split: option.split prod.split)
  next
    case other
    then show ?thesis using serve_channel_other(1) [OF other, of L env ch] by (simp add: sender_view_def)
  qed
qed

lemma chan_op_keeps:
  "chan_op L net ch ch' out ms \<Longrightarrow> c_maxDataLen ch' = c_maxDataLen ch \<and> c_crypt ch' = c_crypt ch"
proof (induction rule: chan_op.induct)
  case (op_write envs ds m res ch' out)
  then show ?case using writes_WriteTo [of ch L envs m ds] by (auto simp: writes_def receiver_view_def)
next
  case (op_serve p env now ch' out)
  then show ?case using serve_channel_keeps [of L env "arrival now p" ch] by simp
next
  case (op_control pac env ch' out)
  then show ?case using serve_channel_keeps [of L env pac ch] by simp
next
  case (op_retransmit now ch' out dead)
  then show ?case by (auto simp: channel_retransmit_def Let_def channel_stop_def split: prod.splits)
next
  case (op_ping env res ch' out)
  then show ?case using writeToPing_eq [of L env ch] by simp
next
  case (op_delivery now e ch' out)
  then show ?case
    by (auto simp: delivery_timer_def Let_def split: option.splits timer.splits if_splits)
next
  case (op_late_delivery now i ch' out)
  then show ?case using late_delivery_views(6,7) by simp
next
  case (op_close env res ch' out)
  then show ?case using writeToDisconnect_eq [of L env ch] by (simp add: channel_stop_def)
qed (simp_all add: channel_stop_def send_speed_timer_def recv_speed_timer_def)

lemma link_steps_crypt:
  "link_steps L ab ab' \<Longrightarrow>
   c_crypt (e_ch (fst ab')) = c_crypt (e_ch (fst ab)) \<and> c_crypt (e_ch (snd ab')) = c_crypt (e_ch (snd ab))"
proof (induction rule: rtranclp_induct)
  case (step y z)
  then show ?case by (auto elim!: link_stepE dest: chan_op_keeps)
qed simp

lemma sent_stream_op:
  "chan_op L net (e_ch a) ch out ms \<Longrightarrow>
   sent_stream (advance a ch out ms) = sent_stream a @ concat (map (message_fragments (e_ch a)) ms)"
  by (simp add: sent_stream_advance chan_op_keeps)

lemma link_step_short: "link_step L ab ab' \<Longrightarrow> short_link ab' \<Longrightarrow> short_link ab"
  by (erule link_stepE) (auto simp: short_link_def sent_stream_op)

lemma link_step_flow:
  assumes laws: "crypto_laws L" and step: "link_step L ab ab'" and flow: "both_flow L ab" and short: "short_link ab'"
  shows "both_flow L ab'"
  using step
proof cases
  case (step_left a b ch out ms)
  have "length (sent_stream a) \<le> 2 ^ 19"
    using link_step_short [OF step short] step_left(1) by (simp add: short_link_def)
  then show ?thesis
    using chan_op_flow [OF laws _ _ step_left(3) _ _ _ step_left(4)] flow short step_left(1,2)
    by (simp add: both_flow_def short_link_def)
next
  case (step_right b a ch out ms)
  have "length (sent_stream b) \<le> 2 ^ 19"
    using link_step_short [OF step short] step_right(1) by (simp add: short_link_def)
  then have "both_flow L (advance b ch out ms, a)"
    using chan_op_flow [OF laws _ _ step_right(3) _ _ _ step_right(4)] flow short step_right(1,2)
    by (simp add: both_flow_def short_link_def)
  then show ?thesis
    using step_right(2) by (simp add: both_flow_def)
qed

lemma link_steps_flow:
  assumes "link_steps L ab ab'" "crypto_laws L" "both_flow L ab" "short_link ab'"
  shows "both_flow L ab'"
  using assms(1,4)
proof (induction rule: rtranclp_induct)
  case base
  then show ?case by (simp add: assms(3))
next
  case (step y z)
  then show ?case using link_step_flow [OF assms(2) step(2)] link_step_short by blast
qed

lemma flows_fresh:
  assumes "fresh_sender s" "fresh_receiver r" "decryptPacketData L (c_crypt r) = decryptPacketData L (c_crypt s)"
  shows "flows L (fresh_end s) (fresh_end r)"
proof -
  have F: "sent_stream (fresh_end s) = []"
    by (simp add: fresh_end_def sent_stream_def stream_fragments_def)
  have "receiver_inv (fresh_end s) (fresh_end r) {}"
    using assms(2) by (auto simp: receiver_inv_def F fresh_end_def fresh_receiver_def intro!: exI [of _ "[]"] received_init)
  moreover have "sender_inv L (fresh_end s)"
    using assms(1) by (simp add: sender_inv_def F) (simp add: fresh_end_def fresh_sender_def rep_id_0 sq_items_def)
  ultimately show ?thesis
    using assms(3) unfolding flows_def by (auto simp: kept_def F intro!: exI [of _ "{}"]) (simp_all add: fresh_end_def)
qed

text \<open>What the invariant says of the messages.\<close>

lemma flows_prefix:
  assumes flow: "flows L a b"
  shows "\<exists>k\<le>length (e_msgs a). map p_data (e_reads b) = take k (e_msgs a) \<and>
     (sq_items (c_sendQueue (e_ch a)) = [] \<longrightarrow> k = length (e_msgs a))"
proof -
  let ?F = "sent_stream a" and ?m = "nat (split_limit (c_maxDataLen (e_ch a)))"
  obtain A hist where A: "A \<subseteq> {..<length ?F}" "received (plain_stream ?F) A hist (e_ch b)"
    "e_reads b = fst (combine_all hist combine_clear)" "kept a A"
    using flow by (auto simp: flows_def receiver_inv_def)
  let ?e = "length hist"
  have "{..<?e} \<subseteq> {..<length ?F}" using received_prefix [OF A(2)] A(1) by (rule order_trans)
  then have le: "?e \<le> length ?F" unfolding lessThan_subset_iff .
  have wires: "map wire_of hist = map (plain_stream ?F) [0..<?e]" "?e \<notin> A"
    using A(2) unfolding received_def Let_def by blast+
  have "map packet_view hist = map (\<lambda>w. (snd (snd w), fst (snd w))) (map wire_of hist)"
    by (simp add: wire_of_def)
  also have "\<dots> = map frag_view (take ?e ?F)"
    unfolding wires(1) using le by (intro nth_equalityI) (simp_all add: plain_stream_def)
  finally have view: "map packet_view hist = map frag_view (take ?e ?F)" .
  have m: "0 < ?m"
    using flow split_limit_pos by (simp add: flows_def sender_inv_def)
  have F_eq: "?F = concat (map (fragments ?m) (e_msgs a))"
    by (simp add: sent_stream_def stream_fragments_def message_fragments_def [abs_def])
  obtain k where k: "k \<le> length (e_msgs a)" "map p_data (fst (combine_all hist combine_clear)) = take k (e_msgs a)"
    "length ?F \<le> ?e \<longrightarrow> k = length (e_msgs a)"
    using combine_all_stream [OF m view [unfolded F_eq]] unfolding F_eq by blast
  have "length ?F \<le> ?e" if "sq_items (c_sendQueue (e_ch a)) = []"
  proof (rule ccontr)
    assume "\<not> length ?F \<le> ?e"
    then have "?e \<in> A" using A(4) that by (simp add: kept_def)
    with wires(2) show False by simp
  qed
  with k A(3) show ?thesis by auto
qed

subsection \<open>The link makes progress\<close>

lemma serve_channel_live:
  "st_destroyed (c_stat (fst (serve_channel L env pac ch))) = st_destroyed (c_stat ch)"
proof -
  have ack: "st_destroyed (c_stat (fst (serve_ack now pac ch))) = st_destroyed (c_stat ch)" for now
    by (simp add: serve_ack_def setTripTime_def Let_def split: option.split prod.split)
  have data: "st_destroyed (c_stat (fst (serve_data L env pac ch))) = st_destroyed (c_stat ch)"
    using accept_data_sender
    by (simp add: serve_data_def Let_def split_def writeToAck_eq split: sum.split)
  show ?thesis
    using ack data writeToPong_eq [of L env ch] by (simp add: serve_channel_def Let_def split_def)
qed

text \<open>Every queued packet is sent again by a late enough visit of the timer.\<close>

lemma retransmit_all:
  assumes "\<And>p. p \<in> set (sq_items (c_sendQueue ch)) \<Longrightarrow> p_retransmitAttempts p < maxRetransmitAttempts"
  obtains now ch' out where "t \<le> now" "channel_retransmit now ch = (ch', out, False)"
    "map wire_of (sends out) = map wire_of (sq_items (c_sendQueue ch))"
    "st_destroyed (c_stat ch') = st_destroyed (c_stat ch)"
proof -
  let ?es = "sq_queue (c_sendQueue ch)"
  obtain now where now: "t \<le> now" "\<And>x. x \<in> set ?es \<Longrightarrow> p_retransmitTime (snd x) < now"
  proof
    have "finite (insert t (p_retransmitTime ` snd ` set ?es))" by simp
    note ge = Max_ge [OF this]
    show "t \<le> Max (insert t (p_retransmitTime ` snd ` set ?es)) + 1"
      using ge [OF insertI1] by linarith
    show "p_retransmitTime (snd x) < Max (insert t (p_retransmitTime ` snd ` set ?es)) + 1" if "x \<in> set ?es" for x
      using that by (intro zle_add1_eq_le [THEN iffD2] ge) auto
  qed
  obtain es sent dead where r: "retransmit_loop now (setRetransmitTime now ch) ?es = (es, sent, dead)"
    by (metis prod.collapse)
  have dead: "\<not> dead"
    using retransmit_loop_dead_iff [of now "setRetransmitTime now ch" ?es] assms r by (fastforce simp: sq_items_def)
  have "filter (\<lambda>p. p_retransmitTime p < now) (map snd ?es) = map snd ?es"
    using now(2) by (intro filter_True) auto
  then have sent: "map wire_of sent = map wire_of (sq_items (c_sendQueue ch))"
    using retransmit_loop_sent [of "setRetransmitTime now ch" now ?es] dead r by (simp add: sq_items_def)
  have stat: "st_destroyed (fold (\<lambda>_. stat_setRetransmit) ps s) = st_destroyed s" for ps :: "packet list" and s
    by (induction ps arbitrary: s) (simp_all add: stat_setRetransmit_def)
  show thesis
    using now(1) r dead sent stat
    by (intro that [of now "fst (channel_retransmit now ch)" "map OSend sent"]) (simp_all add: channel_retransmit_def Let_def)
qed

text \<open>What has been sent can arrive, and is acknowledged.\<close>

lemma deliver_data:
  assumes "\<And>p. p \<in> set ps \<Longrightarrow> p \<in> set (e_net a) \<and> stream_carries L a p"
    and "decryptPacketData L (c_crypt (e_ch b)) = decryptPacketData L (c_crypt (e_ch a))"
    and "\<not> st_destroyed (c_stat (e_ch b))"
  shows "\<exists>b'. link_steps L (a, b) (a, b') \<and> \<not> st_destroyed (c_stat (e_ch b')) \<and>
     (\<forall>p\<in>set ps. \<exists>q\<in>set (e_net b'). p_status q = statusAck \<and> p_id q = p_id p) \<and>
     e_msgs b' = e_msgs b \<and> c_maxDataLen (e_ch b') = c_maxDataLen (e_ch b)"
  using assms
proof (induction ps rule: rev_induct)
  case (snoc p ps)
  then obtain b1 where b1: "link_steps L (a, b) (a, b1)" "\<not> st_destroyed (c_stat (e_ch b1))"
    "\<forall>p\<in>set ps. \<exists>q\<in>set (e_net b1). p_status q = statusAck \<and> p_id q = p_id p"
    "e_msgs b1 = e_msgs b" "c_maxDataLen (e_ch b1) = c_maxDataLen (e_ch b)"
    by auto
  have crypt: "c_crypt (e_ch b1) = c_crypt (e_ch b)"
    using link_steps_crypt [OF b1(1)] by simp
  obtain n where n: "carries L (c_crypt (e_ch a)) (plain_stream (sent_stream a)) n p"
    using snoc.prems(1) [of p] by (auto simp: stream_carries_def)
  let ?pac = "arrival 0 p"
  have pac: "p_id ?pac = p_id p" "is_data ?pac"
    using n by (auto simp: carries_def arrival_fields is_data_def)
  obtain data where data: "decryptPacketData L (c_crypt (e_ch b1)) (p_id ?pac) (p_data ?pac) = Inr data"
    using arrival_carries [OF n, of 0] snoc.prems(2) crypt by (auto simp: carries_def)
  obtain env :: wenv where True by simp
  obtain ch out where run: "serve_channel L env ?pac (e_ch b1) = (ch, out)" by fastforce
  have "OSend (control_packet env (p_id ?pac) statusAck) \<in> set out"
    using data_acknowledged [OF b1(2) _ data, of env] pac(2) run by (simp add: is_data_def)
  then have ack: "control_packet env (p_id ?pac) statusAck \<in> set (sends out)"
    by (rule OSend_sends)
  let ?b = "advance b1 ch out []"
  have "p \<in> set (e_net a)" using snoc.prems(1) by simp
  then have "link_step L (a, b1) (a, ?b)"
    by (intro step_right [OF b1(2)] op_serve [OF _ run])
  moreover have "\<not> st_destroyed (c_stat ch)"
    using serve_channel_live [of L env ?pac "e_ch b1"] run b1(2) by simp
  moreover have "p_id (control_packet env (p_id ?pac) statusAck) = p_id p"
    by (simp add: control_packet_def packet_setters pac(1))
  then have "\<exists>q\<in>set (e_net ?b). p_status q = statusAck \<and> p_id q = p_id p"
    using ack by (intro bexI [of _ "control_packet env (p_id ?pac) statusAck"]) simp_all
  ultimately show ?case
    using b1 serve_channel_keeps [of L env ?pac "e_ch b1"] run
    by (intro exI [of _ ?b]) (auto intro: rtranclp.rtrancl_into_rtrancl)
qed (use assms in auto)

lemma deliver_acks:
  assumes "\<And>i. i \<in> set is \<Longrightarrow> id_ok i \<and> (\<exists>q\<in>set (e_net b). p_status q = statusAck \<and> p_id q = i)"
    and "sq_fifo (c_sendQueue (e_ch a))" "\<not> st_destroyed (c_stat (e_ch a))"
  shows "\<exists>a'. link_steps L (a, b) (a', b) \<and> \<not> st_destroyed (c_stat (e_ch a')) \<and> e_msgs a' = e_msgs a \<and>
     sq_fifo (c_sendQueue (e_ch a')) \<and> c_maxDataLen (e_ch a') = c_maxDataLen (e_ch a) \<and>
     sq_items (c_sendQueue (e_ch a')) = filter (\<lambda>p. p_id p \<notin> set is) (sq_items (c_sendQueue (e_ch a)))"
  using assms
proof (induction "is" rule: rev_induct)
  case (snoc i "is")
  then obtain a1 where a1: "link_steps L (a, b) (a1, b)" "\<not> st_destroyed (c_stat (e_ch a1))" "e_msgs a1 = e_msgs a"
    "sq_fifo (c_sendQueue (e_ch a1))" "c_maxDataLen (e_ch a1) = c_maxDataLen (e_ch a)"
    "sq_items (c_sendQueue (e_ch a1)) = filter (\<lambda>p. p_id p \<notin> set is) (sq_items (c_sendQueue (e_ch a)))"
    by auto
  obtain q where q: "q \<in> set (e_net b)" "p_status q = statusAck" "p_id q = i" "id_ok i"
    using snoc.prems(1) by auto
  let ?pac = "arrival 0 q"
  have pac: "p_status ?pac = statusAck" "p_id ?pac = i"
    using q by (simp_all add: arrival_fields)
  obtain env :: wenv where True by simp
  obtain ch1 out where 1: "serve_ack (we_now env) ?pac (e_ch a1) = (ch1, out)" by fastforce
  let ?ch = "ch1\<lparr>c_stat := stat_setLastActivity (we_now env) (c_stat ch1)\<rparr>"
  have run: "serve_channel L env ?pac (e_ch a1) = (?ch, out)"
    unfolding serve_channel_ack [OF pac(1)] 1 by simp
  note eff = serve_ack_effect [OF a1(4), of "we_now env" ?pac, unfolded 1 fst_conv snd_conv pac(2)]
  have "link_step L (a1, b) (advance a1 ?ch out [], b)"
    by (intro step_left [OF a1(2)] op_serve [OF q(1) run])
  moreover have "\<not> st_destroyed (c_stat ?ch)"
    using serve_channel_live [of L env ?pac "e_ch a1"] run a1(2) by simp
  moreover have "sq_items (c_sendQueue ?ch) = filter (\<lambda>p. p_id p \<notin> set (is @ [i])) (sq_items (c_sendQueue (e_ch a)))"
    using eff(1) a1(6) by (auto intro: filter_cong)
  ultimately show ?case
    using a1 eff
    by (intro exI [of _ "advance a1 ?ch out []"]) (auto intro: rtranclp.rtrancl_into_rtrancl)
qed (use assms in auto)

text \<open>The whole queue is sent again; the link flows on, and every packet of it can be heard.\<close>

lemma link_resend:
  assumes laws: "crypto_laws L" and flow: "both_flow L (a, b)" and short: "short_link (a, b)"
    and live: "\<not> st_destroyed (c_stat (e_ch a))"
    and attempts: "\<And>p. p \<in> set (sq_items (c_sendQueue (e_ch a))) \<Longrightarrow> p_retransmitAttempts p < maxRetransmitAttempts"
  obtains a' ps where "link_step L (a, b) (a', b)" "flows L a' b" "\<not> st_destroyed (c_stat (e_ch a'))" "e_msgs a' = e_msgs a"
    "sent_stream a' = sent_stream a" "map p_id (sq_items (c_sendQueue (e_ch a'))) = map p_id ps"
    "\<And>p. p \<in> set ps \<Longrightarrow> p \<in> set (e_net a') \<and> stream_carries L a' p"
proof -
  obtain now ch out where r: "channel_retransmit now (e_ch a) = (ch, out, False)"
    "map wire_of (sends out) = map wire_of (sq_items (c_sendQueue (e_ch a)))"
    "st_destroyed (c_stat ch) = st_destroyed (c_stat (e_ch a))"
    using retransmit_all [where t = 0, OF attempts] by metis
  define a1 where "a1 = advance a ch out []"
  have op: "chan_op L (e_net b) (e_ch a) ch out []" using op_retransmit [OF r(1)] by simp
  have step: "link_step L (a, b) (a1, b)"
    unfolding a1_def by (rule step_left [OF live op])
  have "c_maxDataLen ch = c_maxDataLen (e_ch a)" using chan_op_keeps [OF op] by simp
  then have stream: "sent_stream a1 = sent_stream a" by (simp add: a1_def sent_stream_advance)
  then have "short_link (a1, b)" using short by (simp add: short_link_def)
  then have flow1: "flows L a1 b"
    using link_step_flow [OF laws step flow] by (simp add: both_flow_def)
  then have inv1: "sender_inv L a1" by (simp add: flows_def)
  have fifo: "sq_fifo (c_sendQueue (e_ch a))" using flow by (simp add: both_flow_def flows_def sender_inv_def)
  have items: "map wire_of (sq_items (c_sendQueue (e_ch a1))) = map wire_of (sends out)"
    using channel_retransmit_views(1) [OF r(1) fifo] r(2) by (simp add: a1_def sender_view_def)
  have "p \<in> set (e_net a1) \<and> stream_carries L a1 p" if p: "p \<in> set (sends out)" for p
  proof -
    obtain q where q: "q \<in> set (sq_items (c_sendQueue (e_ch a1)))" "wire_of p = wire_of q"
      using wire_in_set [OF items [symmetric] p] by blast
    then show ?thesis
      using inv1 p stream_carries_wire [OF q(2)] by (simp add: a1_def sender_inv_def)
  qed
  moreover have "map p_id (sq_items (c_sendQueue (e_ch a1))) = map p_id (sends out)"
    using arg_cong [OF items, of "map fst"] by (simp add: wire_of_def o_def)
  ultimately show thesis
    using that step flow1 stream live r(3) by (simp add: a1_def)
qed

text \<open>
  From every state of a running link whose queued packets have attempts left, there is a
  continuation that empties the sender's queue and completes its stream.
\<close>

lemma link_drains:
  assumes laws: "crypto_laws L" and flow: "both_flow L (a, b)" and short: "short_link (a, b)"
    and live: "\<not> st_destroyed (c_stat (e_ch a))" "\<not> st_destroyed (c_stat (e_ch b))"
    and attempts: "\<And>p. p \<in> set (sq_items (c_sendQueue (e_ch a))) \<Longrightarrow> p_retransmitAttempts p < maxRetransmitAttempts"
  shows "\<exists>a' b'. link_steps L (a, b) (a', b') \<and> e_msgs a' = e_msgs a \<and>
     sq_items (c_sendQueue (e_ch a')) = [] \<and> map p_data (e_reads b') = e_msgs a"
proof -
  obtain a1 ps where a1: "link_step L (a, b) (a1, b)" "flows L a1 b" "\<not> st_destroyed (c_stat (e_ch a1))" "e_msgs a1 = e_msgs a"
    "sent_stream a1 = sent_stream a" "map p_id (sq_items (c_sendQueue (e_ch a1))) = map p_id ps"
    and sent: "\<And>p. p \<in> set ps \<Longrightarrow> p \<in> set (e_net a1) \<and> stream_carries L a1 p"
    using link_resend [OF laws flow short live(1) attempts] by blast
  have inv1: "sq_fifo (c_sendQueue (e_ch a1))" "decryptPacketData L (c_crypt (e_ch b)) = decryptPacketData L (c_crypt (e_ch a1))"
    using a1(2) by (simp_all add: flows_def sender_inv_def)
  obtain b2 where b2: "link_steps L (a1, b) (a1, b2)" "\<not> st_destroyed (c_stat (e_ch b2))"
    "\<forall>p\<in>set ps. \<exists>q\<in>set (e_net b2). p_status q = statusAck \<and> p_id q = p_id p"
    "e_msgs b2 = e_msgs b \<and> c_maxDataLen (e_ch b2) = c_maxDataLen (e_ch b)"
    using deliver_data [OF sent inv1(2) live(2)] by blast
  let ?is = "map p_id (sq_items (c_sendQueue (e_ch a1)))"
  have acks: "id_ok i \<and> (\<exists>q\<in>set (e_net b2). p_status q = statusAck \<and> p_id q = i)" if i: "i \<in> set ?is" for i
  proof -
    obtain p where p: "p \<in> set ps" "i = p_id p" using i unfolding a1(6) by auto
    then have "id_ok i" using sent [OF p(1)] by (auto simp: stream_carries_def carries_def)
    with b2(3) p show ?thesis by auto
  qed
  obtain a3 where a3: "link_steps L (a1, b2) (a3, b2)" "e_msgs a3 = e_msgs a1"
    "c_maxDataLen (e_ch a3) = c_maxDataLen (e_ch a1)"
    "sq_items (c_sendQueue (e_ch a3)) = filter (\<lambda>p. p_id p \<notin> set ?is) (sq_items (c_sendQueue (e_ch a1)))"
    using deliver_acks [OF acks inv1(1) a1(3)] by blast
  have run: "link_steps L (a, b) (a3, b2)"
    using a1(1) b2(1) a3(1) by (meson converse_rtranclp_into_rtranclp rtranclp_trans)
  have empty: "sq_items (c_sendQueue (e_ch a3)) = []"
    unfolding a3(4) by (auto simp: filter_empty_conv)
  have "sent_stream a3 = sent_stream a"
    using a3(2,3) a1(5) by (simp add: sent_stream_def stream_fragments_def message_fragments_def [abs_def])
  then have "short_link (a3, b2)"
    using short b2(4) by (simp add: short_link_def sent_stream_def stream_fragments_def message_fragments_def [abs_def])
  then have "flows L a3 b2"
    using link_steps_flow [OF run laws flow] by (simp add: both_flow_def)
  then have "map p_data (e_reads b2) = e_msgs a3"
    using flows_prefix empty by fastforce
  then show ?thesis
    using run empty a3(2) a1(4) by (intro exI [of _ a3] exI [of _ b2]) simp
qed

text \<open>Every state of a run from two fresh channels keeps both streams.\<close>

lemma link_flows:
  assumes "crypto_laws L" "fresh_sender s" "fresh_receiver s" "fresh_sender r" "fresh_receiver r"
    and "k_session (c_crypt r) = k_session (c_crypt s)"
    and "link_steps L (fresh_end s, fresh_end r) (a, b)" "short_link (a, b)"
  shows "both_flow L (a, b)"
proof -
  note key = decrypt_session [OF assms(6), of L]
  have "both_flow L (fresh_end s, fresh_end r)"
    using flows_fresh [OF assms(2,5) key] flows_fresh [OF assms(4,3) key [symmetric]] by (simp add: both_flow_def)
  then show ?thesis by (rule link_steps_flow [OF assms(7,1) _ assms(8)])
qed

text \<open>
  The specification of a session: over every run of the link in its bounds, each reader's data is
  a prefix of what the other end wrote, and all of it once that end's queue is empty.
\<close>

definition reliable :: "crypto \<Rightarrow> channel \<Rightarrow> channel \<Rightarrow> bool" where
  "reliable L s r \<longleftrightarrow>
     (\<forall>a b. link_steps L (fresh_end s, fresh_end r) (a, b) \<longrightarrow> short_link (a, b) \<longrightarrow>
        (\<exists>j\<le>length (e_msgs a). \<exists>k\<le>length (e_msgs b).
           map p_data (e_reads b) = take j (e_msgs a) \<and> (sq_items (c_sendQueue (e_ch a)) = [] \<longrightarrow> j = length (e_msgs a)) \<and>
           map p_data (e_reads a) = take k (e_msgs b) \<and> (sq_items (c_sendQueue (e_ch b)) = [] \<longrightarrow> k = length (e_msgs b))))"

lemma reliable_fresh:
  assumes "crypto_laws L" "fresh_sender s" "fresh_receiver s" "fresh_sender r" "fresh_receiver r"
    and "k_session (c_crypt r) = k_session (c_crypt s)"
  shows "reliable L s r"
  unfolding reliable_def
proof (intro allI impI)
  fix a b
  assume "link_steps L (fresh_end s, fresh_end r) (a, b)" "short_link (a, b)"
  then have "flows L a b" "flows L b a"
    using link_flows [OF assms] by (simp_all add: both_flow_def)
  from flows_prefix [OF this(1)] flows_prefix [OF this(2)]
  show "\<exists>j\<le>length (e_msgs a). \<exists>k\<le>length (e_msgs b).
     map p_data (e_reads b) = take j (e_msgs a) \<and> (sq_items (c_sendQueue (e_ch a)) = [] \<longrightarrow> j = length (e_msgs a)) \<and>
     map p_data (e_reads a) = take k (e_msgs b) \<and> (sq_items (c_sendQueue (e_ch b)) = [] \<longrightarrow> k = length (e_msgs b))"
    by blast
qed

text \<open>The delivery timer of the packet an identifier leads to.\<close>

lemma sq_get_elem: "sq_get q i = Some (e, p) \<Longrightarrow> map_of (sq_queue q) e = Some p"
  by (simp add: sq_get_def split: option.splits)

lemma delivery_timer_get:
  assumes "sq_get (c_sendQueue ch) i = Some (e, pac)" "p_deliveryTimer pac = Armed t" "p_delivery pac = Some f" "t \<le> now"
  shows "sq_get (c_sendQueue (fst (delivery_timer now e ch))) i = Some (e, pac\<lparr>p_deliveryTimer := Stopped\<rparr>)"
proof -
  have "map_of (map (\<lambda>(x, p). (x, if x = e then p\<lparr>p_deliveryTimer := Stopped\<rparr> else p)) es) e =
      map_option (p_deliveryTimer_update (\<lambda>_. Stopped)) (map_of es e)" for es :: "(nat \<times> packet) list"
    by (induction es) auto
  then show ?thesis
    using assms by (auto simp: sq_get_def delivery_timer_def Let_def split: option.splits)
qed

subsection \<open>Properties\<close>

text \<open>An end that has written one message, over the crypto that hides nothing.\<close>

definition sample_end :: endpoint where
  "sample_end = (case channel_WriteTo plain_crypto (\<lambda>_. sample_wenv) sample_channel [1, 2] [] of
     (_, ch, out) \<Rightarrow> advance (fresh_end sample_channel) ch out [[1, 2]])"

lemma sample_fresh: "fresh_sender sample_channel" "fresh_receiver sample_channel"
  using sqf.fifo_empty
  by (simp_all add: fresh_sender_def fresh_receiver_def sample_channel_def stat_zero_def sq_empty_def)

lemma sample_end_step:
  "link_steps plain_crypto (fresh_end sample_channel, fresh_end sample_channel) (sample_end, fresh_end sample_channel)"
proof -
  obtain res ch out where w: "channel_WriteTo plain_crypto (\<lambda>_. sample_wenv) sample_channel [1, 2] [] = (res, ch, out)"
    by (metis prod.collapse)
  have "chan_op plain_crypto [] sample_channel ch out [[1, 2]]"
    by (rule op_write [OF _ _ w]) (simp_all add: env_ok_def sample_wenv_def delivery_ok_def)
  moreover have "\<not> st_destroyed (c_stat sample_channel)"
    using sample_fresh(1) by (simp add: fresh_sender_def)
  ultimately have "link_step plain_crypto (fresh_end sample_channel, fresh_end sample_channel)
      (advance (fresh_end sample_channel) ch out [[1, 2]], fresh_end sample_channel)"
    by (intro step_left) (simp_all add: fresh_end_def)
  then show ?thesis by (simp add: sample_end_def w)
qed

lemma sample_end_state:
  "e_msgs sample_end = [[1, 2]]" "c_maxDataLen (e_ch sample_end) = 0" "\<not> st_destroyed (c_stat (e_ch sample_end))"
  "map p_retransmitAttempts (sq_items (c_sendQueue (e_ch sample_end))) = [0]"
  by code_simp+

lemma sample_end_short: "short_link (sample_end, fresh_end sample_channel)"
  using sample_end_state(1,2)
  by (simp add: short_link_def sent_stream_def stream_fragments_def message_fragments_def fresh_end_def split_limit_def
      maxDataLen_def headerLen_def fragments_short)

text \<open>
  A session never gets stuck. From every state such a session can reach, both channels live and
  no queued packet out of attempts, the timers and the network can bring it to a state where the
  send queue is empty and the other reader has got every message written: no run of losses,
  repetitions and reorderings leaves a packet that can no longer be delivered or acknowledged.
\<close>

lemma link_progress:
  assumes "crypto_laws L" "fresh_sender s" "fresh_receiver s" "fresh_sender r" "fresh_receiver r"
    and "k_session (c_crypt r) = k_session (c_crypt s)"
    and "link_steps L (fresh_end s, fresh_end r) (a, b)" "short_link (a, b)"
    and "\<not> st_destroyed (c_stat (e_ch a))" "\<not> st_destroyed (c_stat (e_ch b))"
    and "\<And>p. p \<in> set (sq_items (c_sendQueue (e_ch a))) \<Longrightarrow> p_retransmitAttempts p < maxRetransmitAttempts"
  shows "\<exists>a' b'. link_steps L (a, b) (a', b') \<and> e_msgs a' = e_msgs a \<and>
     sq_items (c_sendQueue (e_ch a')) = [] \<and> map p_data (e_reads b') = e_msgs a"
  by (rule link_drains [OF assms(1) link_flows [OF assms(1-8)] assms(8-11)])

text \<open>
  C6: A running session is two reliable streams. From two fresh channels that share a session
  key, let both ends write messages, serve whatever packets of the other, be visited by every
  timer, and be closed, in any interleaving, over a network that loses, repeats, delays and
  reorders. As long as each direction carries at most 2^19 packets, what each reader has got is
  at every moment a prefix of the messages the other end has written, and all of them once that
  end's send queue is empty.
\<close>

lemma link_streams:
  assumes "crypto_laws L" "fresh_sender s" "fresh_receiver s" "fresh_sender r" "fresh_receiver r"
    and "k_session (c_crypt r) = k_session (c_crypt s)"
    and "link_steps L (fresh_end s, fresh_end r) (a, b)" "short_link (a, b)"
  shows "\<exists>j\<le>length (e_msgs a). \<exists>k\<le>length (e_msgs b).
     map p_data (e_reads b) = take j (e_msgs a) \<and> (sq_items (c_sendQueue (e_ch a)) = [] \<longrightarrow> j = length (e_msgs a)) \<and>
     map p_data (e_reads a) = take k (e_msgs b) \<and> (sq_items (c_sendQueue (e_ch b)) = [] \<longrightarrow> k = length (e_msgs b))"
  using reliable_fresh [OF assms(1-6)] assms(7,8) unfolding reliable_def by blast

lemma link_streams_witness: "sq_items (c_sendQueue (e_ch sample_end)) \<noteq> []"
proof
  assume empty: "sq_items (c_sendQueue (e_ch sample_end)) = []"
  show False
    using link_streams [OF plain_crypto_laws sample_fresh sample_fresh refl sample_end_step sample_end_short]
      empty sample_end_state(1) by (auto simp: fresh_end_def)
qed

text \<open>
  C29: The delivery timeout of a packet. Before its time nothing happens; at its time the
  callback gets the packet with the timeout error, once, and the packet stays queued as it was
  on the wire. So the timeout is not final: the packet is sent on, and when its acknowledgement
  arrives later the same callback is called again, without an error.
\<close>

lemma delivery_timeout:
  assumes "sq_get (c_sendQueue ch) i = Some (e, pac)" "p_deliveryTimer pac = Armed t" "p_delivery pac = Some f"
    and "p_status ack = statusAck" "p_id ack = i"
  shows "if now < t then delivery_timer now e ch = (ch, [])
     else \<exists>ch'. delivery_timer now e ch = (ch', [OTimeout f pac]) \<and> map wire_of (sq_items (c_sendQueue ch')) = map wire_of (sq_items (c_sendQueue ch)) \<and>
       delivery_timer later e ch' = (ch', []) \<and>
       snd (serve_channel L env ack ch') = [ODeliver f (pac\<lparr>p_deliveryTimer := Stopped\<rparr>)]"
proof (cases "now < t")
  case True
  then show ?thesis using assms sq_get_elem [OF assms(1)] by (simp add: delivery_timer_def)
next
  case False
  define ch' where "ch' = fst (delivery_timer now e ch)"
  have run: "delivery_timer now e ch = (ch', [OTimeout f pac])"
    using False assms sq_get_elem [OF assms(1)] by (simp add: ch'_def delivery_timer_def Let_def)
  have get: "sq_get (c_sendQueue ch') i = Some (e, pac\<lparr>p_deliveryTimer := Stopped\<rparr>)"
    using delivery_timer_get [OF assms(1-3)] False by (simp add: ch'_def)
  have "delivery_timer later e ch' = (ch', [])"
    using sq_get_elem [OF get] by (simp add: delivery_timer_def)
  moreover have "snd (serve_channel L env ack ch') = [ODeliver f (pac\<lparr>p_deliveryTimer := Stopped\<rparr>)]"
    using get assms(3-5) by (simp add: serve_channel_ack serve_ack_def setTripTime_def sq_delete_def Let_def split_def)
  ultimately show ?thesis
    using False run delivery_timer_wires [OF run] by auto
qed

lemma delivery_timeout_witness:
  "\<exists>ch'. delivery_timer 9 0 (sample_channel\<lparr>c_sendQueue := sq_add ((newPacket 0)\<lparr>p_deliveryTimer := Armed 9, p_delivery := Some 4\<rparr>) sq_empty\<rparr>) =
     (ch', [OTimeout 4 ((newPacket 0)\<lparr>p_deliveryTimer := Armed 9, p_delivery := Some 4\<rparr>)])"
proof -
  let ?p = "(newPacket 0)\<lparr>p_deliveryTimer := Armed 9, p_delivery := Some 4\<rparr>"
  have "sq_get (c_sendQueue (sample_channel\<lparr>c_sendQueue := sq_add ?p sq_empty\<rparr>)) 0 = Some (0, ?p)"
    by (simp add: sq_add_def sq_empty_def sq_get_def newPacket_def)
  from delivery_timeout [OF this, where ack = "set_status statusAck (newPacket 0)" and now = 9 and t = 9 and f = 4
      and later = 0 and L = plain_crypto and env = sample_wenv]
  obtain ch' where "delivery_timer 9 0 (sample_channel\<lparr>c_sendQueue := sq_add ?p sq_empty\<rparr>) = (ch', [OTimeout 4 ?p])"
    by (auto simp: packet_setters newPacket_def)
  then show ?thesis ..
qed

end
