(* ===== verification/Network.thy ===== *)
theory Network
  imports Handshake Link
begin

section \<open>Two connectors and the network between them\<close>

text \<open>
  A session between two whole connectors, each with other channels, other peers, its timers, its
  goroutines and its application.  Every run of the two that leaves the session intact is a run of
  the link of its two channels, so its streams are reliable.
\<close>

subsection \<open>Datagrams that do not belong to a session\<close>

text \<open>
  A packet that is harmless to the peer whose crypt is \<open>c\<close>: no data, no acknowledgement, and no
  client answer with another session key.
\<close>

definition harmless :: "crypto \<Rightarrow> crypt \<Rightarrow> packet \<Rightarrow> bool" where
  "harmless L c p \<longleftrightarrow> p_status p \<notin> {statusData, statusDataNext, statusAck} \<and>
     (p_status p = statusConnectClientAnswer \<longrightarrow>
        (\<forall>cp key. connect_unmarshal (p_data p) = Inr cp \<longrightarrow> rsa_decrypt L c (cp_data cp) = Inr key \<longrightarrow>
           setSesionKey key c = c))"

definition harmless_bytes :: "crypto \<Rightarrow> crypt \<Rightarrow> bytes \<Rightarrow> bool" where
  "harmless_bytes L c bs \<longleftrightarrow> (\<forall>now q. unmarshalBinary bs (newPacket now) = Inr q \<longrightarrow> harmless L c q)"

lemma harmless_marshal: "harmless L c p \<Longrightarrow> harmless_bytes L c (marshalBinary p)"
  by (simp add: harmless_bytes_def unmarshal_marshal harmless_def)

subsection \<open>Steps that leave a session alone\<close>

text \<open>The packets of channel \<open>r\<close> that the reader goroutine has not taken yet.\<close>

definition pending :: "nat \<Rightarrow> tru \<Rightarrow> packet list" where
  "pending r t = map snd (filter (\<lambda>x. fst x = r) (t_readerCh t))"

text \<open>
  From \<open>t\<close> to \<open>t'\<close> the channel \<open>r\<close> to the peer \<open>y\<close> stays as it is and stays mapped, and what is added
  for the peer is harmless to it.
\<close>

definition quiet :: "crypto \<Rightarrow> crypt \<Rightarrow> nat \<Rightarrow> string \<Rightarrow> tru \<Rightarrow> tru \<Rightarrow> bool" where
  "quiet L c r y t t' \<longleftrightarrow> length (t_heap t) \<le> length (t_heap t') \<and> get_ch t' r = get_ch t r \<and> getChannel y t' = getChannel y t \<and>
     (\<forall>p. (r, p) \<in> set (t_senderCh t') \<longrightarrow> (r, p) \<in> set (t_senderCh t) \<or> harmless L c p) \<and>
     (\<forall>bs. EvUdp y bs \<in> set (t_events t') \<longrightarrow> EvUdp y bs \<in> set (t_events t) \<or> harmless_bytes L c bs) \<and>
     pending r t' = pending r t"

lemma quiet_refl [simp]: "quiet L c r y t t"
  by (simp add: quiet_def)

lemma quiet_trans: "quiet L c r y s t \<Longrightarrow> quiet L c r y t u \<Longrightarrow> quiet L c r y s u"
  unfolding quiet_def by (metis order_trans)

lemma quiet_frame:
  assumes "t_heap t' = t_heap t" "t_channels t' = t_channels t" "t_senderCh t' = t_senderCh t"
    "t_readerCh t' = t_readerCh t" "t_events t' = t_events t"
  shows "quiet L c r y t t'"
  using assms by (simp add: quiet_def getChannel_def pending_def)

lemma quiet_put: "x \<noteq> r \<or> ch = get_ch t r \<Longrightarrow> quiet L c r y t (put_ch x ch t)"
  unfolding quiet_def by (auto simp: getChannel_def pending_def) (simp_all add: put_ch_def)

lemma quiet_tell: "(\<And>bs. EvUdp y bs \<in> set es \<Longrightarrow> harmless_bytes L c bs) \<Longrightarrow> quiet L c r y t (tell es t)"
  by (auto simp: quiet_def tell_def getChannel_def pending_def)

lemma udp_out_events: "EvUdp a bs \<in> set (out_events b outs) \<longleftrightarrow> a = b \<and> OUdp bs \<in> set outs"
  by (induction b outs rule: out_events.induct) auto

lemma quiet_emit:
  assumes "x \<noteq> r" "c_addr (get_ch t x) \<noteq> y"
  shows "quiet L c r y t (emit x outs t)"
  using assms by (auto simp: quiet_def emit_eq getChannel_def pending_def udp_out_events)

lemma quiet_emit_own:
  assumes "harmless L c p"
  shows "quiet L c r y t (emit r [OSend p] t)"
  using assms by (auto simp: quiet_def emit_eq getChannel_def pending_def)

lemma quiet_op: "x \<noteq> r \<Longrightarrow> c_addr ch \<noteq> y \<Longrightarrow> x < length (t_heap t) \<Longrightarrow> quiet L c r y t (emit x outs (put_ch x ch t))"
  by (rule quiet_trans [OF quiet_put quiet_emit]) simp_all

lemma quiet_log: "quiet L c r y t (log_msg env msg t)"
  by (rule quiet_frame) (simp_all add: log_msg_def)

lemma quiet_destroy:
  assumes "x \<noteq> r" "c_addr (get_ch t x) \<noteq> y"
  shows "quiet L c r y t (destroy env msg x t)"
proof -
  have e: "EvUdp y bs \<notin> set (destroy_events x t)" for bs
    by (auto simp: destroy_events_def split: option.split)
  have "t_senderCh (destroy env msg x t) = t_senderCh t" "t_readerCh (destroy env msg x t) = t_readerCh t"
    by (simp_all add: destroy_def Let_def) (simp_all add: put_ch_def tell_def log_msg_def)
  then show ?thesis
    using assms e by (simp add: quiet_def destroy_get destroy_state getChannel_def pending_def)
qed

lemma quiet_newChannel:
  assumes "a \<noteq> y" "r < length (t_heap t)"
  shows "quiet L c r y t (snd (newChannel env a sm t))"
proof -
  obtain x t1 where 1: "newCrypt env (log_msg env (''new channel '' @ a) t) = (x, t1)" by fastforce
  have t1: "t_heap t1 = t_heap t" "t_channels t1 = t_channels t" "t_senderCh t1 = t_senderCh t"
    "t_readerCh t1 = t_readerCh t" "t_events t1 = t_events t"
    by (subst newCrypt_frame [OF 1], simp add: log_msg_def)+
  have new: "quiet L c r y t (t1\<lparr>t_heap := t_heap t1 @ [ch], t_channels := gm_set a n (t_channels t1)\<rparr>)" for ch n
    using assms t1 by (simp add: quiet_def getChannel_def pending_def nth_append)
  have call: "quiet L c r y s (tell [EvConnectCb f n] s)" for s f n
    by (rule quiet_tell) simp
  show ?thesis
    using quiet_frame [OF t1] new 1
    by (auto simp: newChannel_def Let_def split: sum.split option.split intro: quiet_trans [OF new call])
qed

lemma quiet_connect_put: "quiet L c r y t (connect_put u cd t)"
  by (rule quiet_frame) (simp_all add: connect_put_def)


subsection \<open>A datagram of another peer\<close>

lemma serve_cases:
  obtains (bad) "serve L env a bs tru = tru"
  | (handshake) pac t t' err where "unmarshalBinary bs (newPacket (te_now env)) = Inr pac"
      "p_status pac \<in> {statusConnect, statusConnectServerAnswer, statusConnectClientAnswer, statusConnectDone}"
      "t = reconnected env a (p_status pac) tru" "connect_serve L env a pac t = (err, t')"
      "serve L env a bs tru = (case (getChannel a tru, err) of
        (Some x, Some e) \<Rightarrow> destroy env (''channel connection error, destroy '' @ c_addr (get_ch t' x)) x t' | _ \<Rightarrow> t')"
  | (punch) f d where "serve L env a bs tru = tell [EvPunchCb f a d] tru"
  | (disconnect) msg x where "getChannel a tru = Some x" "serve L env a bs tru = destroy env msg x tru"
  | (regular) pac x ch out where "unmarshalBinary bs (newPacket (te_now env)) = Inr pac"
      "p_status pac \<notin> {statusConnect, statusConnectServerAnswer, statusConnectClientAnswer, statusConnectDone}"
      "getChannel a tru = Some x" "serve_channel L (te_wenv env) pac (get_ch tru x) = (ch, out)"
      "serve L env a bs tru = emit x out (put_ch x ch tru)"
proof (cases "unmarshalBinary bs (newPacket (te_now env))")
  case (Inl e)
  then show ?thesis by (intro bad) (simp add: serve_def)
next
  case (Inr pac)
  let ?s = "p_status pac"
  show ?thesis
  proof (cases "?s = statusConnect \<or> ?s = statusConnectServerAnswer \<or> ?s = statusConnectClientAnswer \<or> ?s = statusConnectDone")
    case True
    obtain err t' where "connect_serve L env a pac (reconnected env a ?s tru) = (err, t')" by fastforce
    with Inr True show ?thesis
      by (intro handshake [of pac "reconnected env a ?s tru" err t'])
        (auto simp: serve_def reconnected_def Let_def)
  next
    case False
    consider "?s = statusPunch" | "?s \<noteq> statusPunch" "getChannel a tru = None"
      | x where "?s \<noteq> statusPunch" "getChannel a tru = Some x" by fastforce
    then show ?thesis
    proof cases
      case 1
      then show ?thesis
        using Inr by (cases "t_punchcb tru") (auto simp: serve_def intro: bad punch)
    next
      case 2
      then show ?thesis using Inr False by (intro bad) (simp add: serve_def)
    next
      case 3
      obtain ch out where sc: "serve_channel L (te_wenv env) pac (get_ch tru x) = (ch, out)" by fastforce
      show ?thesis
      proof (cases "?s = statusDisconnect")
        case True
        then show ?thesis using 3 Inr by (intro disconnect [OF 3(2)]) (simp add: serve_def)
      next
        case no: False
        have "serve L env a bs tru = emit x out (put_ch x ch tru)"
          unfolding serve_def using 3 Inr False no sc by (simp add: Let_def)
        then show ?thesis using 3 Inr False sc by (intro regular) auto
      qed
    qed
  qed
qed

lemma mapped_other:
  assumes "tru_ok t" "getChannel a t = Some x" "a \<noteq> y" "c_addr (get_ch t r) = y"
  shows "x \<noteq> r" "c_addr (get_ch t x) \<noteq> y" "x < length (t_heap t)"
  using getChannel_ok [OF assms(1,2)] assms(3,4) by auto

lemma quiet_connect_serve:
  assumes ok: "tru_ok t" and a: "a \<noteq> y" and r: "r < length (t_heap t)" "c_addr (get_ch t r) = y"
  shows "quiet L c r y t (snd (connect_serve L env a pac t))"
proof -
  have q1: "quiet L c r y t t1" and new: "\<And>n. res = Inr n \<Longrightarrow> n \<noteq> r \<and> c_addr (get_ch t1 n) \<noteq> y \<and> n < length (t_heap t1)"
    if n: "newChannel env a sm t = (res, t1)" for res t1 sm
  proof -
    show "quiet L c r y t t1" using quiet_newChannel [OF a r(1), of L c env sm] n by simp
    show "n \<noteq> r \<and> c_addr (get_ch t1 n) \<noteq> y \<and> n < length (t_heap t1)" if "res = Inr n" for n
      using n that a r(1) by (cases rule: newChannel_cases) auto
  qed
  have step: "quiet L c r y t (emit n outs t1)" if "quiet L c r y t t1" "n \<noteq> r" "c_addr (get_ch t1 n) \<noteq> y" for n outs t1
    by (rule quiet_trans [OF that(1) quiet_emit [OF that(2,3)]])
  have conn: "quiet L c r y t (snd (serve_connect L env a pac t))"
  proof -
    obtain res t1 where 1: "newChannel env a True t = (res, t1)" by fastforce
    then show ?thesis
      using q1 [OF 1] new [OF 1] step
      by (auto simp: serve_connect_def Let_def split: sum.split)
  qed
  have sans: "quiet L c r y t (snd (serve_server_answer L env a pac t))"
  proof -
    obtain res t1 where 1: "newChannel env a False t = (res, t1)" by fastforce
    have put: "quiet L c r y t (connect_put u cd t1)" for u cd
      by (rule quiet_trans [OF q1 [OF 1] quiet_connect_put])
    have fin: "quiet L c r y t (put_ch n ch (emit n outs (connect_put u cd t1)))" if "res = Inr n" for n ch outs u cd
      using new [OF 1 that] by (intro quiet_trans [OF step [OF put] quiet_put]) simp_all
    show ?thesis
      using 1 q1 [OF 1] put fin
      by (auto simp: serve_server_answer_def Let_def split: sum.split option.split)
  qed
  have cans: "quiet L c r y t (snd (serve_client_answer L env a pac t))"
  proof -
    have "quiet L c r y t (emit x outs (put_ch x ((get_ch t x)\<lparr>c_crypt := k\<rparr>) t))" if "getChannel a t = Some x" for x outs k
      using mapped_other [OF ok that a r(2)] by (intro quiet_op) simp_all
    then show ?thesis
      by (auto simp: serve_client_answer_def Let_def split: sum.split option.split)
  qed
  have "quiet L c r y t (snd (serve_done pac t))"
    by (auto simp: serve_done_def split: sum.split option.split intro: quiet_connect_put quiet_tell)
  then show ?thesis
    using conn sans cans by (simp add: connect_serve_def)
qed

lemma quiet_reconnected:
  assumes ok: "tru_ok t" and a: "a \<noteq> y" and r: "r < length (t_heap t)" "c_addr (get_ch t r) = y"
  shows "quiet L c r y t (reconnected env a st t) \<and> evolves t (reconnected env a st t)"
proof
  show "quiet L c r y t (reconnected env a st t)"
    using mapped_other [OF ok _ a r(2)] by (auto simp: reconnected_def intro!: quiet_destroy split: option.split)
  show "evolves t (reconnected env a st t)"
    using getChannel_ok [OF ok] evolves_refl [OF ok] by (auto simp: reconnected_def intro!: evolves_destroy split: option.split)
qed

lemma quiet_serve_other:
  assumes laws: "hash_laws L" and ok: "tru_ok t" and a: "a \<noteq> y" and r: "r < length (t_heap t)" "c_addr (get_ch t r) = y"
  shows "quiet L c r y t (serve L env a bs t)"
proof (cases L env a bs t rule: serve_cases)
  case (handshake pac t1 t2 err)
  note rec = quiet_reconnected [OF assms(2-), where L = L and c = c and env = env and st = "p_status pac", folded handshake(3)]
  have e1: "tru_ok t1" "r < length (t_heap t1)" "c_addr (get_ch t1 r) = y"
    using rec[THEN conjunct2] r by (auto simp: evolves_def)
  have q: "quiet L c r y t t2"
    using quiet_trans [OF rec [THEN conjunct1] quiet_connect_serve [OF e1(1) a e1(2,3), of L c env pac]] handshake(4) by simp
  have e2: "evolves t t2"
    using connect_serve_ok [OF rec [THEN conjunct2], of L env a pac] handshake(4) by simp
  have "quiet L c r y t (destroy env m x t2)" if x: "getChannel a t = Some x" for m x
  proof (rule quiet_trans [OF q quiet_destroy])
    show "x \<noteq> r" "c_addr (get_ch t2 x) \<noteq> y"
      using mapped_other [OF ok x a r(2)] e2 by (auto simp: evolves_def)
  qed
  then show ?thesis
    using q handshake(5) by (auto split: option.split)
next
  case (disconnect msg x)
  then show ?thesis
    using mapped_other [OF ok disconnect(1) a r(2)] by (auto intro: quiet_destroy)
next
  case (regular pac x ch out)
  have "c_addr ch = c_addr (get_ch t x)"
    using serve_channel_ok [OF tru_okD(1) [OF ok mapped_other(3) [OF ok regular(3) a r(2)]] laws, of "te_wenv env" pac]
      regular(4) by (simp add: keeps_def)
  then show ?thesis
    using mapped_other [OF ok regular(3) a r(2)] by (simp add: regular(5) quiet_op)
qed (auto intro: quiet_tell)


subsection \<open>A datagram of the session's peer\<close>

text \<open>The channel \<open>r\<close> is live, and the only one of the connector that was ever made for \<open>y\<close>.\<close>

definition intact :: "nat \<Rightarrow> string \<Rightarrow> tru \<Rightarrow> bool" where
  "intact r y t \<longleftrightarrow> live t r \<and> (\<forall>x<length (t_heap t). c_addr (get_ch t x) = y \<longrightarrow> x = r)"

lemma intact_back: "evolves t t' \<Longrightarrow> intact r y t' \<Longrightarrow> r < length (t_heap t) \<Longrightarrow> intact r y t"
  unfolding intact_def evolves_def by (metis order_less_le_trans)

lemma intact_other: "intact r y t \<Longrightarrow> x < length (t_heap t) \<Longrightarrow> x \<noteq> r \<Longrightarrow> c_addr (get_ch t x) \<noteq> y"
  by (auto simp: intact_def)

lemma destroy_not_intact: "r < length (t_heap t) \<Longrightarrow> \<not> intact r y (destroy env msg r t)"
  by (simp add: intact_def destroy_get channel_stop_def)

lemma server_answer_new:
  assumes "serve_server_answer L env a pac t = (None, t')"
  shows "length (t_heap t') = Suc (length (t_heap t))" "c_addr (get_ch t' (length (t_heap t))) = a"
proof -
  have *: "length (t_heap t') = Suc (length (t_heap t)) \<and> c_addr (get_ch t' (length (t_heap t))) = a"
  proof -
    obtain res t1 where 1: "newChannel env a False t = (res, t1)" by fastforce
    from 1 show ?thesis
    proof (cases rule: newChannel_cases)
      case (error e)
      with 1 assms show ?thesis
        by (auto simp: serve_server_answer_def split: sum.splits option.splits)
    next
      case (new n)
      with 1 assms show ?thesis
        by (auto simp: serve_server_answer_def Let_def split: sum.splits option.splits)
    qed
  qed
  then show "length (t_heap t') = Suc (length (t_heap t))" "c_addr (get_ch t' (length (t_heap t))) = a" by blast+
qed

lemma serve_connect_dead:
  assumes "tru_ok t" "getChannel y t = Some r"
  shows "st_destroyed (c_stat (get_ch (snd (connect_serve L env y pac (reconnected env y statusConnect t))) r))"
proof -
  have r: "r < length (t_heap t)" using getChannel_ok [OF assms] by blast
  let ?t = "reconnected env y statusConnect t"
  have d: "st_destroyed (c_stat (get_ch ?t r))" "r < length (t_heap ?t)"
    using assms(2) r by (simp_all add: reconnected_def destroy_get channel_stop_def)
  have "evolves t ?t"
    using assms(2) r by (simp add: reconnected_def evolves_destroy [OF evolves_refl [OF assms(1)]])
  then have "evolves ?t (snd (connect_serve L env y pac ?t))"
    using connect_serve_ok [OF evolves_refl [OF evolvesD(1)]] by blast
  then show ?thesis using d by (auto simp: evolves_def)
qed

text \<open>A client answer that leaves the key as it is is answered, and no more.\<close>

lemma client_answer_quiet:
  assumes "serve_client_answer L env y pac t = (None, t')" "getChannel y t = Some r"
    and key: "harmless L (c_crypt (get_ch t r)) pac" "p_status pac = statusConnectClientAnswer"
  shows "quiet L c r y t t'"
proof -
  obtain cp k where k: "connect_unmarshal (p_data pac) = Inr cp" "rsa_decrypt L (c_crypt (get_ch t r)) (cp_data cp) = Inr k"
    "t' = emit r [OSend (set_data (connect_marshal (cp\<lparr>cp_data := []\<rparr>)) (set_status statusConnectDone (newPacket (te_now env))))]
       (put_ch r ((get_ch t r)\<lparr>c_crypt := setSesionKey k (c_crypt (get_ch t r))\<rparr>) t)"
    using assms(1,2) by (auto simp: serve_client_answer_def Let_def split: sum.splits)
  have "setSesionKey k (c_crypt (get_ch t r)) = c_crypt (get_ch t r)"
    using key k(1,2) unfolding harmless_def by blast
  then have "t' = emit r [OSend (set_data (connect_marshal (cp\<lparr>cp_data := []\<rparr>)) (set_status statusConnectDone (newPacket (te_now env))))] t"
    using k(3) by (simp add: put_ch_def)
  then show ?thesis
    by (simp add: quiet_emit_own harmless_def packet_setters)
qed

text \<open>
  A datagram of the peer that leaves the session intact is quiet, or one for the channel; \<open>c\<close> is the
  peer's crypt.
\<close>

lemma serve_own:
  assumes laws: "hash_laws L" and ok: "tru_ok t" and ch: "getChannel y t = Some r"
    and intact: "intact r y (serve L env y bs t)"
    and key: "\<And>pac. unmarshalBinary bs (newPacket (te_now env)) = Inr pac \<Longrightarrow> p_status pac = statusConnectClientAnswer \<Longrightarrow>
      harmless L (c_crypt (get_ch t r)) pac"
  shows "quiet L c r y t (serve L env y bs t) \<or>
    (\<exists>pac ch out. unmarshalBinary bs (newPacket (te_now env)) = Inr pac \<and>
       serve_channel L (te_wenv env) pac (get_ch t r) = (ch, out) \<and> serve L env y bs t = emit r out (put_ch r ch t))"
proof (cases L env y bs t rule: serve_cases)
  case (handshake pac t1 t2 err)
  have r: "r < length (t_heap t)" using getChannel_ok [OF ok ch] by blast
  have e1: "evolves t t1"
    using ch r by (auto simp: handshake(3) reconnected_def evolves_refl [OF ok] intro!: evolves_destroy)
  then have "evolves t t2"
    using connect_serve_ok [OF e1, of L env y pac] handshake(4) by simp
  then have r2: "r < length (t_heap t2)" by (rule evolvesD(3) [OF _ r])
  have none: "err = None" "serve L env y bs t = t2"
    using intact handshake(5) ch destroy_not_intact [OF r2] by (auto split: option.splits)
  have "p_status pac \<noteq> statusConnect"
    using serve_connect_dead [OF ok ch, of L env pac] handshake(3,4) intact none(2) by (auto simp: intact_def)
  then have t1: "t1 = t" by (simp add: handshake(3) reconnected_id)
  from handshake(2) \<open>p_status pac \<noteq> statusConnect\<close>
  consider "p_status pac = statusConnectServerAnswer" | "p_status pac = statusConnectClientAnswer"
    | "p_status pac = statusConnectDone" by auto
  then have "quiet L c r y t t2"
  proof cases
    case 1
    then have "serve_server_answer L env y pac t = (None, t2)"
      using handshake(4) none(1) t1 by (simp add: connect_serve_def)
    from server_answer_new [OF this] show ?thesis
      using intact r by (auto simp: none(2) intact_def)
  next
    case 2
    then have "serve_client_answer L env y pac t = (None, t2)"
      using handshake(4) none(1) t1 by (simp add: connect_serve_def)
    then show ?thesis
      using client_answer_quiet ch key [OF handshake(1) 2] 2 by blast
  next
    case 3
    then have "serve_done pac t = (None, t2)"
      using handshake(4) none(1) t1 by (simp add: connect_serve_def)
    then show ?thesis
      by (auto simp: serve_done_def split: sum.splits option.splits if_splits intro: quiet_connect_put quiet_tell)
  qed
  then show ?thesis by (simp add: none(2))
next
  case (disconnect msg x)
  then show ?thesis
    using intact ch destroy_not_intact getChannel_ok [OF ok ch] by auto
next
  case (regular pac x ch' out)
  then show ?thesis using ch by auto
qed (auto intro: quiet_tell)


subsection \<open>What the operations of a channel send\<close>

definition session_status :: "packet \<Rightarrow> bool" where
  "session_status p \<longleftrightarrow> is_data p \<or> p_status p \<in> {statusAck, statusPing, statusPong}"

definition session_out :: "out list \<Rightarrow> bool" where
  "session_out outs \<longleftrightarrow> (\<forall>bs. OUdp bs \<notin> set outs) \<and> (\<forall>p\<in>set (sends outs). session_status p)"

lemma session_out_simps [simp]:
  "session_out []" "session_out (xs @ ys) \<longleftrightarrow> session_out xs \<and> session_out ys"
  "session_out (OSend p # xs) \<longleftrightarrow> session_status p \<and> session_out xs" "session_out (ORead p # xs) = session_out xs"
  "session_out (ODeliver f p # xs) = session_out xs" "session_out (OTimeout f p # xs) = session_out xs"
  "session_out (OPanic # xs) = session_out xs"
  by (auto simp: session_out_def)

lemma session_control [simp]:
  "session_status (control_packet env i statusAck)" "session_status (control_packet env i statusPing)"
  "session_status (control_packet env i statusPong)"
  by (simp_all add: session_status_def)

lemma session_out_map: "(\<And>p. p \<in> set ps \<Longrightarrow> session_status p) \<Longrightarrow> session_out (map OSend ps)"
  by (induction ps) auto

lemma status_setters [simp]:
  "p_status (setRetransmitTime now ch p) = p_status p" "p_status (setDelivery now f p) = p_status p"
  "p_status (setDeliveryTimeout t p) = p_status p"
  by (simp_all add: setRetransmitTime_def packet_setRetransmitTime_def setDelivery_def setDeliveryTimeout_def split: option.split)

lemma session_out_writeTo:
  assumes "sp = 0 \<or> sp = statusSplit"
  shows "session_out (snd (snd (writeTo L env ch d (statusData OR sp) ds is)))"
proof -
  have st: "statusData OR sp = statusData \<or> statusData OR sp = statusDataNext" using assms by auto
  have "session_out (snd (writeTo_packet env c i dat (statusData OR sp) f t))" for c i dat f t
    using st split_status [OF assms]
    by (auto simp: writeTo_packet_def Let_def session_status_def is_data_def set_data_def set_status_def)
  then show ?thesis
    using split_status [OF assms]
    by (auto simp: writeTo_def Let_def split_def split: sum.split)
qed

lemma session_out_WriteTo: "session_out (snd (snd (channel_WriteTo L envs ch data ds)))"
proof -
  have "session_out (fst (snd (snd (split_loop (channel_writer L envs ds) m 0 0 data (ch, [], 0)))))" for m
    by (rule split_loop_keeps_pieces [where P = "\<lambda>st. session_out (fst (snd st))"])
      (simp_all add: channel_writer_def split_def session_out_writeTo)
  then show ?thesis
    by (simp add: channel_WriteTo_def splitPacket_def split_def)
qed

lemma session_out_sendToReader: "session_out (snd (sendToReader now p st)) = session_out (snd st)"
  by (simp add: sendToReader_def Let_def split: prod.split sum.split option.split)

lemma session_out_serve: "session_out (snd (serve_channel L env pac ch))"
proof -
  have ack: "session_out (snd (serve_ack now pac ch))" for now
    by (simp add: serve_ack_def setTripTime_def Let_def split: option.split prod.split)
  have acc: "session_out (snd (accept_data now p c))" for now p c
  proof -
    have "session_out (snd (snd (process ex (sendToReader now) q (sendToReader now p (c, [])))))" for ex q
      by (rule process_keeps [where P = "\<lambda>st. session_out (snd st)"]) (simp_all add: session_out_sendToReader)
    then show ?thesis
      by (simp add: accept_data_def Let_def split_def split: option.split)
  qed
  have "session_out (fst (snd (serve_data L env pac ch)))"
    using acc by (simp add: serve_data_def Let_def split_def writeToAck_eq split: sum.split)
  then show ?thesis
    using ack writeToPong_eq [of L env ch] by (simp add: serve_channel_def Let_def split_def)
qed

lemma session_out_delivery: "session_out (snd (delivery_timer now e ch))"
  by (simp add: delivery_timer_def Let_def split: option.split timer.split)

lemma session_out_late: "session_out (snd (late_delivery now i ch))"
  by (simp add: late_delivery_def Let_def split: option.split timer.split)

lemma session_out_ping: "session_out (snd (snd (writeToPing L env ch)))"
  by (simp add: writeToPing_eq)

lemma session_out_retransmit:
  assumes "flows L a b" "channel_retransmit now (e_ch a) = (ch, out, dead)"
  shows "session_out out"
proof -
  have fifo: "sq_fifo (c_sendQueue (e_ch a))" using assms(1) by (simp add: flows_def sender_inv_def)
  note views = channel_retransmit_views [OF assms(2) fifo]
  have wires: "map wire_of (sq_items (c_sendQueue ch)) = map wire_of (sq_items (c_sendQueue (e_ch a)))"
    using views(1) by (simp add: sender_view_def)
  have "session_status p" if p: "p \<in> set (sends out)" for p
  proof -
    obtain q where q: "q \<in> set (sq_items (c_sendQueue (e_ch a)))" "wire_of p = wire_of q"
      using wire_in_set [OF wires] views(4) p by blast
    then show ?thesis
      using queued_data [OF assms(1) q(1)] by (simp add: session_status_def is_data_def wire_of_def)
  qed
  moreover obtain ps where "out = map OSend ps"
    using assms(2) by (auto simp: channel_retransmit_def Let_def split: prod.splits)
  ultimately show ?thesis by (simp add: session_out_map)
qed


subsection \<open>A connector as an end of the link\<close>

text \<open>A host: its connector, and what its steps said of themselves so far.\<close>

record host =
  h_tru :: tru
  h_acts :: "act list"

text \<open>The messages written on the channel \<open>r\<close>, and the packets of it that the reader goroutine took.\<close>

fun act_writes :: "nat \<Rightarrow> act \<Rightarrow> bytes list" where
  "act_writes r (Wrote x m ok) = (if x = r then [m] else [])"
| "act_writes r _ = []"

fun act_takes :: "nat \<Rightarrow> act \<Rightarrow> packet list" where
  "act_takes r (Took (Some (x, p))) = (if x = r then [p] else [])"
| "act_takes r _ = []"

definition written :: "nat \<Rightarrow> host \<Rightarrow> bytes list" where
  "written r h = concat (map (act_writes r) (h_acts h))"

definition taken :: "nat \<Rightarrow> host \<Rightarrow> packet list" where
  "taken r h = concat (map (act_takes r) (h_acts h))"

definition host_step :: "host \<Rightarrow> act \<Rightarrow> tru \<Rightarrow> host" where
  "host_step h l t = \<lparr>h_tru = t, h_acts = h_acts h @ [l]\<rparr>"

lemma host_step_sel [simp]:
  "h_tru (host_step h l t) = t" "written r (host_step h l t) = written r h @ act_writes r l"
  "taken r (host_step h l t) = taken r h @ act_takes r l"
  by (simp_all add: host_step_def written_def taken_def)

text \<open>
  The channel \<open>r\<close> of the host, to the peer at \<open>y\<close> whose crypt is \<open>c\<close>, as the end \<open>e\<close> of a link: what the
  host has sent or is about to send to \<open>y\<close> is a packet of the link or harmless.
\<close>

definition represents :: "crypto \<Rightarrow> crypt \<Rightarrow> nat \<Rightarrow> string \<Rightarrow> host \<Rightarrow> endpoint \<Rightarrow> bool" where
  "represents L c r y h e \<longleftrightarrow>
     r < length (t_heap (h_tru h)) \<and> get_ch (h_tru h) r = e_ch e \<and> c_addr (e_ch e) = y \<and> getChannel y (h_tru h) = Some r \<and>
     e_msgs e = written r h \<and> e_reads e = taken r h @ pending r (h_tru h) \<and>
     (\<forall>p\<in>set (e_net e). session_status p) \<and>
     (\<forall>p. (r, p) \<in> set (t_senderCh (h_tru h)) \<longrightarrow> p \<in> set (e_net e) \<or> harmless L c p) \<and>
     (\<forall>bs. EvUdp y bs \<in> set (t_events (h_tru h)) \<longrightarrow> (\<exists>p\<in>set (e_net e). bs = marshalBinary p) \<or> harmless_bytes L c bs)"

lemma represents_quiet:
  assumes rep: "represents L c r y h e" and q: "quiet L c r y (h_tru h) (h_tru h')"
    and acts: "written r h' = written r h" "taken r h' = taken r h"
  shows "represents L c r y h' e"
  using rep q unfolding represents_def quiet_def acts by (metis order_less_le_trans)

lemma pending_emit [simp]: "pending r (emit r out t) = pending r t @ reads out"
  by (induction out rule: reads.induct) (simp_all add: pending_def emit_eq)

lemma pending_put [simp]: "pending r (put_ch x ch t) = pending r t"
  by (simp add: pending_def put_ch_def)

lemma represents_op:
  assumes rep: "represents L c r y h e" and t: "h_tru h' = emit r out (put_ch r ch (h_tru h))"
    and acts: "written r h' = written r h @ ms" "taken r h' = taken r h"
    and out: "session_out out" and addr: "c_addr ch = y"
  shows "represents L c r y h' (advance e ch out ms)"
proof -
  have "t_senderCh (h_tru h') = t_senderCh (h_tru h) @ map (Pair r) (sends out)"
    by (simp add: t emit_eq put_ch_def)
  moreover have "EvUdp y bs \<in> set (t_events (h_tru h')) \<longleftrightarrow> EvUdp y bs \<in> set (t_events (h_tru h))" for bs
    using out by (auto simp: t emit_eq put_ch_def udp_out_events session_out_def)
  moreover have "getChannel y (h_tru h') = getChannel y (h_tru h)" by (simp add: t getChannel_def)
  ultimately show ?thesis
    using rep acts addr out by (auto simp: represents_def t advance_def session_out_def)
qed

lemma emit_Nil [simp]: "emit r [] t = t"
  by (simp add: emit_def)

lemma represents_put:
  assumes "represents L c r y h e" "h_tru h' = put_ch r ch (h_tru h)"
    and "written r h' = written r h" "taken r h' = taken r h" "c_addr ch = y"
  shows "represents L c r y h' (advance e ch [] [])"
  using assms by (intro represents_op [OF assms(1)]) simp_all

subsection \<open>The goroutines\<close>

lemma represents_sender:
  assumes rep: "represents L c r y h e" and intact: "intact r y (h_tru h)" and ok: "tru_ok (h_tru h)"
    and h': "h_tru h' = sender_step (h_tru h)" "written r h' = written r h" "taken r h' = taken r h"
  shows "represents L c r y h' e"
proof (cases "t_senderCh (h_tru h)")
  case Nil
  then show ?thesis
    using h' by (intro represents_quiet [OF rep]) (simp_all add: sender_step_def)
next
  case (Cons xp rest)
  obtain x p where xp: "xp = (x, p)" by fastforce
  have x: "x < length (t_heap (h_tru h))" using tru_okD(4) [OF ok, of xp] Cons xp by simp
  have mine: "x = r" if "c_addr (get_ch (h_tru h) x) = y" using intact x that by (auto simp: intact_def)
  have "bs = marshalBinary p \<and> x = r" if "EvUdp y bs \<in> set (t_events (h_tru h'))" "EvUdp y bs \<notin> set (t_events (h_tru h))" for bs
    using that mine Cons xp by (auto simp: h'(1) sender_step_def Let_def tell_def split: if_splits)
  then have ev: "(\<exists>p\<in>set (e_net e). bs = marshalBinary p) \<or> harmless_bytes L c bs"
    if "EvUdp y bs \<in> set (t_events (h_tru h'))" for bs
    using that rep harmless_marshal Cons xp unfolding represents_def by (metis list.set_intros(1))
  have "t_heap (h_tru h') = t_heap (h_tru h)" "t_senderCh (h_tru h') = rest" "getChannel y (h_tru h') = getChannel y (h_tru h)"
    "pending r (h_tru h') = pending r (h_tru h)"
    by (simp_all add: h'(1) sender_step_def Let_def Cons xp tell_def getChannel_def pending_def)
  then show ?thesis
    using rep ev h'(2,3) Cons unfolding represents_def by simp
qed

lemma represents_reader:
  assumes rep: "represents L c r y h e"
    and h': "h_tru h' = reader_step processed (h_tru h)" "written r h' = written r h"
      "taken r h' = taken r h @ act_takes r (Took (if t_readerCh (h_tru h) = [] then None else Some (hd (t_readerCh (h_tru h)))))"
  shows "represents L c r y h' e"
proof (cases "t_readerCh (h_tru h)")
  case Nil
  then show ?thesis
    using h' by (intro represents_quiet [OF rep]) (simp_all add: reader_step_def)
next
  case (Cons xp rest)
  obtain x p where xp: "xp = (x, p)" by fastforce
  have f: "t_heap (h_tru h') = t_heap (h_tru h)" "t_senderCh (h_tru h') = t_senderCh (h_tru h)"
    "getChannel y (h_tru h') = getChannel y (h_tru h)" "t_readerCh (h_tru h') = rest"
    by (simp_all add: h'(1) reader_step_def Let_def Cons xp tell_def getChannel_def)
  have "EvUdp y bs \<in> set (t_events (h_tru h')) \<longleftrightarrow> EvUdp y bs \<in> set (t_events (h_tru h))" for bs
    by (auto simp: h'(1) reader_step_def Let_def Cons xp tell_def split: option.splits)
  moreover have "taken r h' @ pending r (h_tru h') = taken r h @ pending r (h_tru h)"
    by (simp add: h'(3) Cons xp f(4) pending_def)
  ultimately show ?thesis
    using rep f(1-3) h'(2) unfolding represents_def by simp
qed


subsection \<open>Steps on other channels\<close>

lemma op_addrs [simp]:
  "c_addr (fst (channel_retransmit now ch)) = c_addr ch" "c_addr (fst (delivery_timer now e ch)) = c_addr ch"
  "c_addr (send_speed_timer now ch) = c_addr ch" "c_addr (recv_speed_timer now ch) = c_addr ch"
  "c_addr (fst (late_delivery now e ch)) = c_addr ch"
  by (simp_all add: late_delivery_def channel_retransmit_def Let_def split_def delivery_timer_def send_speed_timer_def recv_speed_timer_def
      split: option.split timer.split)

lemma quiet_activity:
  assumes "x \<noteq> r" "c_addr (get_ch t x) \<noteq> y" "x < length (t_heap t)"
  shows "quiet L c r y t (activity_timer L env x t)"
proof -
  obtain res ch out where w: "writeToPing L (te_wenv env) (get_ch t x) = (res, ch, out)"
    by (metis prod.collapse)
  then have "c_addr ch \<noteq> y" using writeToPing_eq [of L "te_wenv env" "get_ch t x"] assms(2) by simp
  then have "quiet L c r y t (put_ch x ch' (emit x out (put_ch x ch t)))" for ch'
    using assms by (intro quiet_trans [OF quiet_op quiet_put]) simp_all
  then show ?thesis
    using quiet_destroy [OF assms(1,2)] assms(1) w
    by (auto simp: activity_timer_def Let_def intro: quiet_put split: activity.split)
qed

lemma quiet_retransmit:
  assumes "x \<noteq> r" "c_addr (get_ch t x) \<noteq> y" "x < length (t_heap t)"
  shows "quiet L c r y t (retransmit_timer env x t)"
proof -
  obtain ch out dead where c: "channel_retransmit (te_now env) (get_ch t x) = (ch, out, dead)"
    by (metis prod.collapse)
  then have a: "c_addr ch \<noteq> y" using op_addrs(1) [of "te_now env" "get_ch t x"] assms(2) by simp
  have "quiet L c r y t (emit x out (put_ch x ch t))"
    by (rule quiet_op [OF assms(1) a assms(3)])
  moreover from this have "quiet L c r y t (destroy env m x (emit x out (put_ch x ch t)))" for m
    using assms(1,3) a by (elim quiet_trans) (simp add: quiet_destroy)
  ultimately show ?thesis
    by (simp add: retransmit_timer_def c Let_def)
qed

lemma quiet_delivery:
  assumes "x \<noteq> r" "c_addr (get_ch t x) \<noteq> y" "x < length (t_heap t)"
  shows "quiet L c r y t (delivery_step env x e t)"
  using assms by (simp add: delivery_step_def split_def Let_def quiet_op)

lemma quiet_late_delivery:
  assumes "x \<noteq> r" "c_addr (get_ch t x) \<noteq> y" "x < length (t_heap t)"
  shows "quiet L c r y t (late_delivery_step env x i t)"
  using assms by (simp add: late_delivery_step_def split_def Let_def quiet_op)

lemma quiet_write:
  assumes "x \<noteq> r" "c_addr (get_ch t x) \<noteq> y" "x < length (t_heap t)"
  shows "quiet L c r y t (snd (tru_channel_WriteTo L envs x data ds t))"
  using assms by (simp add: tru_channel_WriteTo_def split_def Let_def quiet_op)

lemma quiet_close:
  assumes "x \<noteq> r" "c_addr (get_ch t x) \<noteq> y" "x < length (t_heap t)"
  shows "quiet L c r y t (channel_Close L env x t)"
proof -
  obtain res ch out where w: "writeToDisconnect L (te_wenv env) (get_ch t x) = (res, ch, out)"
    by (metis prod.collapse)
  then have a: "c_addr ch \<noteq> y" using writeToDisconnect_eq [of L "te_wenv env" "get_ch t x"] assms(2) by simp
  have "quiet L c r y t (emit x out (put_ch x ch t))"
    by (rule quiet_op [OF assms(1) a assms(3)])
  then have "quiet L c r y t (destroy env m x (emit x out (put_ch x ch t)))" for m
    using assms(1,3) a by (elim quiet_trans) (simp add: quiet_destroy)
  then show ?thesis
    by (simp add: channel_Close_def w)
qed

lemma quiet_connects: "quiet L c r y t (connect_add u t)" "quiet L c r y t (connect_close u t)" "quiet L c r y t (connect_delete u t)"
  by (auto simp: connect_add_def connect_close_def connect_delete_def intro!: quiet_frame quiet_connect_put split: option.split)

lemma quiet_Connect_start: "quiet L c r y t (snd (Connect_start L env u addr t))"
proof -
  obtain res t1 where 1: "newCrypt env t = (res, t1)" by fastforce
  have t1: "quiet L c r y t t1"
    by (rule quiet_frame) (subst newCrypt_frame [OF 1], simp)+
  have add: "quiet L c r y t (connect_add u t1)" by (rule quiet_trans [OF t1 quiet_connects(1)])
  have "harmless L c (set_data d (set_status statusConnect p))" for d p
    by (simp add: harmless_def packet_setters)
  then have "quiet L c r y t (tell [EvUdp a (marshalBinary (set_data d (set_status statusConnect p)))] (connect_add u t1))" for a d p
    by (intro quiet_trans [OF add quiet_tell]) (auto intro: harmless_marshal)
  then show ?thesis
    using 1 t1 quiet_trans [OF add quiet_trans [OF quiet_connects(2,3)]]
    by (auto simp: Connect_start_def Let_def split: sum.split option.split)
qed

lemma quiet_setters:
  "quiet L c r y t (SetMaxDataLen m t)" "quiet L c r y t (SetSendDelay d t)" "quiet L c r y t (SetPunchCb f t)"
  "quiet L c r y t (StatisticPrint now t)" "quiet L c r y t (StatisticPrintStop t)" "quiet L c r y t (snd (StatisticMinilog t))"
  by (auto simp: SetMaxDataLen_def SetSendDelay_def SetPunchCb_def StatisticPrint_def StatisticPrintStop_def
      StatisticMinilog_def Let_def split_def intro: quiet_frame)

lemma quiet_close_parts: "quiet L c r y t (close_begin t)" "quiet L c r y t (close_end t)"
  by (auto simp: close_begin_def close_end_def stopListen_def StatisticPrintStop_def tell_def quiet_def getChannel_def pending_def
      split: option.split)

text \<open>A datagram of the application's own, which is not one of the session's.\<close>

definition no_session :: "bytes \<Rightarrow> bool" where
  "no_session bs \<longleftrightarrow> (\<forall>now q. unmarshalBinary bs (newPacket now) = Inr q \<longrightarrow>
     p_status q \<notin> {statusData, statusDataNext, statusAck, statusConnectClientAnswer})"

lemma quiet_raw: "no_session data \<Longrightarrow> quiet L c r y t (snd (tru_WriteTo resolve data addri t))"
  by (auto simp: tru_WriteTo_def no_session_def harmless_bytes_def harmless_def intro!: quiet_tell split: addr_arg.split option.split)


subsection \<open>Every step of a host is steps of the link\<close>

text \<open>
  What the network and the application may do: a datagram of the peer is one that the peer has sent
  to this host, whole; a write has its nonces, and arguments of the types it knows; the application's
  own datagrams are none of the session's.
\<close>

fun allowed :: "string \<Rightarrow> string \<Rightarrow> tru \<Rightarrow> act \<Rightarrow> bool" where
  "allowed x y other (Received (ReadData a bs)) \<longleftrightarrow>
     (a = y \<longrightarrow> EvUdp x bs \<in> set (t_events other) \<and> length bs \<le> 64 * 1024)"
| "allowed x y other (Wrote r m ok) \<longleftrightarrow> ok"
| "allowed x y other (SentRaw bs) \<longleftrightarrow> no_session bs"
| "allowed x y other _ \<longleftrightarrow> True"

lemma listen_own:
  assumes "listen_turn L env (ReadData a bs) t = Some t'" "length bs \<le> 64 * 1024"
  shows "t' = t \<or> t' = serve L env a bs t"
  using assms by (auto simp: listen_turn_def Let_def split: if_splits)

lemma arrives:
  assumes "represents L c s x other b" "EvUdp x bs \<in> set (t_events (h_tru other))"
    and "unmarshalBinary bs (newPacket now) = Inr pac"
  shows "(\<exists>p\<in>set (e_net b). session_status p \<and> pac = arrival now p) \<or> harmless L c pac"
proof -
  consider p where "p \<in> set (e_net b)" "bs = marshalBinary p" | "harmless_bytes L c bs"
    using assms(1,2) unfolding represents_def by blast
  then show ?thesis
  proof cases
    case 1
    then have "session_status p" "pac = arrival now p"
      using assms(1,3) by (auto simp: represents_def arrival_def)
    with 1(1) show ?thesis by blast
  next
    case 2
    then show ?thesis using assms(3) by (auto simp: harmless_bytes_def)
  qed
qed


text \<open>The datagram of the peer, as a step of the link.\<close>

lemma serve_chan_op:
  assumes arr: "(\<exists>p\<in>set (e_net b). session_status p \<and> pac = arrival (te_now env) p) \<or> harmless L c pac"
    and run: "serve_channel L (te_wenv env) pac ch = (ch', out)"
  shows "chan_op L (e_net b) ch ch' out []"
  using arr
proof
  assume "\<exists>p\<in>set (e_net b). session_status p \<and> pac = arrival (te_now env) p"
  then obtain p where "p \<in> set (e_net b)" "pac = arrival (te_now env) p" by blast
  then show ?thesis using run by (auto intro: op_serve)
next
  assume "harmless L c pac"
  then show ?thesis using run by (intro op_control [of pac]) (simp_all add: harmless_def)
qed

text \<open>The step \<open>l\<close> of the host, to the connector \<open>t\<close>, is some steps of the end \<open>a\<close> of the link.\<close>

definition follows :: "crypto \<Rightarrow> nat \<Rightarrow> string \<Rightarrow> host \<Rightarrow> endpoint \<Rightarrow> endpoint \<Rightarrow> act \<Rightarrow> tru \<Rightarrow> bool" where
  "follows L r y h a b l t \<longleftrightarrow>
     (\<exists>a'. link_steps L (a, b) (a', b) \<and> represents L (c_crypt (e_ch b)) r y (host_step h l t) a')"

lemma follows_quiet:
  assumes "represents L (c_crypt (e_ch b)) r y h a" "quiet L (c_crypt (e_ch b)) r y (h_tru h) t"
    and "act_writes r l = []" "act_takes r l = []"
  shows "follows L r y h a b l t"
  unfolding follows_def using assms by (intro exI [of _ a] conjI represents_quiet [OF assms(1)]) simp_all

lemma follows_op:
  assumes rep: "represents L (c_crypt (e_ch b)) r y h a" and live: "\<not> st_destroyed (c_stat (e_ch a))"
    and op: "chan_op L (e_net b) (e_ch a) ch out ms" and out: "session_out out" "c_addr ch = y"
    and t: "t = emit r out (put_ch r ch (h_tru h))" and acts: "act_writes r l = ms" "act_takes r l = []"
  shows "follows L r y h a b l t"
  unfolding follows_def
proof (intro exI conjI)
  show "link_steps L (a, b) (advance a ch out ms, b)"
    using step_left [OF live op] by (rule r_into_rtranclp)
  show "represents L (c_crypt (e_ch b)) r y (host_step h l t) (advance a ch out ms)"
    using out t acts by (intro represents_op [OF rep]) simp_all
qed

lemma follows_put:
  assumes "represents L (c_crypt (e_ch b)) r y h a" "\<not> st_destroyed (c_stat (e_ch a))"
    and "chan_op L (e_net b) (e_ch a) ch [] []" "c_addr ch = y"
    and "t = put_ch r ch (h_tru h)" "act_writes r l = []" "act_takes r l = []"
  shows "follows L r y h a b l t"
  using assms by (intro follows_op [OF assms(1-3)]) simp_all

subsection \<open>The listener\<close>

lemma follows_serve:
  assumes laws: "hash_laws L" and rep: "represents L (c_crypt (e_ch b)) r y h a"
    and other: "represents L (c_crypt (e_ch a)) s x oh b" and ok: "tru_ok (h_tru h)"
    and sent: "EvUdp x bs \<in> set (t_events (h_tru oh))" and intact: "intact r y (serve L env y bs (h_tru h))"
    and live: "\<not> st_destroyed (c_stat (e_ch a))" and acts: "act_writes r l = []" "act_takes r l = []"
  shows "follows L r y h a b l (serve L env y bs (h_tru h))"
proof -
  let ?t = "h_tru h" and ?c = "c_crypt (e_ch b)"
  have r: "r < length (t_heap ?t)" "get_ch ?t r = e_ch a" "c_addr (e_ch a) = y" "getChannel y ?t = Some r"
    using rep by (simp_all add: represents_def)
  note arr = arrives [OF other sent]
  have key: "harmless L (c_crypt (get_ch ?t r)) pac"
    if "unmarshalBinary bs (newPacket (te_now env)) = Inr pac" "p_status pac = statusConnectClientAnswer" for pac
    using arr [OF that(1)] that(2) r(2) by (auto simp: session_status_def is_data_def)
  from serve_own [OF laws ok r(4) intact key, where c = ?c]
  consider "quiet L ?c r y ?t (serve L env y bs ?t)"
    | pac ch out where "unmarshalBinary bs (newPacket (te_now env)) = Inr pac"
        "serve_channel L (te_wenv env) pac (e_ch a) = (ch, out)" "serve L env y bs ?t = emit r out (put_ch r ch ?t)"
    unfolding r(2) by blast
  then show ?thesis
  proof cases
    case 1
    then show ?thesis using acts by (intro follows_quiet [OF rep])
  next
    case 2
    have "c_addr ch = y"
      using serve_channel_ok [OF tru_okD(1) [OF ok r(1)] laws, of "te_wenv env" pac] 2(2) r(2,3) by (simp add: keeps_def)
    then show ?thesis
      using session_out_serve [of L "te_wenv env" pac "e_ch a"] 2(2,3) acts
      by (intro follows_op [OF rep live serve_chan_op [OF arr [OF 2(1)] 2(2)]]) simp_all
  qed
qed

lemma follows_listen:
  assumes laws: "hash_laws L" and rep: "represents L (c_crypt (e_ch b)) r y h a"
    and other: "represents L (c_crypt (e_ch a)) s x oh b" and ok: "tru_ok (h_tru h)"
    and turn: "listen_turn L env res (h_tru h) = Some t" and allow: "allowed x y (h_tru oh) (Received res)"
    and intact: "intact r y t" and live: "\<not> st_destroyed (c_stat (e_ch a))"
  shows "follows L r y h a b (Received res) t"
proof -
  have r: "r < length (t_heap (h_tru h))" "c_addr (get_ch (h_tru h) r) = y"
    using rep by (simp_all add: represents_def)
  have idle: ?thesis if "t = h_tru h" using that by (intro follows_quiet [OF rep]) simp_all
  show ?thesis
  proof (cases res)
    case ReadError
    then show ?thesis using turn by (intro idle) (auto simp: listen_turn_def split: if_splits)
  next
    case (ReadData z bs)
    show ?thesis
    proof (cases "z = y")
      case False
      have "t = h_tru h \<or> t = serve L env z (take (64 * 1024) bs) (h_tru h)"
        using turn ReadData by (auto simp: listen_turn_def Let_def split: if_splits)
      then show ?thesis
        using idle quiet_serve_other [OF laws ok False r]
        by (auto simp: ReadData intro: follows_quiet [OF rep])
    next
      case True
      have sent: "EvUdp x bs \<in> set (t_events (h_tru oh))" "length bs \<le> 64 * 1024"
        using allow ReadData True by simp_all
      from listen_own [OF _ sent(2)] turn ReadData True consider "t = h_tru h" | "t = serve L env y bs (h_tru h)"
        by blast
      then show ?thesis
      proof cases
        case 2
        then show ?thesis
          using follows_serve [OF laws rep other ok sent(1) _ live, of env "Received res"] intact by simp
      qed (rule idle)
    qed
  qed
qed

subsection \<open>The timers and the calls of the application\<close>

lemma follows_activity:
  assumes rep: "represents L (c_crypt (e_ch b)) r y h a" and live: "\<not> st_destroyed (c_stat (e_ch a))"
    and intact: "intact r y (activity_timer L env r (h_tru h))"
  shows "follows L r y h a b Internal (activity_timer L env r (h_tru h))"
proof -
  have r: "r < length (t_heap (h_tru h))" "get_ch (h_tru h) r = e_ch a" "c_addr (e_ch a) = y"
    using rep by (simp_all add: represents_def)
  let ?arm = "\<lambda>ch. ch\<lparr>c_stat := stat_armActivity (te_now env) (c_stat ch)\<rparr>"
  let ?ping = "OSend (control_packet (te_wenv env) 0 statusPing)"
  obtain res ch out where w: "writeToPing L (te_wenv env) (e_ch a) = (res, ch, out)"
    by (metis prod.collapse)
  then have ping: "ch = e_ch a" "out = [?ping]"
    using writeToPing_eq [of L "te_wenv env" "e_ch a"] live by simp_all
  show ?thesis
  proof (cases "stat_activity (te_now env) (c_stat (e_ch a)) = Keepalive \<and> \<not> c_serverMode (e_ch a)")
    case True
    let ?h = "h\<lparr>h_tru := emit r [?ping] (put_ch r (e_ch a) (h_tru h))\<rparr>"
    have "represents L (c_crypt (e_ch b)) r y ?h (advance a (e_ch a) [?ping] [])"
      by (rule represents_op [OF rep]) (simp_all add: r(3) written_def taken_def)
    then have "represents L (c_crypt (e_ch b)) r y (host_step h Internal (put_ch r (?arm (e_ch a)) (h_tru ?h)))
        (advance (advance a (e_ch a) [?ping] []) (?arm (e_ch a)) [] [])"
      by (rule represents_put) (simp_all add: r(3), simp_all add: written_def taken_def)
    moreover have "link_step L (a, b) (advance a (e_ch a) [?ping] [], b)"
      using op_ping [OF w] ping by (intro step_left [OF live]) simp
    moreover have "link_step L (advance a (e_ch a) [?ping] [], b) (advance (advance a (e_ch a) [?ping] []) (?arm (e_ch a)) [] [], b)"
      using live op_activity [of L "e_net b" "e_ch a" "te_now env"] by (intro step_left) simp_all
    moreover have "activity_timer L env r (h_tru h) = put_ch r (?arm (e_ch a)) (h_tru ?h)"
      using True w ping r by (simp add: activity_timer_def Let_def)
    ultimately show ?thesis
      unfolding follows_def by (metis converse_rtranclp_into_rtranclp r_into_rtranclp)
  next
    case False
    have "stat_activity (te_now env) (c_stat (e_ch a)) \<noteq> Inactive"
      using intact destroy_not_intact [OF r(1)] by (auto simp: activity_timer_def Let_def r(2))
    then have "activity_timer L env r (h_tru h) = put_ch r (?arm (e_ch a)) (h_tru h)"
      using False r by (auto simp: activity_timer_def Let_def split: activity.split)
    then show ?thesis
      by (intro follows_put [OF rep live op_activity]) (simp_all add: r(3))
  qed
qed

lemma follows_retransmit:
  assumes rep: "represents L (c_crypt (e_ch b)) r y h a" and live: "\<not> st_destroyed (c_stat (e_ch a))"
    and flow: "flows L a b" and intact: "intact r y (retransmit_timer env r (h_tru h))"
  shows "follows L r y h a b Internal (retransmit_timer env r (h_tru h))"
proof -
  have r: "r < length (t_heap (h_tru h))" "get_ch (h_tru h) r = e_ch a" "c_addr (e_ch a) = y"
    using rep by (simp_all add: represents_def)
  obtain ch out dead where c: "channel_retransmit (te_now env) (e_ch a) = (ch, out, dead)"
    by (metis prod.collapse)
  have t: "retransmit_timer env r (h_tru h) = (let u = emit r out (put_ch r ch (h_tru h)) in
      if dead then destroy env (''channel max retransmit, destroy '' @ c_addr ch) r u else u)"
    by (simp add: retransmit_timer_def r(2) c Let_def)
  then have "\<not> dead"
    using intact destroy_not_intact [of r "emit r out (put_ch r ch (h_tru h))"] r(1) by (auto simp: Let_def)
  then show ?thesis
    using op_addrs(1) [of "te_now env" "e_ch a"] op_retransmit [OF c, of L "e_net b"] c r(3)
    by (intro follows_op [OF rep live _ session_out_retransmit [OF flow c]]) (simp_all add: t Let_def)
qed

lemma follows_delivery:
  assumes rep: "represents L (c_crypt (e_ch b)) r y h a" and live: "\<not> st_destroyed (c_stat (e_ch a))"
  shows "follows L r y h a b Internal (delivery_step env r e (h_tru h))"
proof -
  have r: "get_ch (h_tru h) r = e_ch a" "c_addr (e_ch a) = y" using rep by (simp_all add: represents_def)
  obtain ch out where d: "delivery_timer (te_now env) e (e_ch a) = (ch, out)" by fastforce
  show ?thesis
    using session_out_delivery [of "te_now env" e "e_ch a"] op_addrs(2) [of "te_now env" e "e_ch a"] d r
    by (intro follows_op [OF rep live op_delivery [OF d]]) (simp_all add: delivery_step_def)
qed

lemma follows_late_delivery:
  assumes rep: "represents L (c_crypt (e_ch b)) r y h a" and live: "\<not> st_destroyed (c_stat (e_ch a))"
  shows "follows L r y h a b Internal (late_delivery_step env r i (h_tru h))"
proof -
  have r: "get_ch (h_tru h) r = e_ch a" "c_addr (e_ch a) = y" using rep by (simp_all add: represents_def)
  obtain ch out where d: "late_delivery (te_now env) i (e_ch a) = (ch, out)" by fastforce
  show ?thesis
    using session_out_late [of "te_now env" i "e_ch a"] op_addrs(5) [of "te_now env" i "e_ch a"] d r
    by (intro follows_op [OF rep live op_late_delivery [OF d]]) (simp_all add: late_delivery_step_def)
qed

lemma follows_write:
  assumes rep: "represents L (c_crypt (e_ch b)) r y h a" and live: "\<not> st_destroyed (c_stat (e_ch a))"
    and ok: "\<And>k. env_ok (envs k)" "delivery_ok ds"
  shows "follows L r y h a b (Wrote r m ok) (snd (tru_channel_WriteTo L envs r m ds (h_tru h)))"
proof -
  have r: "get_ch (h_tru h) r = e_ch a" "c_addr (e_ch a) = y" using rep by (simp_all add: represents_def)
  obtain res ch out where w: "channel_WriteTo L envs (e_ch a) m ds = (res, ch, out)"
    by (metis prod.collapse)
  show ?thesis
    using session_out_WriteTo [of L envs "e_ch a" m ds] channel_WriteTo_addr [of L envs "e_ch a" m ds] w r
    by (intro follows_op [OF rep live op_write [OF ok w]]) (simp_all add: tru_channel_WriteTo_def)
qed

lemma follows_connected:
  assumes rep: "represents L (c_crypt (e_ch b)) r y h a" and live: "\<not> st_destroyed (c_stat (e_ch a))"
  shows "follows L r y h a b Internal (snd (Connect_finish reader res (h_tru h)))"
proof -
  have r: "get_ch (h_tru h) r = e_ch a" "c_addr (e_ch a) = y" using rep by (simp_all add: represents_def)
  have own: "follows L r y h a b Internal (put_ch r ((e_ch a)\<lparr>c_reader := f\<rparr>) (h_tru h))" for f
    using r by (intro follows_put [OF rep live op_reader]) simp_all
  have quiet: "follows L r y h a b Internal t" if "quiet L (c_crypt (e_ch b)) r y (h_tru h) t" for t
    using that by (intro follows_quiet [OF rep]) simp_all
  have other: "follows L r y h a b Internal (put_ch z ch (h_tru h))" if "z \<noteq> r" for z ch
    using that by (intro quiet quiet_put) simp
  have "follows L r y h a b Internal (put_ch z ((get_ch (h_tru h) z)\<lparr>c_reader := f\<rparr>) (h_tru h))" for z f
    using own other r by (cases "z = r") simp_all
  then show ?thesis
    using quiet [OF quiet_refl] quiet [OF quiet_tell, of "[EvPanic]"]
    by (auto simp: Connect_finish_def split: connect_result.split option.split)
qed

lemma host_step_link:
  assumes laws: "crypto_laws L" and rep: "represents L (c_crypt (e_ch b)) r y h a"
    and other: "represents L (c_crypt (e_ch a)) s x oh b" and flow: "flows L a b"
    and ok: "tru_ok (h_tru h)" and act: "tru_act L l (h_tru h) t" and allow: "allowed x y (h_tru oh) l"
    and intact': "intact r y t"
  shows "follows L r y h a b l t"
proof -
  let ?t = "h_tru h"
  have hash: "hash_laws L" using laws by (simp add: crypto_laws_def)
  have r: "r < length (t_heap ?t)" "get_ch ?t r = e_ch a" "c_addr (e_ch a) = y" "getChannel y ?t = Some r"
    using rep by (simp_all add: represents_def)
  have intact: "intact r y ?t" by (rule intact_back [OF tru_act_evolves [OF hash ok act] intact' r(1)])
  have live: "\<not> st_destroyed (c_stat (e_ch a))" using intact r(2) by (simp add: intact_def)
  note away = intact_other [OF intact]
  note quiet = follows_quiet [OF rep]
  have put: "follows L r y h a b Internal (put_ch z ch ?t)" if "z \<noteq> r" for z ch
    using that by (intro quiet quiet_put) simp_all
  show ?thesis
    using act
  proof cases
    case (step_listen env res)
    then show ?thesis
      using follows_listen [OF hash rep other ok step_listen(2) _ intact' live] allow by simp
  next
    case (step_reader processed)
    then show ?thesis
      unfolding follows_def by (intro exI [of _ a] conjI represents_reader [OF rep]) simp_all
  next
    case step_sender
    then show ?thesis
      unfolding follows_def by (intro exI [of _ a] conjI represents_sender [OF rep intact ok]) simp_all
  next
    case (step_activity z u env)
    then show ?thesis
      using follows_activity [OF rep live] intact' quiet_activity away by (cases "z = r") (auto intro: quiet)
  next
    case (step_retransmit z u env)
    then show ?thesis
      using follows_retransmit [OF rep live flow] intact' quiet_retransmit away by (cases "z = r") (auto intro: quiet)
  next
    case (step_delivery z env e)
    then show ?thesis
      using follows_delivery [OF rep live] quiet_delivery away by (cases "z = r") (auto intro: quiet)
  next
    case (step_late_delivery z env i)
    then show ?thesis
      using follows_late_delivery [OF rep live] quiet_late_delivery away by (cases "z = r") (auto intro: quiet)
  next
    case (step_rearm z now k)
    then have "z \<noteq> r" using r(2) live by auto
    then show ?thesis using step_rearm put by simp
  next
    case (step_send_speed z u now)
    then show ?thesis
      using follows_put [OF rep live op_send_speed] r put by (cases "z = r") simp_all
  next
    case (step_recv_speed z u now)
    then show ?thesis
      using follows_put [OF rep live op_recv_speed] r put by (cases "z = r") simp_all
  next
    case (step_set_reader z f)
    then show ?thesis
      using follows_put [OF rep live op_reader] r put by (cases "z = r") (simp_all add: setReader_def)
  next
    case (step_write z m envs ds)
    then show ?thesis
      using follows_write [OF rep live] quiet_write away allow by (cases "z = r") (auto intro: quiet)
  next
    case (step_close z env)
    then show ?thesis
      using channel_Close_channels(2) [OF ok r(4), of L env] intact' quiet_close away
      by (cases "z = r") (auto simp: intact_def intro: quiet)
  next
    case (step_connected timedout uuid res reader)
    then show ?thesis using follows_connected [OF rep live] by simp
  next
    case (step_raw data resolve addri)
    then show ?thesis using allow by (intro quiet) (simp_all add: quiet_raw)
  next
    case (step_close_key env z)
    show ?thesis
    proof (cases "getChannel z ?t")
      case None
      then show ?thesis using step_close_key by (auto simp: each_channel_def intro!: quiet quiet_tell)
    next
      case (Some v)
      then have t: "t = channel_Close L env v ?t" using step_close_key by (simp add: each_channel_def)
      have "v < length (t_heap ?t)" using getChannel_ok [OF ok Some] by blast
      moreover have "v \<noteq> r"
        using channel_Close_channels(2) [OF ok r(4), of L env] intact' t by (auto simp: intact_def)
      ultimately show ?thesis using quiet_close away t step_close_key(1) by (auto intro: quiet)
    qed
  qed (auto intro!: quiet quiet_connects quiet_setters quiet_close_parts quiet_Connect_start)
qed


subsection \<open>The two hosts\<close>

text \<open>A step of the left host, at the address \<open>x\<close>, or of the right one, at \<open>y\<close>.\<close>

inductive net_step :: "crypto \<Rightarrow> string \<Rightarrow> string \<Rightarrow> host \<times> host \<Rightarrow> host \<times> host \<Rightarrow> bool" for L x y where
  net_left: "tru_act L l (h_tru A) t \<Longrightarrow> allowed x y (h_tru B) l \<Longrightarrow> net_step L x y (A, B) (host_step A l t, B)"
| net_right: "tru_act L l (h_tru B) t \<Longrightarrow> allowed y x (h_tru A) l \<Longrightarrow> net_step L x y (A, B) (A, host_step B l t)"

inductive_cases net_stepE: "net_step L x y AB AB'"

abbreviation net_steps :: "crypto \<Rightarrow> string \<Rightarrow> string \<Rightarrow> host \<times> host \<Rightarrow> host \<times> host \<Rightarrow> bool" where
  "net_steps L x y \<equiv> (net_step L x y)\<^sup>*\<^sup>*"

text \<open>The channel \<open>r\<close> of the left host and \<open>s\<close> of the right one as the two ends of a link.\<close>

definition session :: "crypto \<Rightarrow> string \<Rightarrow> string \<Rightarrow> nat \<Rightarrow> nat \<Rightarrow> host \<times> host \<Rightarrow> endpoint \<times> endpoint \<Rightarrow> bool" where
  "session L x y r s AB ab \<longleftrightarrow>
     represents L (c_crypt (e_ch (snd ab))) r y (fst AB) (fst ab) \<and>
     represents L (c_crypt (e_ch (fst ab))) s x (snd AB) (snd ab) \<and>
     tru_ok (h_tru (fst AB)) \<and> tru_ok (h_tru (snd AB))"

definition intact_session :: "string \<Rightarrow> string \<Rightarrow> nat \<Rightarrow> nat \<Rightarrow> host \<times> host \<Rightarrow> bool" where
  "intact_session x y r s AB \<longleftrightarrow> intact r y (h_tru (fst AB)) \<and> intact s x (h_tru (snd AB))"

lemma link_step_swap: "link_step L (a, b) (a', b') \<Longrightarrow> link_step L (b, a) (b', a')"
  by (erule link_stepE) (auto intro: link_step.intros)

lemma link_steps_swap: "link_steps L (a, b) (a', b') \<Longrightarrow> link_steps L (b, a) (b', a')"
proof (induction rule: rtranclp_induct2)
  case (step a' b' a'' b'')
  then show ?case using link_step_swap by (meson rtranclp.rtrancl_into_rtrancl)
qed simp

lemma session_step:
  assumes laws: "crypto_laws L" and ses: "session L x y r s AB (a, b)" and flow: "both_flow L (a, b)"
    and step: "net_step L x y AB AB'" and intact: "intact_session x y r s AB'"
  shows "\<exists>ab. link_steps L (a, b) ab \<and> session L x y r s AB' ab"
  using step
proof cases
  case (net_left l A t B)
  have "follows L r y A a b l t"
    using ses flow intact net_left
    by (intro host_step_link [OF laws, where s = s and x = x and oh = B]) (simp_all add: session_def both_flow_def intact_session_def)
  then obtain a' where a': "link_steps L (a, b) (a', b)" "represents L (c_crypt (e_ch b)) r y (host_step A l t) a'"
    by (auto simp: follows_def)
  have "tru_ok t"
    using tru_act_evolves [OF _ _ net_left(3)] laws ses net_left(1) evolvesD(1) by (auto simp: session_def crypto_laws_def)
  then show ?thesis
    using a' ses net_left(1,2) link_steps_crypt [OF a'(1)] by (intro exI [of _ "(a', b)"]) (simp add: session_def)
next
  case (net_right l B t A)
  have "follows L s x B b a l t"
    using ses flow intact net_right
    by (intro host_step_link [OF laws, where s = r and x = y and oh = A]) (simp_all add: session_def both_flow_def intact_session_def)
  then obtain b' where b': "link_steps L (b, a) (b', a)" "represents L (c_crypt (e_ch a)) s x (host_step B l t) b'"
    by (auto simp: follows_def)
  have "tru_ok t"
    using tru_act_evolves [OF _ _ net_right(3)] laws ses net_right(1) evolvesD(1) by (auto simp: session_def crypto_laws_def)
  then show ?thesis
    using b' ses net_right(1,2) link_steps_crypt [OF b'(1)] link_steps_swap [OF b'(1)]
    by (intro exI [of _ "(a, b')"]) (simp add: session_def)
qed

text \<open>Steps back from an intact session, and from few packets.\<close>

definition few :: "channel \<Rightarrow> channel \<Rightarrow> nat \<Rightarrow> nat \<Rightarrow> host \<times> host \<Rightarrow> bool" where
  "few ca cb r s AB \<longleftrightarrow> length (stream_fragments ca (written r (fst AB))) \<le> 2 ^ 19 \<and>
     length (stream_fragments cb (written s (snd AB))) \<le> 2 ^ 19"

lemma few_back: "net_step L x y AB AB' \<Longrightarrow> few ca cb r s AB' \<Longrightarrow> few ca cb r s AB"
  by (erule net_stepE) (auto simp: few_def stream_fragments_def)

lemma link_steps_maxlen:
  "link_steps L ab ab' \<Longrightarrow> c_maxDataLen (e_ch (fst ab')) = c_maxDataLen (e_ch (fst ab)) \<and>
     c_maxDataLen (e_ch (snd ab')) = c_maxDataLen (e_ch (snd ab))"
proof (induction rule: rtranclp_induct)
  case (step y z)
  then show ?case by (auto elim!: link_stepE dest: chan_op_keeps)
qed simp

lemma session_short:
  assumes "link_steps L (a, b) ab" "session L x y r s AB ab" "few (e_ch a) (e_ch b) r s AB"
  shows "short_link ab"
  using assms link_steps_maxlen [OF assms(1)]
  by (simp add: session_def represents_def short_link_def few_def sent_stream_def stream_fragments_def
      message_fragments_def [abs_def])

lemma net_evolves:
  "net_steps L x y AB AB' \<Longrightarrow> hash_laws L \<Longrightarrow> tru_ok (h_tru (fst AB)) \<Longrightarrow> tru_ok (h_tru (snd AB)) \<Longrightarrow>
   evolves (h_tru (fst AB)) (h_tru (fst AB')) \<and> evolves (h_tru (snd AB)) (h_tru (snd AB'))"
proof (induction rule: rtranclp_induct)
  case base
  then show ?case by (simp add: evolves_refl)
next
  case (step u v)
  then have u: "evolves (h_tru (fst AB)) (h_tru (fst u))" "evolves (h_tru (snd AB)) (h_tru (snd u))" by simp_all
  show ?case
    using step(2)
  proof cases
    case (net_left l A t B)
    then show ?thesis
      using u evolves_trans [OF u(1)] tru_act_evolves [OF step.prems(1) evolvesD(1) [OF u(1)]] by auto
  next
    case (net_right l B t A)
    then show ?thesis
      using u evolves_trans [OF u(2)] tru_act_evolves [OF step.prems(1) evolvesD(1) [OF u(2)]] by auto
  qed
qed

text \<open>A run of the hosts that leaves the session intact is a run of the link.\<close>

lemma session_run:
  assumes laws: "crypto_laws L" and start: "session L x y r s AB (a, b)" "both_flow L (a, b)"
    and run: "net_steps L x y AB AB'"
    and intact: "intact_session x y r s AB'" and few: "few (e_ch a) (e_ch b) r s AB'"
  shows "\<exists>ab. link_steps L (a, b) ab \<and> session L x y r s AB' ab"
  using run intact few
proof (induction rule: rtranclp_induct)
  case base
  then show ?case using start(1) by blast
next
  case (step u v)
  have hash: "hash_laws L" using laws by (simp add: crypto_laws_def)
  have ok: "tru_ok (h_tru (fst AB))" "tru_ok (h_tru (snd AB))" using start(1) by (simp_all add: session_def)
  note e = net_evolves [OF step(1) hash ok]
  have before: "intact_session x y r s u"
  proof -
    have len: "r < length (t_heap (h_tru (fst u)))" "s < length (t_heap (h_tru (snd u)))"
      using e start(1) evolvesD(3) by (auto simp: session_def represents_def)
    have oku: "tru_ok (h_tru (fst u))" "tru_ok (h_tru (snd u))" using e evolvesD(1) by auto
    from step(2) show ?thesis
    proof cases
      case (net_left l A t B)
      then show ?thesis
        using step.prems(1) len oku intact_back [OF tru_act_evolves [OF hash _ net_left(3)]]
        by (auto simp: intact_session_def)
    next
      case (net_right l B t A)
      then show ?thesis
        using step.prems(1) len oku intact_back [OF tru_act_evolves [OF hash _ net_right(3)]]
        by (auto simp: intact_session_def)
    qed
  qed
  have fewu: "few (e_ch a) (e_ch b) r s u" by (rule few_back [OF step(2) step.prems(2)])
  obtain a' b' where ab: "link_steps L (a, b) (a', b')" "session L x y r s u (a', b')"
    using step.IH [OF before fewu] by auto
  have "both_flow L (a', b')"
    by (rule link_steps_flow [OF ab(1) laws start(2) session_short [OF ab fewu]])
  from session_step [OF laws ab(2) this step(2) step.prems(1)] show ?case
    using rtranclp_trans [OF ab(1)] by blast
qed


subsection \<open>The start of a session\<close>

definition host0 :: "tru \<Rightarrow> host" where
  "host0 t = \<lparr>h_tru = t, h_acts = []\<rparr>"

lemma host0_sel [simp]: "h_tru (host0 t) = t" "written r (host0 t) = []" "taken r (host0 t) = []"
  by (simp_all add: host0_def written_def taken_def)

text \<open>Nothing of channel \<open>r\<close> is waiting for the reader, and what was sent to \<open>y\<close> is harmless to it.\<close>

definition clean :: "crypto \<Rightarrow> crypt \<Rightarrow> nat \<Rightarrow> string \<Rightarrow> tru \<Rightarrow> bool" where
  "clean L c r y t \<longleftrightarrow> pending r t = [] \<and> (\<forall>p. (r, p) \<in> set (t_senderCh t) \<longrightarrow> harmless L c p) \<and>
     (\<forall>bs. EvUdp y bs \<in> set (t_events t) \<longrightarrow> harmless_bytes L c bs)"

definition session_start :: "crypto \<Rightarrow> string \<Rightarrow> string \<Rightarrow> nat \<Rightarrow> nat \<Rightarrow> tru \<Rightarrow> tru \<Rightarrow> bool" where
  "session_start L x y r s A B \<longleftrightarrow> tru_ok A \<and> tru_ok B \<and> getChannel y A = Some r \<and> getChannel x B = Some s \<and>
     fresh (get_ch A r) \<and> fresh (get_ch B s) \<and> k_session (c_crypt (get_ch B s)) = k_session (c_crypt (get_ch A r)) \<and>
     clean L (c_crypt (get_ch B s)) r y A \<and> clean L (c_crypt (get_ch A r)) s x B"

lemma fresh_end_sel [simp]: "e_ch (fresh_end ch) = ch" "e_net (fresh_end ch) = []" "e_msgs (fresh_end ch) = []" "e_reads (fresh_end ch) = []"
  by (simp_all add: fresh_end_def)

lemma represents_start:
  assumes "tru_ok t" "getChannel y t = Some r" "clean L c r y t"
  shows "represents L c r y (host0 t) (fresh_end (get_ch t r))"
  using assms getChannel_ok [OF assms(1,2)]
  by (simp add: represents_def clean_def host0_def written_def taken_def)

lemma session_start_link:
  assumes "crypto_laws L" "session_start L x y r s A B"
  shows "session L x y r s (host0 A, host0 B) (fresh_end (get_ch A r), fresh_end (get_ch B s))"
    "both_flow L (fresh_end (get_ch A r), fresh_end (get_ch B s))"
proof -
  show "session L x y r s (host0 A, host0 B) (fresh_end (get_ch A r), fresh_end (get_ch B s))"
    using assms(2) represents_start by (simp add: session_def session_start_def host0_def)
  note key = decrypt_session [of "c_crypt (get_ch B s)" "c_crypt (get_ch A r)" L]
  have "flows L (fresh_end (get_ch A r)) (fresh_end (get_ch B s))" "flows L (fresh_end (get_ch B s)) (fresh_end (get_ch A r))"
    using assms(2) key by (auto simp: session_start_def fresh_def intro: flows_fresh)
  then show "both_flow L (fresh_end (get_ch A r), fresh_end (get_ch B s))" by (simp add: both_flow_def)
qed

text \<open>The streams of the session, seen from the hosts.\<close>

definition delivered :: "nat \<Rightarrow> host \<Rightarrow> bytes list" where
  "delivered r h = map p_data (taken r h @ pending r (h_tru h))"

lemma session_ends:
  assumes laws: "crypto_laws L" and start: "session_start L x y r s A B"
    and run: "net_steps L x y (host0 A, host0 B) (A', B')"
    and intact: "intact r y (h_tru A')" "intact s x (h_tru B')"
    and few: "length (stream_fragments (get_ch A r) (written r A')) \<le> 2 ^ 19"
      "length (stream_fragments (get_ch B s) (written s B')) \<le> 2 ^ 19"
  obtains a b where "session L x y r s (A', B') (a, b)" "flows L a b" "flows L b a"
proof -
  note link = session_start_link [OF laws start]
  have few': "few (e_ch (fresh_end (get_ch A r))) (e_ch (fresh_end (get_ch B s))) r s (A', B')"
    using few by (simp add: few_def)
  have "intact_session x y r s (A', B')" using intact by (simp add: intact_session_def)
  from session_run [OF laws link run this few'] obtain a b where
    ab: "link_steps L (fresh_end (get_ch A r), fresh_end (get_ch B s)) (a, b)" "session L x y r s (A', B') (a, b)"
    by auto
  have "both_flow L (a, b)"
    by (rule link_steps_flow [OF ab(1) laws link(2) session_short [OF ab few']])
  then show thesis using that ab(2) by (simp add: both_flow_def)
qed

lemma session_streams:
  assumes laws: "crypto_laws L" and start: "session_start L x y r s A B"
    and run: "net_steps L x y (host0 A, host0 B) (A', B')"
    and intact: "intact r y (h_tru A')" "intact s x (h_tru B')"
    and few: "length (stream_fragments (get_ch A r) (written r A')) \<le> 2 ^ 19"
      "length (stream_fragments (get_ch B s) (written s B')) \<le> 2 ^ 19"
  shows "\<exists>j\<le>length (written r A'). delivered s B' = take j (written r A') \<and>
     (sq_items (c_sendQueue (get_ch (h_tru A') r)) = [] \<longrightarrow> j = length (written r A'))"
    "\<exists>k\<le>length (written s B'). delivered r A' = take k (written s B') \<and>
     (sq_items (c_sendQueue (get_ch (h_tru B') s)) = [] \<longrightarrow> k = length (written s B'))"
proof -
  obtain a b where ab: "session L x y r s (A', B') (a, b)" and flows: "flows L a b" "flows L b a"
    by (rule session_ends [OF assms])
  have ends: "get_ch (h_tru A') r = e_ch a" "get_ch (h_tru B') s = e_ch b" "written r A' = e_msgs a" "written s B' = e_msgs b"
    "delivered s B' = map p_data (e_reads b)" "delivered r A' = map p_data (e_reads a)"
    using ab by (simp_all add: session_def represents_def delivered_def)
  show "\<exists>j\<le>length (written r A'). delivered s B' = take j (written r A') \<and>
     (sq_items (c_sendQueue (get_ch (h_tru A') r)) = [] \<longrightarrow> j = length (written r A'))"
    using flows_prefix [OF flows(1)] unfolding ends by blast
  show "\<exists>k\<le>length (written s B'). delivered r A' = take k (written s B') \<and>
     (sq_items (c_sendQueue (get_ch (h_tru B') s)) = [] \<longrightarrow> k = length (written s B'))"
    using flows_prefix [OF flows(2)] unfolding ends by blast
qed

text \<open>
  The specification of a session between the channels \<open>r\<close> and \<open>s\<close> of two connectors: in every run that
  leaves it intact and carries few packets, each application has been given a prefix of what the
  other one wrote, and all of it when the writer's send queue is empty.
\<close>

definition reliable_streams :: "crypto \<Rightarrow> string \<Rightarrow> string \<Rightarrow> nat \<Rightarrow> nat \<Rightarrow> tru \<Rightarrow> tru \<Rightarrow> bool" where
  "reliable_streams L x y r s A0 B0 \<longleftrightarrow>
     (\<forall>A B. net_steps L x y (host0 A0, host0 B0) (A, B) \<longrightarrow> intact r y (h_tru A) \<longrightarrow> intact s x (h_tru B) \<longrightarrow>
        length (stream_fragments (get_ch A0 r) (written r A)) \<le> 2 ^ 19 \<longrightarrow>
        length (stream_fragments (get_ch B0 s) (written s B)) \<le> 2 ^ 19 \<longrightarrow>
        (\<exists>j\<le>length (written r A). delivered s B = take j (written r A) \<and>
           (sq_items (c_sendQueue (get_ch (h_tru A) r)) = [] \<longrightarrow> j = length (written r A))) \<and>
        (\<exists>k\<le>length (written s B). delivered r A = take k (written s B) \<and>
           (sq_items (c_sendQueue (get_ch (h_tru B) s)) = [] \<longrightarrow> k = length (written s B))))"

lemma reliable_start: "crypto_laws L \<Longrightarrow> session_start L x y r s A B \<Longrightarrow> reliable_streams L x y r s A B"
  unfolding reliable_streams_def using session_streams by blast

text \<open>
  What the reader goroutine of a host has taken for a channel, and so handed to its readers, is such a
  prefix too, and all of it once nothing waits for that goroutine either.
\<close>

definition handed :: "nat \<Rightarrow> host \<Rightarrow> bytes list" where
  "handed r h = map p_data (taken r h)"

definition handed_streams :: "crypto \<Rightarrow> string \<Rightarrow> string \<Rightarrow> nat \<Rightarrow> nat \<Rightarrow> tru \<Rightarrow> tru \<Rightarrow> bool" where
  "handed_streams L x y r s A0 B0 \<longleftrightarrow>
     (\<forall>A B. net_steps L x y (host0 A0, host0 B0) (A, B) \<longrightarrow> intact r y (h_tru A) \<longrightarrow> intact s x (h_tru B) \<longrightarrow>
        length (stream_fragments (get_ch A0 r) (written r A)) \<le> 2 ^ 19 \<longrightarrow>
        length (stream_fragments (get_ch B0 s) (written s B)) \<le> 2 ^ 19 \<longrightarrow>
        (\<exists>j\<le>length (written r A). handed s B = take j (written r A) \<and>
           (sq_items (c_sendQueue (get_ch (h_tru A) r)) = [] \<and> pending s (h_tru B) = [] \<longrightarrow> j = length (written r A))) \<and>
        (\<exists>k\<le>length (written s B). handed r A = take k (written s B) \<and>
           (sq_items (c_sendQueue (get_ch (h_tru B) s)) = [] \<and> pending r (h_tru A) = [] \<longrightarrow> k = length (written s B))))"

lemma handed_prefix:
  assumes "\<exists>j\<le>length ms. delivered s B = take j ms \<and> (idle \<longrightarrow> j = length ms)"
  shows "\<exists>j\<le>length ms. handed s B = take j ms \<and> (idle \<and> pending s (h_tru B) = [] \<longrightarrow> j = length ms)"
proof -
  obtain j where j: "j \<le> length ms" "delivered s B = take j ms" "idle \<longrightarrow> j = length ms"
    using assms by blast
  let ?i = "length (handed s B)"
  have all: "take j ms = handed s B @ map p_data (pending s (h_tru B))"
    using j(2) by (simp add: delivered_def handed_def)
  from arg_cong [OF all, of length] have len: "j = ?i + length (pending s (h_tru B))"
    using j(1) by simp
  have "take ?i (take j ms) = handed s B" by (simp add: all)
  then have "handed s B = take ?i ms" using len by (simp add: min_def)
  then show ?thesis
    using j(1,3) len by (intro exI [of _ ?i]) auto
qed

lemma handed_start: "reliable_streams L x y r s A B \<Longrightarrow> handed_streams L x y r s A B"
  unfolding reliable_streams_def handed_streams_def by (intro allI impI conjI handed_prefix) blast+

subsection \<open>The handshake starts a session\<close>

text \<open>What a handshake message adds to a connector that does not know the peer \<open>a\<close>.\<close>

definition stranger :: "string \<Rightarrow> tru \<Rightarrow> bool" where
  "stranger a t \<longleftrightarrow> tru_ok t \<and> (\<forall>x<length (t_heap t). c_addr (get_ch t x) \<noteq> a) \<and> (\<forall>bs. EvUdp a bs \<notin> set (t_events t))"

definition adds :: "nat \<Rightarrow> tru \<Rightarrow> tru \<Rightarrow> bool" where
  "adds n t t' \<longleftrightarrow> length (t_heap t') \<le> length (t_heap t) + n \<and> t_readerCh t' = t_readerCh t \<and>
     (\<forall>a bs. EvUdp a bs \<in> set (t_events t') \<longrightarrow> EvUdp a bs \<in> set (t_events t))"

lemma adds_steps [simp]:
  "adds n t t" "adds n t (put_ch r ch t1) = adds n t t1" "adds n t (emit r [OSend p] t1) = adds n t t1"
  "adds n t (connect_put u cd t1) = adds n t t1" "adds n t (tell [EvPanic] t1) = adds n t t1"
  by (simp_all add: adds_def emit_eq) (simp_all add: put_ch_def connect_put_def tell_def)

lemma adds_newChannel:
  assumes "newChannel env a sm t = (res, t')"
  shows "adds 1 t t'"
proof -
  obtain x t1 where 1: "newCrypt env (log_msg env (''new channel '' @ a) t) = (x, t1)" by fastforce
  have t1: "t_heap t1 = t_heap t" "t_readerCh t1 = t_readerCh t" "t_events t1 = t_events t"
    by (subst newCrypt_frame [OF 1], simp add: log_msg_def)+
  show ?thesis
    using assms 1 t1 by (auto simp: adds_def newChannel_def Let_def tell_def split: sum.splits option.splits if_splits)
qed

lemma adds_connect_serve:
  "adds (if p_status pac \<in> {statusConnect, statusConnectServerAnswer} then 1 else 0) t (snd (connect_serve L env a pac t))"
proof -
  have "adds 1 t (snd (serve_connect L env a pac t))"
    using adds_newChannel [of env a True t] by (auto simp: serve_connect_def Let_def split: sum.split prod.split)
  moreover have "adds 1 t (snd (serve_server_answer L env a pac t))"
    using adds_newChannel [of env a False t]
    by (auto simp: serve_server_answer_def Let_def split: sum.split prod.split option.split)
  moreover have "adds 0 t (snd (serve_client_answer L env a pac t))" "adds 0 t (snd (serve_done pac t))"
    by (auto simp: serve_client_answer_def serve_done_def Let_def split: sum.split option.split)
  ultimately show ?thesis
    by (simp add: connect_serve_def)
qed

lemma adds_destroy: "adds n t t1 \<Longrightarrow> adds n t (destroy env msg r t1)"
proof -
  have "EvUdp a bs \<notin> set (destroy_events r t1)" for a bs
    by (auto simp: destroy_events_def split: option.split)
  moreover have "t_readerCh (destroy env msg r t1) = t_readerCh t1"
    by (simp add: destroy_def Let_def) (simp add: put_ch_def tell_def log_msg_def)
  ultimately show "adds n t t1 \<Longrightarrow> adds n t (destroy env msg r t1)"
    by (auto simp: adds_def destroy_state)
qed

lemma adds_serve:
  assumes "p_status p \<in> {statusConnect, statusConnectServerAnswer, statusConnectClientAnswer, statusConnectDone}"
  shows "adds (if p_status p \<in> {statusConnect, statusConnectServerAnswer} then 1 else 0) t (serve L env a (marshalBinary p) t)"
proof -
  obtain q where q: "unmarshalBinary (marshalBinary p) (newPacket (te_now env)) = Inr q" "p_status q = p_status p"
    by (simp add: unmarshal_marshal)
  show ?thesis
  proof (cases L env a "marshalBinary p" t rule: serve_cases)
    case (handshake pac t1 t2 err)
    have s: "p_status pac = p_status p" using handshake(1) q by simp
    have "adds 0 t t1"
      by (auto simp: handshake(3) reconnected_def intro: adds_destroy split: option.split)
    then have "adds (if p_status p \<in> {statusConnect, statusConnectServerAnswer} then 1 else 0) t t2"
      using adds_connect_serve [of pac t1 L env a] handshake(4) s by (auto simp: adds_def)
    then show ?thesis
      using handshake(5) by (auto intro: adds_destroy split: option.split)
  next
    case (regular pac x ch out)
    then show ?thesis using assms q by auto
  next
    case (punch f d)
    then show ?thesis by (simp add: adds_def tell_def)
  qed (auto intro: adds_destroy)
qed

lemma sender_step_frame:
  "t_heap (sender_step t) = t_heap t" "t_readerCh (sender_step t) = t_readerCh t"
  "EvUdp a bs \<in> set (t_events (sender_step t)) \<Longrightarrow> EvUdp a bs \<in> set (t_events t) \<or> bs = last_udp (sender_step t)"
  by (auto simp: sender_step_def tell_def last_udp_def Let_def split: list.splits if_splits)


text \<open>What a connector has sent to \<open>a\<close> after it has served a datagram and the sender goroutine has taken a turn.\<close>

lemma adds_udp:
  assumes "adds n t u" "last_udp (sender_step u) = b" "EvUdp a bs \<in> set (t_events (sender_step u))"
    and "EvUdp a bs \<in> set (t_events t) \<Longrightarrow> bs = c \<or> bs = b"
  shows "bs = c \<or> bs = b"
  using sender_step_frame(3) [OF assms(3)] assms(1,2,4) by (auto simp: adds_def)

text \<open>The new channel of a connector that did not know the peer.\<close>

lemma new_session_channel:
  assumes str: "stranger a t" and e: "evolves t t'" and len: "length (t_heap t') \<le> length (t_heap t) + 1"
    and rd: "t_readerCh t' = t_readerCh t" and ch: "getChannel a t' = Some r"
  shows "pending r t' = []" "intact r a t'"
proof -
  have ok: "tru_ok t" "tru_ok t'" using str evolvesD(1) [OF e] by (simp_all add: stranger_def)
  have old: "x < length (t_heap t) \<Longrightarrow> c_addr (get_ch t' x) \<noteq> a" for x
    using str e by (auto simp: stranger_def evolves_def)
  have r: "live t' r" "c_addr (get_ch t' r) = a" using getChannel_ok [OF ok(2) ch] by simp_all
  have new: "x < length (t_heap t') \<Longrightarrow> c_addr (get_ch t' x) = a \<Longrightarrow> x = length (t_heap t)" for x
    using old [of x] len by (cases "x < length (t_heap t)") auto
  then have "r = length (t_heap t)" using r by blast
  then show "intact r a t'" using new r by (auto simp: intact_def)
  have "fst x \<noteq> r" if "x \<in> set (t_readerCh t)" for x
    using tru_okD(4) [OF ok(1), of x] that \<open>r = length (t_heap t)\<close> by auto
  then show "pending r t' = []"
    by (auto simp: pending_def rd filter_empty_conv)
qed

lemma clean_new:
  assumes "pending r t = []" "t_senderCh t = []"
    and "\<And>bs. EvUdp y bs \<in> set (t_events t) \<Longrightarrow> bs = marshalBinary p \<or> bs = marshalBinary q"
    and "harmless L c p" "harmless L c q"
  shows "clean L c r y t"
proof -
  have "harmless_bytes L c bs" if "EvUdp y bs \<in> set (t_events t)" for bs
    using assms(3) [OF that] harmless_marshal [OF assms(4)] harmless_marshal [OF assms(5)] by metis
  then show ?thesis using assms(1,2) by (simp add: clean_def)
qed

lemma rsa_decrypt_session: "rsa_decrypt L (c\<lparr>k_session := s\<rparr>) = rsa_decrypt L c"
  by (intro ext) (simp add: rsa_decrypt_def)

lemma handshake_harmless:
  assumes "handshake_packet st uuid d p" "st \<notin> {statusData, statusDataNext, statusAck, statusConnectClientAnswer}"
  shows "harmless L c p"
  using assms by (simp add: harmless_def handshake_packet_def)

lemma handshake_session:
  assumes laws: "crypto_laws L" and uuid: "length uuid < 256"
    and C: "t_privateKey C = Some kc" "t_senderCh C = []" "0 \<le> t_maxDataLen C" "stranger sa C"
    and S: "t_privateKey S = Some ks" "t_senderCh S = []" "0 \<le> t_maxDataLen S" "stranger ca S"
    and run: "handshake L env uuid sa ca C S = (C', S')"
  shows "\<exists>rc rs. connect_wait False uuid C' = Some (Connected (Some rc)) \<and> session_start L ca sa rc rs C' S'"
proof (rule handshake_messages [OF laws uuid C(1-3) S(1-3) run])
  fix p1 p2 p3 p4 pub enc enc' sk rc rs C1 S1 C2
  assume start: "Connect_start L (env 0) uuid (Some sa) C = (None, C1)" and C1: "C1 = tell [EvUdp sa (marshalBinary p1)] (connect_add uuid C)"
    and p1: "handshake_packet statusConnect uuid pub p1" and S1: "S1 = sender_step (serve L (env 1) ca (marshalBinary p1) S)"
    and p2: "handshake_packet statusConnectServerAnswer uuid enc p2" "last_udp S1 = marshalBinary p2"
    and C2: "C2 = sender_step (serve L (env 2) sa (marshalBinary p2) C1)"
    and p3: "handshake_packet statusConnectClientAnswer uuid enc' p3" "last_udp C2 = marshalBinary p3"
      "rsa_decrypt L \<lparr>k_private = ks, k_session = []\<rparr> enc' = Inr sk"
    and S': "S' = sender_step (serve L (env 3) ca (marshalBinary p3) S1)"
    and p4: "handshake_packet statusConnectDone uuid [] p4" "last_udp S' = marshalBinary p4"
    and C': "C' = serve L (env 4) sa (marshalBinary p4) C2"
    and fin: "connect_wait False uuid C' = Some (Connected (Some rc))" "getChannel sa C' = Some rc" "getChannel ca S' = Some rs"
      "fresh (get_ch C' rc)" "fresh (get_ch S' rs)" "t_senderCh C' = []" "t_senderCh S' = []"
    and key: "c_crypt (get_ch C' rc) = \<lparr>k_private = kc, k_session = sk\<rparr>" "c_crypt (get_ch S' rs) = \<lparr>k_private = ks, k_session = sk\<rparr>"
  have hash: "hash_laws L" using laws by (simp add: crypto_laws_def)
  have ok: "tru_ok C" "tru_ok S" using C(4) S(4) by (simp_all add: stranger_def)
  have st: "p_status p1 = statusConnect" "p_status p2 = statusConnectServerAnswer" "p_status p3 = statusConnectClientAnswer"
    "p_status p4 = statusConnectDone"
    using p1 p2(1) p3(1) p4(1) by (simp_all add: handshake_packet_def)
  have serve: "evolves s (serve L e a bs t)" if "evolves s t" for s t e a bs
    using serve_ok [OF evolvesD(1) [OF that] hash] evolves_trans [OF that] by blast
  have send: "evolves s (sender_step t)" if "evolves s t" for s t
    using sender_step_ok [OF evolvesD(1) [OF that]] evolves_trans [OF that] by blast
  have "evolves C C1" using Connect_start_ok [OF ok(1), of L "env 0" uuid "Some sa"] start by simp
  then have eC: "evolves C C'" unfolding C' C2 by (intro serve send)
  have eS: "evolves S S'" unfolding S' S1 by (intro serve send evolves_refl ok)
  have aC: "adds 1 C1 (serve L (env 2) sa (marshalBinary p2) C1)" "adds 0 C2 C'"
    using adds_serve [of p2 C1 L "env 2" sa] adds_serve [of p4 C2 L "env 4" sa] st by (simp_all add: C')
  have aS: "adds 1 S (serve L (env 1) ca (marshalBinary p1) S)" "adds 0 S1 (serve L (env 3) ca (marshalBinary p3) S1)"
    using adds_serve [of p1 S L "env 1" ca] adds_serve [of p3 S1 L "env 3" ca] st by simp_all
  have heap: "t_heap C1 = t_heap C" "t_readerCh C1 = t_readerCh C" by (simp_all add: C1 tell_def connect_add_def)
  have C_new: "pending rc C' = []" "intact rc sa C'"
    using new_session_channel [OF C(4) eC _ _ fin(2)] aC heap by (simp_all add: adds_def C2 sender_step_frame)
  have S_new: "pending rs S' = []" "intact rs ca S'"
    using new_session_channel [OF S(4) eS _ _ fin(3)] aS by (simp_all add: adds_def S1 S' sender_step_frame)
  have first: "EvUdp sa bs \<in> set (t_events C1) \<longleftrightarrow> bs = marshalBinary p1" "EvUdp ca bs \<notin> set (t_events S)" for bs
    using C(4) S(4) by (auto simp: C1 tell_def connect_add_def stranger_def)
  have C_udp: "bs = marshalBinary p1 \<or> bs = marshalBinary p3" if "EvUdp sa bs \<in> set (t_events C')" for bs
  proof -
    have "EvUdp sa bs \<in> set (t_events (sender_step (serve L (env 2) sa (marshalBinary p2) C1)))"
      using that aC(2) by (simp add: adds_def C2)
    from adds_udp [OF aC(1) p3(2) [unfolded C2] this] show ?thesis using first(1) by blast
  qed
  have S1_udp: "bs = marshalBinary p2" if "EvUdp ca bs \<in> set (t_events S1)" for bs
    using adds_udp [OF aS(1) p2(2) [unfolded S1] that [unfolded S1]] first(2) by blast
  have S_udp: "bs = marshalBinary p2 \<or> bs = marshalBinary p4" if "EvUdp ca bs \<in> set (t_events S')" for bs
    using adds_udp [OF aS(2) p4(2) [unfolded S'] that [unfolded S']] S1_udp by blast
  have "harmless L (c_crypt (get_ch S' rs)) p3"
    using p3(1,3) st(3) rsa_decrypt_session [where L = L and c = "\<lparr>k_private = ks, k_session = []\<rparr>" and s = sk]
    by (auto simp: harmless_def handshake_packet_def key setSesionKey_def)
  moreover have "harmless L c p1" "harmless L c p2" "harmless L c p4" for c
    using p1 p2(1) p4(1) by (auto intro: handshake_harmless)
  ultimately have "clean L (c_crypt (get_ch S' rs)) rc sa C'" "clean L (c_crypt (get_ch C' rc)) rs ca S'"
    using clean_new [OF C_new(1) fin(6) C_udp] clean_new [OF S_new(1) fin(7) S_udp] by blast+
  then have "session_start L ca sa rc rs C' S'"
    using evolvesD(1) [OF eC] evolvesD(1) [OF eS] fin key by (simp add: session_start_def)
  then show ?thesis using fin(1) by blast
qed

end
