(* ===== verification/Go_Strings.thy ===== *)
theory Go_Strings
  imports Tru_Prelude "HOL-Library.Sublist"
begin

section \<open>Go's string functions\<close>

text \<open>
  The functions of the packages \<open>strings\<close>, \<open>strconv\<close> and \<open>fmt\<close> that the log, the menu, the
  terminal and the network interface call.  A string is a list of bytes written as characters;
  white space and letters are the ASCII ones.
\<close>

subsection \<open>Split and Join\<close>

text \<open>\<open>strings.Split\<close> with a separator that is not empty; \<open>cur\<close> is the part read so far.\<close>

function split_go :: "string \<Rightarrow> string \<Rightarrow> string \<Rightarrow> string list" where
  "split_go sep cur s =
     (if s = [] then [cur]
      else if sep \<noteq> [] \<and> prefix sep s then cur # split_go sep [] (drop (length sep) s)
      else split_go sep (cur @ [hd s]) (tl s))"
  by pat_completeness auto
termination
  by (relation "measure (\<lambda>(sep, cur, s). length s)") auto

declare split_go.simps [simp del]

abbreviation strings_Split :: "string \<Rightarrow> string \<Rightarrow> string list" where
  "strings_Split s sep \<equiv> split_go sep [] s"

fun strings_Join :: "string list \<Rightarrow> string \<Rightarrow> string" where
  "strings_Join [] sep = []"
| "strings_Join [x] sep = x"
| "strings_Join (x # xs) sep = x @ sep @ strings_Join xs sep"

lemma split_go_not_Nil [simp]: "split_go sep cur s \<noteq> []"
proof (induction sep cur s rule: split_go.induct)
  case (1 sep cur s)
  then show ?case by (subst split_go.simps) simp
qed

lemma join_Cons: "xs \<noteq> [] \<Longrightarrow> strings_Join (x # xs) sep = x @ sep @ strings_Join xs sep"
  by (cases xs) auto

text \<open>Joining the parts gives the string back.\<close>

lemma join_split: "strings_Join (split_go sep cur s) sep = cur @ s"
proof (induction sep cur s rule: split_go.induct)
  case (1 sep cur s)
  consider "s = []" | "s \<noteq> []" "sep \<noteq> []" "prefix sep s" | "s \<noteq> []" "\<not> (sep \<noteq> [] \<and> prefix sep s)"
    by blast
  then show ?case
  proof cases
    case 2
    then have "sep @ drop (length sep) s = s" by (auto simp: prefix_def)
    with 2 1 show ?thesis by (subst split_go.simps) (simp add: join_Cons)
  next
    case 3
    with 1 show ?thesis by (subst split_go.simps) (simp only: if_False, simp)
  qed (simp add: split_go.simps)
qed

text \<open>A part without a copy of the separator in it, nor one across its end, is read in one go.\<close>

lemma split_go_run:
  assumes "sep \<noteq> []" "\<And>i. i < length x \<Longrightarrow> \<not> prefix sep (drop i x @ s)"
  shows "split_go sep cur (x @ s) = split_go sep (cur @ x) s"
  using assms(2)
proof (induction x arbitrary: cur)
  case (Cons c x)
  have "\<not> prefix sep (c # x @ s)"
    using Cons.prems [of 0] by simp
  then have "split_go sep cur ((c # x) @ s) = split_go sep (cur @ [c]) (x @ s)"
    by (subst split_go.simps) simp
  also have "\<dots> = split_go sep ((cur @ [c]) @ x) s"
    using Cons.prems [of "Suc i" for i] by (intro Cons.IH) simp
  finally show ?case by simp
qed simp

lemma split_go_sep: "sep \<noteq> [] \<Longrightarrow> split_go sep cur (sep @ s) = cur # split_go sep [] s"
  by (subst split_go.simps) simp

subsection \<open>TrimSpace, ToLower, Contains\<close>

definition is_space :: "char \<Rightarrow> bool" where
  "is_space c \<longleftrightarrow> c \<in> set [CHR 0x09, CHR 0x0A, CHR 0x0B, CHR 0x0C, CHR 0x0D, CHR 0x20]"

definition strings_TrimSpace :: "string \<Rightarrow> string" where
  "strings_TrimSpace s = rev (dropWhile is_space (rev (dropWhile is_space s)))"

definition to_lower :: "char \<Rightarrow> char" where
  "to_lower c = (let n = (of_char c :: nat) in if 65 \<le> n \<and> n \<le> 90 then char_of (n + 32) else c)"

definition strings_ToLower :: "string \<Rightarrow> string" where
  "strings_ToLower s = map to_lower s"

definition strings_Contains :: "string \<Rightarrow> string \<Rightarrow> bool" where
  "strings_Contains s x \<longleftrightarrow> list_ex (prefix x) (suffixes s)"

lemma strings_Contains_iff: "strings_Contains s x \<longleftrightarrow> sublist x s"
proof -
  have "strings_Contains s x \<longleftrightarrow> (\<exists>t. suffix t s \<and> prefix x t)"
    by (auto simp: strings_Contains_def list_ex_iff)
  then show ?thesis
    by (auto simp: sublist_altdef')
qed

text \<open>A string that \<open>TrimSpace\<close> leaves alone.\<close>

definition trimmed :: "string \<Rightarrow> bool" where
  "trimmed s \<longleftrightarrow> s = [] \<or> \<not> is_space (hd s) \<and> \<not> is_space (last s)"

lemma dropWhile_id: "xs = [] \<or> \<not> P (hd xs) \<Longrightarrow> dropWhile P xs = xs"
  by (cases xs) auto

lemma trim_trimmed [simp]: "trimmed s \<Longrightarrow> strings_TrimSpace s = s"
  by (auto simp: trimmed_def strings_TrimSpace_def dropWhile_id hd_rev)

lemma trim_spaces:
  assumes "trimmed s" "\<forall>c\<in>set a. is_space c" "\<forall>c\<in>set b. is_space c"
  shows "strings_TrimSpace (a @ s @ b) = s"
proof (cases "s = []")
  case True
  with assms show ?thesis by (auto simp: strings_TrimSpace_def dropWhile_append dest: set_dropWhileD)
next
  case False
  then obtain x xs where x: "s = x # xs" by (cases s) auto
  obtain ys y where y: "s = ys @ [y]" using False by (cases s rule: rev_cases) auto
  have "dropWhile is_space (a @ s @ b) = s @ b"
    using assms(1,2) x by (simp add: dropWhile_append trimmed_def)
  moreover have "dropWhile is_space (rev (s @ b)) = rev s"
    using assms(1,3) y by (simp add: dropWhile_append trimmed_def)
  ultimately show ?thesis by (simp add: strings_TrimSpace_def)
qed

lemma trim_is_trimmed: "trimmed (strings_TrimSpace s)"
proof -
  define t where "t = dropWhile is_space s"
  have rev_hd: "dropWhile is_space (rev t) \<noteq> [] \<Longrightarrow> \<not> is_space (hd (dropWhile is_space (rev t)))"
    by (rule hd_dropWhile)
  obtain b where b: "rev t = b @ dropWhile is_space (rev t)"
    by (metis takeWhile_dropWhile_id)
  then have t: "t = rev (dropWhile is_space (rev t)) @ rev b"
    by (metis rev_append rev_rev_ident)
  have "\<not> is_space (hd t)" if "t \<noteq> []"
    using that unfolding t_def by (rule hd_dropWhile)
  then have "\<not> is_space (hd (rev (dropWhile is_space (rev t))))" if "dropWhile is_space (rev t) \<noteq> []"
    using that t by (metis Nil_is_append_conv hd_append2 rev_is_Nil_conv)
  with rev_hd show ?thesis
    by (auto simp: trimmed_def strings_TrimSpace_def last_rev simp flip: t_def)
qed

subsection \<open>Numbers\<close>

text \<open>\<open>%d\<close> and \<open>strconv.Itoa\<close>.\<close>

function nat_digits :: "nat \<Rightarrow> string" where
  "nat_digits n = (if n < 10 then [char_of (48 + n)] else nat_digits (n div 10) @ [char_of (48 + n mod 10)])"
  by pat_completeness auto
termination
  by (relation "measure id") auto

declare nat_digits.simps [simp del]

definition itoa :: "int \<Rightarrow> string" where
  "itoa i = (if i < 0 then ''-'' @ nat_digits (nat (- i)) else nat_digits (nat i))"

text \<open>\<open>strconv.Atoi\<close> on a 64-bit \<open>int\<close>.\<close>

definition digit_val :: "char \<Rightarrow> int option" where
  "digit_val c = (let n = (of_char c :: nat) in if 48 \<le> n \<and> n \<le> 57 then Some (int n - 48) else None)"

fun digits_val :: "int \<Rightarrow> string \<Rightarrow> int option" where
  "digits_val acc [] = Some acc"
| "digits_val acc (c # cs) =
     (case digit_val c of None \<Rightarrow> None | Some d \<Rightarrow> digits_val (10 * acc + d) cs)"

definition atoi :: "string \<Rightarrow> int option" where
  "atoi s =
     (let neg = (s \<noteq> [] \<and> hd s = CHR ''-'');
          ds = (if s \<noteq> [] \<and> (hd s = CHR ''-'' \<or> hd s = CHR ''+'') then tl s else s)
      in if ds = [] then None
         else case digits_val 0 ds of
           None \<Rightarrow> None
         | Some v \<Rightarrow>
             (let v = (if neg then - v else v)
              in if - (2 ^ 63) \<le> v \<and> v < 2 ^ 63 then Some v else None))"

lemma digits_val_append:
  "digits_val acc (xs @ ys) = (case digits_val acc xs of None \<Rightarrow> None | Some v \<Rightarrow> digits_val v ys)"
  by (induction acc xs rule: digits_val.induct) (auto split: option.split)

lemma digit_val_char: "n < 10 \<Longrightarrow> digit_val (char_of (48 + n)) = Some (int n)"
  by (simp add: digit_val_def)

lemma digits_val_nat: "digits_val 0 (nat_digits n) = Some (int n)"
proof (induction n rule: nat_digits.induct)
  case (1 n)
  show ?case
  proof (cases "n < 10")
    case True
    then show ?thesis by (simp add: nat_digits.simps [of n] digit_val_char)
  next
    case False
    then have "digits_val 0 (nat_digits (n div 10)) = Some (int (n div 10))"
      by (rule 1)
    moreover have "10 * int (n div 10) + int (n mod 10) = int n"
      by (metis mult.commute of_nat_add of_nat_mult of_nat_numeral div_mult_mod_eq)
    ultimately show ?thesis
      using False by (simp add: nat_digits.simps [of n] digits_val_append digit_val_char)
  qed
qed

lemma nat_digits_chars: "c \<in> set (nat_digits n) \<Longrightarrow> digit_val c \<noteq> None"
proof (induction n rule: nat_digits.induct)
  case (1 n)
  then show ?case
    using digit_val_char [of n] digit_val_char [of "n mod 10"]
    by (cases "n < 10") (auto simp: nat_digits.simps [of n])
qed

lemma nat_digits_not_Nil [simp]: "nat_digits n \<noteq> []"
  by (cases "n < 10") (simp_all add: nat_digits.simps [of n])

lemma atoi_itoa:
  assumes "- (2 ^ 63) \<le> i" "i < 2 ^ 63"
  shows "atoi (itoa i) = Some i"
proof -
  have sign: "hd (nat_digits n) \<noteq> CHR ''-'' \<and> hd (nat_digits n) \<noteq> CHR ''+''" for n
  proof -
    have "digit_val (hd (nat_digits n)) \<noteq> None"
      using nat_digits_chars hd_in_set nat_digits_not_Nil by blast
    moreover have "digit_val CHR ''-'' = None" "digit_val CHR ''+'' = None"
      by (simp_all add: digit_val_def)
    ultimately show ?thesis by metis
  qed
  show ?thesis
    using assms sign by (auto simp: atoi_def itoa_def digits_val_nat)
qed

end
