(* ===== verification/Tru_Net.thy ===== *)
theory Tru_Net
  imports System Go_Strings
begin

section \<open>The net interface (tru\_net.go)\<close>

text \<open>
  \<open>Listen\<close>, \<open>Dial\<close> and \<open>Conn\<close> over the connector.  The read channel of a \<open>Conn\<close> is unbuffered: the
  messages that the connector's reader goroutine and the ones behind it offer wait in \<open>cn_queue\<close>
  until a \<open>Read\<close> takes them, and closing the channel makes the waiting sends panic, which the
  reader recovers from, so their data is lost.  A \<open>Read\<close> that has to wait has no result.
\<close>

record conn =
  cn_ch :: "nat option"
  cn_localAddr :: string
  cn_remoteAddr :: string
  cn_queue :: "bytes list"
  cn_closed :: bool
  cn_buf :: bytes
  cn_cont :: bool

definition newConn :: "string \<Rightarrow> nat \<Rightarrow> tru \<Rightarrow> conn" where
  "newConn localAddr r tru =
     \<lparr>cn_ch = Some r, cn_localAddr = localAddr, cn_remoteAddr = c_addr (get_ch tru r),
      cn_queue = [], cn_closed = False, cn_buf = [], cn_cont = False\<rparr>"

definition conn_Read :: "nat \<Rightarrow> conn \<Rightarrow> ((bytes \<times> go_error option) \<times> conn) option" where
  "conn_Read n c =
     (if length (cn_buf c) = 0 \<and> cn_cont c then Some (([], Some ErrEOF), c\<lparr>cn_cont := False\<rparr>)
      else if length (cn_buf c) = 0 then
        (case cn_queue c of
           m # ms \<Rightarrow>
             (let c = c\<lparr>cn_queue := ms, cn_buf := m, cn_cont := True\<rparr>
              in Some ((take n (cn_buf c), None), c\<lparr>cn_buf := drop n (cn_buf c)\<rparr>))
         | [] \<Rightarrow> if cn_closed c then Some (([], Some ErrChannelDestroyed), c) else None)
      else Some ((take n (cn_buf c), None), c\<lparr>cn_buf := drop n (cn_buf c)\<rparr>))"

definition conn_Write ::
  "crypto \<Rightarrow> (nat \<Rightarrow> wenv) \<Rightarrow> bytes \<Rightarrow> conn \<Rightarrow> tru \<Rightarrow> (nat \<times> go_error option) \<times> tru" where
  "conn_Write L envs b c tru =
     (case cn_ch c of
        None \<Rightarrow> ((0, Some ErrChannelDestroyed), tru)
      | Some r \<Rightarrow>
          (let ((_, err), tru) = tru_channel_WriteTo L envs r b [] tru
           in ((if err = None then length b else 0, err), tru)))"

text \<open>\<open>Close\<close>; closing the read channel a second time would panic.\<close>

definition conn_Close :: "crypto \<Rightarrow> tenv \<Rightarrow> conn \<Rightarrow> tru \<Rightarrow> go_error option \<times> conn \<times> tru" where
  "conn_Close L env c tru =
     (case cn_ch c of
        None \<Rightarrow> (Some ErrChannelAlreadyDestroyed, c, tru)
      | Some r \<Rightarrow>
          (let tru = channel_Close L env r tru;
               tru = (if cn_closed c then tell [EvPanic] tru else tru)
           in (None, c\<lparr>cn_ch := None, cn_closed := True, cn_queue := []\<rparr>, tru)))"

text \<open>The channel's reader, on a packet or an error.\<close>

definition conn_reader ::
  "crypto \<Rightarrow> tenv \<Rightarrow> packet option \<Rightarrow> go_error option \<Rightarrow> conn \<Rightarrow> tru \<Rightarrow> conn \<times> tru" where
  "conn_reader L env pac err c tru =
     (case cn_ch c of
        None \<Rightarrow> (c, tru)
      | Some r \<Rightarrow>
          (case (err, pac) of
             (Some e, _) \<Rightarrow> if e = ErrChannelDestroyed then snd (conn_Close L env c tru) else (c, tru)
           | (None, Some p) \<Rightarrow> (if cn_closed c then c else c\<lparr>cn_queue := cn_queue c @ [p_data p]\<rparr>, tru)
           | (None, None) \<Rightarrow> (c, tell [EvPanic] tru)))"

text \<open>
  \<open>destroy\<close> of the channel of a \<open>Conn\<close>, whose reader is the channel's.  The reader is called first, while
  the channel is live, so its \<open>Close\<close> sends a disconnect and destroys the channel itself (the reader,
  called again, finds the \<open>Conn\<close> closed); then the rest of the outer \<open>destroy\<close> runs.
\<close>

definition conn_destroy :: "crypto \<Rightarrow> tenv \<Rightarrow> string \<Rightarrow> nat \<Rightarrow> conn \<Rightarrow> tru \<Rightarrow> conn \<times> tru" where
  "conn_destroy L env msg r c tru =
     (let (c, tru) = (case c_reader (get_ch tru r) of
                        None \<Rightarrow> (c, tru)
                      | Some f \<Rightarrow> conn_reader L env None (Some ErrChannelDestroyed) c
                          (tell [EvReader f (Some r) None (Some ErrChannelDestroyed)] tru));
          tru = (case t_reader tru of
                   None \<Rightarrow> tru
                 | Some f \<Rightarrow> tell [EvReader f (Some r) None (Some ErrChannelDestroyed)] tru);
          tru = put_ch r (channel_stop (get_ch tru r)) tru;
          tru = log_msg env msg tru
      in (c, tru\<lparr>t_channels := gm_del (c_addr (get_ch tru r)) (t_channels tru)\<rparr>))"

subsection \<open>Listen, Dial and Accept\<close>

text \<open>
  A listener's accept channel: the new channels whose \<open>connected\<close> callback waits for an \<open>Accept\<close>.
\<close>

record trunet =
  tn_accept :: "nat list"

definition connected :: "nat \<Rightarrow> go_error option \<Rightarrow> trunet \<Rightarrow> trunet" where
  "connected r err t = (if err \<noteq> None then t else t\<lparr>tn_accept := tn_accept t @ [r]\<rparr>)"

definition Accept :: "nat \<Rightarrow> string \<Rightarrow> trunet \<Rightarrow> tru \<Rightarrow> (conn \<times> trunet \<times> tru) option" where
  "Accept f localAddr t tru =
     (case tn_accept t of
        [] \<Rightarrow> None
      | r # rs \<Rightarrow> Some (newConn localAddr r tru, t\<lparr>tn_accept := rs\<rparr>, setReader f r tru))"

text \<open>The build switches \<open>truDebug\<close> and \<open>truStat\<close>, and the two constants they choose.\<close>

record build =
  bd_truDebug :: bool
  bd_truStat :: bool

definition logLevel :: "build \<Rightarrow> string" where
  "logLevel bd = (if bd_truDebug bd then ''debugvv'' else ''none'')"

definition showStats :: "build \<Rightarrow> bool" where
  "showStats bd = (if bd_truStat bd then True else False)"

text \<open>
  \<open>newTrunet\<close>: \<open>common\<close> is the global connector, \<open>f\<close> the listener's \<open>connected\<close>, and \<open>listen\<close> says
  which ports can be opened.  The result is the listener's connector and the global one.
\<close>

definition newTrunet ::
  "build \<Rightarrow> tenv \<Rightarrow> (int \<Rightarrow> bool) \<Rightarrow> nat \<Rightarrow> string \<Rightarrow> bool \<Rightarrow> tru option \<Rightarrow> (go_error + tru) \<times> tru option" where
  "newTrunet bd env listen f address useTruCommon common =
     (let addr = strings_Split address '':'' in
      if length addr \<noteq> 2 then (Inl ErrWrongAddress, common)
      else case atoi (addr ! 1) of
        None \<Rightarrow> (Inl ErrWrongPort, common)
      | Some port \<Rightarrow>
          (case (useTruCommon, common) of
             (True, Some tru) \<Rightarrow> (Inr tru, common)
           | _ \<Rightarrow>
               (case New env (listen port) [PConnect (Some f), PLevel (logLevel bd), PStat (showStats bd)] of
                  (Some e, _) \<Rightarrow> (Inl e, common)
                | (None, tru) \<Rightarrow> (Inr tru, if useTruCommon then Some tru else common))))"

definition Listen :: "build \<Rightarrow> tenv \<Rightarrow> (int \<Rightarrow> bool) \<Rightarrow> nat \<Rightarrow> string \<Rightarrow> tru option \<Rightarrow> (go_error + tru) \<times> tru option" where
  "Listen bd env listen f address common = newTrunet bd env listen f address True common"

text \<open>\<open>Close\<close> of the listener closes its connector; the accept channel stays as it is.\<close>

definition trunet_Close :: "crypto \<Rightarrow> tenv \<Rightarrow> trunet \<Rightarrow> tru \<Rightarrow> trunet \<times> tru" where
  "trunet_Close L env t tru = (t, tru_Close L env tru)"

text \<open>\<open>Dial\<close> up to the wait of \<open>Connect\<close>, and after it has a channel.\<close>

definition Dial_start ::
  "crypto \<Rightarrow> build \<Rightarrow> tenv \<Rightarrow> (int \<Rightarrow> bool) \<Rightarrow> nat \<Rightarrow> bytes \<Rightarrow> string option \<Rightarrow> tru option \<Rightarrow> go_error option \<times> tru option" where
  "Dial_start L bd env listen f uuid addr common =
     (case newTrunet bd env listen f '':0'' True common of
        (Inl e, common) \<Rightarrow> (Some e, common)
      | (Inr tru, common) \<Rightarrow> (let (err, tru) = Connect_start L env uuid addr tru in (err, Some tru)))"

definition Dial_finish :: "nat \<Rightarrow> string \<Rightarrow> nat \<Rightarrow> tru \<Rightarrow> conn \<times> tru" where
  "Dial_finish f localAddr r tru = (newConn localAddr r tru, setReader f r tru)"

subsection \<open>Lemmas\<close>

text \<open>A connection is open, or its read channel is closed and empty.\<close>

definition conn_ok :: "conn \<Rightarrow> bool" where
  "conn_ok c \<longleftrightarrow> (cn_closed c \<longleftrightarrow> cn_ch c = None) \<and> (cn_closed c \<longrightarrow> cn_queue c = [])"

lemma conn_ok_new: "conn_ok (newConn a r tru)"
  by (simp add: conn_ok_def newConn_def)

lemma conn_ok_Close: "conn_ok c \<Longrightarrow> conn_ok (fst (snd (conn_Close L env c tru)))"
  by (simp add: conn_ok_def conn_Close_def Let_def split: option.split)

lemma conn_ok_reader: "conn_ok c \<Longrightarrow> conn_ok (fst (conn_reader L env pac err c tru))"
  using conn_ok_Close [of c L env tru]
  by (auto simp: conn_ok_def conn_reader_def split: option.split)

lemma conn_ok_Read: "conn_ok c \<Longrightarrow> conn_Read n c = Some (res, c') \<Longrightarrow> conn_ok c'"
  by (auto simp: conn_ok_def conn_Read_def Let_def split: if_splits list.splits)

text \<open>Reading with a buffer of \<open>n\<close> bytes until an error, at most \<open>k\<close> times.\<close>

fun read_until :: "nat \<Rightarrow> nat \<Rightarrow> conn \<Rightarrow> (bytes \<times> go_error \<times> conn) option" where
  "read_until 0 n c = None"
| "read_until (Suc k) n c =
     (case conn_Read n c of
        None \<Rightarrow> None
      | Some ((b, Some e), c') \<Rightarrow> Some (b, e, c')
      | Some ((b, None), c') \<Rightarrow>
          (case read_until k n c' of None \<Rightarrow> None | Some (bs, e, c'') \<Rightarrow> Some (b @ bs, e, c'')))"

lemma read_until_buf:
  assumes "0 < n" "length buf < k" "cn_buf c = buf" "cn_cont c"
  shows "read_until k n c = Some (buf, ErrEOF, c\<lparr>cn_buf := [], cn_cont := False\<rparr>)"
  using assms(2-4)
proof (induction k arbitrary: buf c)
  case (Suc k)
  show ?case
  proof (cases "buf = []")
    case True
    with Suc.prems show ?thesis by (simp add: conn_Read_def)
  next
    case False
    then have "length (drop n buf) < k"
      using assms(1) Suc.prems(1) by (cases buf) auto
    then have "read_until k n (c\<lparr>cn_buf := drop n buf\<rparr>) = Some (drop n buf, ErrEOF, c\<lparr>cn_buf := [], cn_cont := False\<rparr>)"
      using Suc.IH [of "drop n buf" "c\<lparr>cn_buf := drop n buf\<rparr>"] Suc.prems(3) by simp
    with False Suc.prems show ?thesis by (simp add: conn_Read_def)
  qed
qed simp

lemma read_until_message:
  assumes "0 < n" "Suc (length m) < k" "cn_buf c = []" "\<not> cn_cont c" "cn_queue c = m # ms"
  shows "read_until k n c = Some (m, ErrEOF, c\<lparr>cn_queue := ms\<rparr>)"
proof -
  obtain j where k: "k = Suc j" using assms(2) by (cases k) auto
  let ?c = "c\<lparr>cn_queue := ms, cn_buf := drop n m, cn_cont := True\<rparr>"
  have "conn_Read n c = Some ((take n m, None), ?c)"
    using assms(3-5) by (simp add: conn_Read_def Let_def)
  moreover have "read_until j n ?c = Some (drop n m, ErrEOF, ?c\<lparr>cn_buf := [], cn_cont := False\<rparr>)"
    using assms(2) k by (intro read_until_buf [OF assms(1)]) auto
  moreover have "?c\<lparr>cn_buf := [], cn_cont := False\<rparr> = c\<lparr>cn_queue := ms\<rparr>"
    using assms(3,4) by (intro conn.equality) simp_all
  ultimately show ?thesis by (simp add: k)
qed

text \<open>The messages of a list of packets, read one after the other.\<close>

fun read_messages :: "nat \<Rightarrow> nat \<Rightarrow> nat \<Rightarrow> conn \<Rightarrow> bytes list option" where
  "read_messages 0 k n c = Some []"
| "read_messages (Suc j) k n c =
     (case read_until k n c of
        Some (m, ErrEOF, c') \<Rightarrow> map_option ((#) m) (read_messages j k n c')
      | _ \<Rightarrow> None)"

lemma read_messages_queue:
  assumes "0 < n" "\<forall>m\<in>set ms. Suc (length m) < k" "cn_buf c = []" "\<not> cn_cont c" "cn_queue c = ms"
  shows "read_messages (length ms) k n c = Some ms"
  using assms(2-5)
proof (induction ms arbitrary: c)
  case (Cons m ms)
  have "read_until k n c = Some (m, ErrEOF, c\<lparr>cn_queue := ms\<rparr>)"
    using Cons.prems by (intro read_until_message [OF assms(1)]) auto
  moreover have "read_messages (length ms) k n (c\<lparr>cn_queue := ms\<rparr>) = Some ms"
    using Cons.prems by (intro Cons.IH) auto
  ultimately show ?case by simp
qed simp

fun feed :: "crypto \<Rightarrow> tenv \<Rightarrow> packet list \<Rightarrow> conn \<Rightarrow> tru \<Rightarrow> conn \<times> tru" where
  "feed L env [] c tru = (c, tru)"
| "feed L env (p # ps) c tru =
     (let (c, tru) = conn_reader L env (Some p) None c tru in feed L env ps c tru)"

lemma feed_queue:
  assumes "conn_ok c" "cn_ch c \<noteq> None"
  shows "feed L env ps c tru = (c\<lparr>cn_queue := cn_queue c @ map p_data ps\<rparr>, tru)"
  using assms
proof (induction ps arbitrary: c)
  case (Cons p ps)
  then show ?case
    by (auto simp: conn_reader_def conn_ok_def)
qed simp

lemma newTrunet_address:
  assumes "length (strings_Split address '':'') \<noteq> 2"
  shows "newTrunet bd env listen f address u common = (Inl ErrWrongAddress, common)"
  using assms by (simp add: newTrunet_def)

subsection \<open>Properties\<close>

definition sample_conn :: conn where
  "sample_conn =
     \<lparr>cn_ch = Some 0, cn_localAddr = ''l'', cn_remoteAddr = ''a'', cn_queue = [], cn_closed = False, cn_buf = [],
      cn_cont = False\<rparr>"

text \<open>What a reader is told when its channel is destroyed.\<close>

definition lost_reader :: "nat \<Rightarrow> nat option \<Rightarrow> event list" where
  "lost_reader r g = (case g of None \<Rightarrow> [] | Some f \<Rightarrow> [EvReader f (Some r) None (Some ErrChannelDestroyed)])"

lemma conn_destroy_eq:
  assumes "live tru r" "cn_ch c = Some r" "\<not> cn_closed c" "c_reader (get_ch tru r) = Some f"
  shows "conn_destroy L env msg r c tru =
     (let t = channel_Close L env r (tell (lost_reader r (Some f)) tru);
          t = log_msg env msg (put_ch r (channel_stop (get_ch t r)) (tell (lost_reader r (t_reader t)) t))
      in (c\<lparr>cn_ch := None, cn_closed := True, cn_queue := []\<rparr>, t\<lparr>t_channels := gm_del (c_addr (get_ch t r)) (t_channels t)\<rparr>))"
  using assms
  by (auto simp: conn_destroy_def conn_reader_def conn_Close_def Let_def lost_reader_def tell_def split: option.split)

lemma destroy_events_lost: "destroy_events r tru = lost_reader r (c_reader (get_ch tru r)) @ lost_reader r (t_reader tru)"
  by (simp add: destroy_events_def lost_reader_def)

lemma conn_destroy_ok:
  assumes "tru_ok tru" "live tru r" "cn_ch c = Some r" "\<not> cn_closed c" "c_reader (get_ch tru r) = Some f"
  shows "tru_ok (snd (conn_destroy L env msg r c tru))"
proof -
  define t where "t = channel_Close L env r (tell (lost_reader r (Some f)) tru)"
  have t: "tru_ok t" "r < length (t_heap t)"
    using channel_Close_ok [OF evolves_refl, of "tell (lost_reader r (Some f)) tru" r L env] assms(1,2) evolvesD(1) 
    by (auto simp: t_def evolves_def)
  then have "tru_ok (destroy env msg r t)"
    using evolves_destroy [OF evolves_refl] evolvesD(1) by blast
  moreover have "snd (conn_destroy L env msg r c tru) =
      (destroy env msg r t)\<lparr>t_events := t_events t @ lost_reader r (t_reader t)\<rparr>"
    unfolding conn_destroy_eq [OF assms(2-5)] t_def [symmetric]
    by (simp add: destroy_def Let_def tell_def put_ch_def log_msg_def)
  ultimately show ?thesis by (simp add: tru_ok_def panicked_def)
qed

text \<open>
  Reading a connection. After any list of packets has come to an idle open connection, reading
  with a buffer of any positive size gives the messages one after the other, each complete and
  closed by one EOF, whatever their lengths (also empty ones); enough reads always end, and
  nothing is left.
\<close>

lemma conn_messages:
  assumes "0 < n" "conn_ok c" "cn_ch c \<noteq> None" "cn_queue c = []" "cn_buf c = []" "\<not> cn_cont c"
    and "\<forall>p\<in>set ps. Suc (length (p_data p)) < k"
  shows "read_messages (length ps) k n (fst (feed L env ps c tru)) = Some (map p_data ps)"
proof -
  have "fst (feed L env ps c tru) = c\<lparr>cn_queue := map p_data ps\<rparr>"
    using feed_queue [OF assms(2,3), of L env ps tru] assms(4) by simp
  then show ?thesis
    using read_messages_queue [of n "map p_data ps" k "c\<lparr>cn_queue := map p_data ps\<rparr>"] assms by simp
qed

text \<open>
  Writing and closing a connection. A write on an open connection reports the whole length
  exactly when the channel took the message, and zero with the channel's error otherwise.
  Closing an open connection closes its channel and its read side without a panic; a second
  close returns an error and changes nothing, and so does a write after it.
\<close>

lemma conn_close_write:
  assumes "conn_ok c" "cn_ch c = Some r"
  shows "fst (conn_Write L envs b c tru) =
       (case snd (fst (tru_channel_WriteTo L envs r b [] tru)) of
          None \<Rightarrow> (length b, None) | Some e \<Rightarrow> (0, Some e)) \<and>
     (case conn_Close L env c tru of (err, c', tru') \<Rightarrow>
        err = None \<and> tru' = channel_Close L env r tru \<and> cn_closed c' \<and> cn_queue c' = [] \<and>
        conn_Close L env c' tru' = (Some ErrChannelAlreadyDestroyed, c', tru') \<and>
        conn_Write L envs b c' tru' = ((0, Some ErrChannelDestroyed), tru') \<and>
        conn_reader L env p e c' tru' = (c', tru'))"
  using assms
  by (simp add: conn_Write_def conn_Close_def conn_reader_def conn_ok_def Let_def split_def split: option.split)

text \<open>
  Listening. An address has to be a host and a decimal port around a single colon, or it is
  refused. When the process already has its common connector, every later listener gets that
  same connector, whatever its port, and none is opened.
\<close>

lemma listen_address:
  assumes "- (2 ^ 63) \<le> port" "port < 2 ^ 63" "CHR '':'' \<notin> set host" "CHR '':'' \<notin> set (itoa port)"
  shows "Listen bd env listen f (host @ '':'' @ itoa port) (Some tru) = (Inr tru, Some tru) \<and>
     Listen bd env listen f host (Some tru) = (Inl ErrWrongAddress, Some tru) \<and>
     Listen bd env (\<lambda>_. False) f (host @ '':'' @ itoa port) None = (Inl ErrWrongAddress, None)"
proof -
  have skip: "split_go '':'' cur (x @ t) = split_go '':'' (cur @ x) t" if x: "CHR '':'' \<notin> set x" for cur x t
  proof (rule split_go_run)
    fix i assume i: "i < length x"
    then have "x ! i \<noteq> CHR '':''" using x nth_mem by fastforce
    then show "\<not> prefix '':'' (drop i x @ t)"
      using Cons_nth_drop_Suc [OF i] by (metis append_Cons prefix_Cons prefix_code(3))
  qed simp
  have run: "split_go '':'' cur x = [cur @ x]" if "CHR '':'' \<notin> set x" for cur x
    using skip [OF that, of cur "[]"] by (simp add: split_go.simps)
  have "split_go '':'' [] (host @ '':'' @ itoa port) = split_go '':'' ([] @ host) ('':'' @ itoa port)"
    by (rule skip [OF assms(3)])
  also have "\<dots> = [host, itoa port]"
    using split_go_sep [of "'':''" host "itoa port"] run [OF assms(4), of "[]"] by simp
  finally show ?thesis
    using run [OF assms(3), of "[]"] atoi_itoa [OF assms(1,2)]
    by (simp add: Listen_def newTrunet_def New_def Let_def)
qed

text \<open>
  C33: A connection whose channel is destroyed, by its timers, by too many attempts or because
  the peer has closed it. The reader closes the Conn in the middle of destroy, so the peer is
  sent one more disconnect, the channel is destroyed twice, and the connector's own reader is
  told twice. The address is free, no other address is touched and the invariant holds. The
  messages that were acknowledged but not yet read are lost: the next Read that finds no rest of
  a message returns the error, and so does every Write.
\<close>

lemma conn_destroyed:
  assumes "tru_ok tru" "live tru r" "conn_ok c" "cn_ch c = Some r" "c_reader (get_ch tru r) = Some f"
  shows "case conn_destroy L env msg r c tru of (c', tru') \<Rightarrow>
     t_events tru' = t_events tru @ lost_reader r (Some f) @
       [EvUdp (c_addr (get_ch tru r)) (marshalBinary (control_packet (te_wenv env) 0 statusDisconnect))] @
       lost_reader r (Some f) @ lost_reader r (t_reader tru) @ lost_reader r (t_reader tru) \<and>
     tru_ok tru' \<and> st_destroyed (c_stat (get_ch tru' r)) \<and>
     (\<forall>a. getChannel a tru' = (if a = c_addr (get_ch tru r) then None else getChannel a tru)) \<and>
     cn_queue c' = [] \<and> conn_Write L envs b c' tru' = ((0, Some ErrChannelDestroyed), tru') \<and>
     (cn_buf c = [] \<and> \<not> cn_cont c \<longrightarrow> conn_Read n c' = Some (([], Some ErrChannelDestroyed), c'))"
proof -
  have open': "\<not> cn_closed c" using assms(3,4) by (simp add: conn_ok_def)
  have ok: "tru_ok (snd (conn_destroy L env msg r c tru))"
    by (rule conn_destroy_ok [OF assms(1,2,4) open' assms(5)])
  have c: "c_addr (channel_stop ch) = c_addr ch" "c_reader (channel_stop ch) = c_reader ch"
    "st_destroyed (c_stat (channel_stop ch))" for ch
    by (simp_all add: channel_stop_def stat_destroy_def)
  have l: "live (tell (lost_reader r (Some f)) tru) r" using assms(2) by simp
  have p: "t_events (put_ch x ch t) = t_events t" "t_events (log_msg env m t) = t_events t" 
    "t_channels (put_ch x ch t) = t_channels t" "t_channels (log_msg env m t) = t_channels t" "t_reader (tell es t) = t_reader t"
    "t_events (tell es t) = t_events t @ es" "t_channels (tell es t) = t_channels t" for x ch t m es
    by (simp_all add: put_ch_def log_msg_def tell_def)
  from ok show ?thesis
    unfolding conn_destroy_eq [OF assms(2,4) open' assms(5)] Let_def channel_Close_live [OF l]
    using assms(2,5) by (simp add: destroy_state destroy_get destroy_events_lost destroy_reader c p getChannel_def conn_Write_def conn_Read_def)
qed

lemma conn_destroyed_witness:
  "let t = put_ch 0 ((get_ch sample_tru1 0)\<lparr>c_reader := Some 4\<rparr>) sample_tru1
   in conn_Read 9 (fst (conn_destroy plain_crypto sample_tenv ''m'' 0 (sample_conn\<lparr>cn_queue := [[1, 2]]\<rparr>) t)) =
     Some (([], Some ErrChannelDestroyed), sample_conn\<lparr>cn_ch := None, cn_closed := True\<rparr>)"
proof -
  let ?t = "put_ch 0 ((get_ch sample_tru1 0)\<lparr>c_reader := Some 4\<rparr>) sample_tru1" and ?c = "sample_conn\<lparr>cn_queue := [[1, 2]]\<rparr>"
  have "channel_ok (get_ch sample_tru1 0)"
    using sample_tru1_ok make_channel_ok by simp
  then have "tru_ok ?t"
    by (rule tru_ok_put [OF sample_tru1_ok(1) keeps_reader])
  moreover have l: "live ?t 0" "conn_ok ?c" "cn_ch ?c = Some 0" "c_reader (get_ch ?t 0) = Some 4"
    using sample_tru1_ok make_channel_ok by (simp_all add: sample_conn_def conn_ok_def)
  moreover obtain c' t' where d: "conn_destroy plain_crypto sample_tenv ''m'' 0 ?c ?t = (c', t')"
    by fastforce
  moreover have "cn_buf ?c = []" "\<not> cn_cont ?c"
    by (simp_all add: sample_conn_def)
  ultimately have "conn_Read 9 c' = Some (([], Some ErrChannelDestroyed), c')"
    using conn_destroyed [of ?t 0 ?c 4, where n = 9 and L = plain_crypto and env = sample_tenv and msg = "''m''"]
    unfolding d split_conv by blast
  moreover have "c' = sample_conn\<lparr>cn_ch := None, cn_closed := True\<rparr>"
    using conn_destroy_eq [OF l(1,3) _ l(4), of plain_crypto sample_tenv "''m''"] unfolding d Let_def
    by (simp add: sample_conn_def)
  ultimately show ?thesis by (simp add: d Let_def)
qed

end
