(* ===== verification/Blocking.thy ===== *)
theory Blocking
  imports Tru_Net
begin

section \<open>Goroutines that wait for the application\<close>

text \<open>
  The channel from the listener to the reader goroutine holds \<open>chanLen\<close> messages (\<open>tru.go\<close>), and two
  callbacks of \<open>tru_net.go\<close> send on channels that hold none: \<open>Conn.reader\<close>, in the reader goroutine,
  until the application reads that connection, and \<open>Trunet.connected\<close>, in the listener, until the
  application accepts.  The steps of \<open>System\<close> with these three waits; what the application loses by
  not reading or not accepting, and that nothing is stuck when it does both.
\<close>

abbreviation chanLen :: nat where "chanLen \<equiv> 10"

subsection \<open>Steps\<close>

text \<open>
  The connector with the packet that its reader goroutine has in its hand, at \<open>conn.read.ch <-\<close> of a
  connection, and the channel that its listener offers, at \<open>t.accept <-\<close>.  Both are done with the rest
  of their turn.  A listener that waits for room has left more than \<open>chanLen\<close> messages in the queue.
\<close>

record goroutines =
  g_tru :: tru
  g_hand :: "(nat \<times> packet) option"
  g_offer :: "nat option"

datatype go_label =
    Act act
  | ReadBy nat
  | Released nat
  | Accepted nat

text \<open>The callbacks among \<open>nets\<close> are those of \<open>tru_net.go\<close>.\<close>

definition offered :: "(nat \<Rightarrow> bool) \<Rightarrow> tru \<Rightarrow> tru \<Rightarrow> nat option" where
  "offered nets tru tru' =
     (case concat (map (\<lambda>e. case e of EvConnectCb f r \<Rightarrow> if nets f then [r] else [] | _ \<Rightarrow> [])
             (drop (length (t_events tru)) (t_events tru'))) of
        [] \<Rightarrow> None
      | r # _ \<Rightarrow> Some r)"

definition in_hand :: "(nat \<Rightarrow> bool) \<Rightarrow> nat \<times> packet \<Rightarrow> tru \<Rightarrow> (nat \<times> packet) option" where
  "in_hand nets x tru =
     (let ch = get_ch tru (fst x) in
      case c_reader ch of
        Some f \<Rightarrow> if \<not> st_destroyed (c_stat ch) \<and> nets f then Some x else None
      | None \<Rightarrow> None)"

text \<open>
  A \<open>Conn.reader\<close> never says that it has processed the packet.  A destroyed channel closes the read
  channel of its connection, and the panic of the send on it is recovered.  The other goroutines are
  free, also those that would wait for a lock: this only adds runs.
\<close>

inductive go_step :: "crypto \<Rightarrow> (nat \<Rightarrow> bool) \<Rightarrow> go_label \<Rightarrow> goroutines \<Rightarrow> goroutines \<Rightarrow> bool" for L nets where
  go_listen: "g_offer g = None \<Longrightarrow> length (t_readerCh (g_tru g)) \<le> chanLen \<Longrightarrow>
    tru_act L (Received res) (g_tru g) tru' \<Longrightarrow>
    go_step L nets (Act (Received res)) g (g\<lparr>g_tru := tru', g_offer := offered nets (g_tru g) tru'\<rparr>)"
| go_reader: "g_hand g = None \<Longrightarrow> t_readerCh (g_tru g) = x # rest \<Longrightarrow> \<forall>f p. nets f \<longrightarrow> \<not> processed f p \<Longrightarrow>
    go_step L nets (Act (Took (Some x))) g
      (g\<lparr>g_tru := reader_step processed (g_tru g), g_hand := in_hand nets x (g_tru g)\<rparr>)"
| go_read: "g_hand g = Some (r, p) \<Longrightarrow> go_step L nets (ReadBy r) g (g\<lparr>g_hand := None\<rparr>)"
| go_released: "g_hand g = Some (r, p) \<Longrightarrow> st_destroyed (c_stat (get_ch (g_tru g) r)) \<Longrightarrow>
    go_step L nets (Released r) g (g\<lparr>g_hand := None\<rparr>)"
| go_accept: "g_offer g = Some r \<Longrightarrow> go_step L nets (Accepted r) g (g\<lparr>g_offer := None\<rparr>)"
| go_free: "tru_act L l (g_tru g) tru' \<Longrightarrow> \<forall>res. l \<noteq> Received res \<Longrightarrow> \<forall>x. l \<noteq> Took x \<Longrightarrow>
    go_step L nets (Act l) g (g\<lparr>g_tru := tru'\<rparr>)"

inductive_cases go_stepE: "go_step L nets l g g'"

inductive go_run :: "crypto \<Rightarrow> (nat \<Rightarrow> bool) \<Rightarrow> go_label list \<Rightarrow> goroutines \<Rightarrow> goroutines \<Rightarrow> bool" for L nets where
  run_none: "go_run L nets [] g g"
| run_step: "go_step L nets l g g' \<Longrightarrow> go_run L nets ls g' g'' \<Longrightarrow> go_run L nets (l # ls) g g''"

text \<open>Every run is one of the connector with channels that never fill.\<close>

lemma go_step_tru: "go_step L nets l g g' \<Longrightarrow> g_tru g' = g_tru g \<or> tru_step L (g_tru g) (g_tru g')"
proof (induction rule: go_step.induct)
  case (go_reader g x rest processed)
  then show ?case using step_reader [of L "g_tru g" processed] by (auto intro: tru_stepI)
qed (auto intro: tru_stepI)

lemma go_run_steps: "go_run L nets ls g g' \<Longrightarrow> tru_steps L (g_tru g) (g_tru g')"
proof (induction rule: go_run.induct)
  case (run_step l g g' ls g'')
  then show ?case using go_step_tru [OF run_step.hyps(1)] by (metis converse_rtranclp_into_rtranclp)
qed simp

subsection \<open>What is heard\<close>

text \<open>The side of a channel that only the listener changes.\<close>

definition heard :: "channel \<Rightarrow> u32 \<times> receive_queue \<times> combinePacket \<times> time" where
  "heard ch = (c_expectedID ch, c_recvQueue ch, c_combine ch, st_lastActivity (c_stat ch))"

definition deaf :: "tru \<Rightarrow> tru \<Rightarrow> bool" where
  "deaf t t' \<longleftrightarrow> map heard (t_heap t') = map heard (t_heap t) \<and> t_readerCh t' = t_readerCh t"

lemma deaf_refl [simp]: "deaf t t"
  by (simp add: deaf_def)

lemma deaf_trans: "deaf s t \<Longrightarrow> deaf t u \<Longrightarrow> deaf s u"
  by (simp add: deaf_def)

lemma deaf_frame: "t_heap t' = t_heap t \<Longrightarrow> t_readerCh t' = t_readerCh t \<Longrightarrow> deaf t t'"
  by (simp add: deaf_def)

lemma deaf_put: "heard ch = heard (get_ch t r) \<Longrightarrow> deaf t (put_ch r ch t)"
  by (cases "r < length (t_heap t)") (simp_all add: deaf_def put_ch_def map_update list_update_same_conv list_update_beyond)

lemma deaf_emit: "reads outs = [] \<Longrightarrow> deaf t (emit r outs t)"
  by (simp add: deaf_def emit_eq)

lemma deaf_op: "heard ch = heard (get_ch t r) \<Longrightarrow> reads outs = [] \<Longrightarrow> deaf t (emit r outs (put_ch r ch t))"
  by (rule deaf_trans [OF deaf_put deaf_emit])

lemma deaf_tell [simp]: "deaf t (tell es t)" "deaf t (log_msg env m t)"
  by (simp_all add: deaf_def tell_def log_msg_def)

lemma heard_stop [simp]: "heard (channel_stop ch) = heard ch"
  by (simp add: heard_def channel_stop_def stat_destroy_def)

lemma deaf_destroy: "deaf t (destroy env m r t)"
proof -
  have "deaf t (put_ch r (channel_stop (get_ch t r)) (tell (destroy_events r t) t))"
    by (rule deaf_trans [OF deaf_tell(1) deaf_put]) (simp add: tell_def)
  then show ?thesis
    by (simp add: destroy_def Let_def deaf_def log_msg_def tell_def)
qed

text \<open>No operation but \<open>serve\<close> hears anything.\<close>

definition mute :: "channel \<Rightarrow> channel \<times> out list \<Rightarrow> bool" where
  "mute ch res \<longleftrightarrow> heard (fst res) = heard ch \<and> reads (snd res) = []"

lemma mute_op: "mute (get_ch t r) (ch, out) \<Longrightarrow> deaf t (emit r out (put_ch r ch t))"
  by (simp add: mute_def deaf_op)

lemma mute_packet: "mute ch (writeTo_packet env ch i d st f tm)"
  by (simp add: mute_def writeTo_packet_def heard_def Let_def stat_updates)

lemma heard_prelude: "heard (snd (writeToDelay env st ch)) = heard ch" "heard (snd (newID ch)) = heard ch"
  by (simp_all add: heard_def writeToDelay_def newID_def Let_def stat_updates)

lemma mute_writeTo: "mute ch (snd (writeTo L env ch d st ds is))"
proof -
  let ?ch = "snd (writeToDelay env (st AND NOT statusSplit) ch)"
  have "mute ch (writeTo_packet env ?ch i d' st f tm)" "mute ch (writeTo_packet env (snd (newID ?ch)) i d' st f tm)" for i d' f tm
    using mute_packet [of ?ch env] mute_packet [of "snd (newID ?ch)" env] by (simp_all add: mute_def heard_prelude)
  then show ?thesis
    unfolding writeTo_def Let_def split_def by (auto simp: mute_def heard_prelude split: sum.split)
qed

lemma mute_WriteTo: "mute ch (snd (channel_WriteTo L envs ch data ds))"
proof -
  let ?P = "\<lambda>st :: channel \<times> out list \<times> nat. mute ch (fst st, fst (snd st))"
  have "?P (snd (split_loop (channel_writer L envs ds) m 0 0 data (ch, [], 0)))" for m
  proof (rule split_loop_keeps [where P = ?P])
    fix d sp and st :: "channel \<times> out list \<times> nat"
    assume "?P st"
    then show "?P (snd (channel_writer L envs ds d sp st))"
      using mute_writeTo [of "fst st" L "envs (snd (snd st))" d "statusData OR sp" ds "[]"]
      by (simp add: channel_writer_def split_def mute_def)
  qed (simp add: mute_def)
  then show ?thesis
    by (simp add: channel_WriteTo_def splitPacket_def split_def)
qed

lemma mute_control: "mute ch (snd (writeToPing L env ch))" "mute ch (snd (writeToDisconnect L env ch))"
  by (simp_all only: writeToPing_def writeToDisconnect_def mute_writeTo)

lemma heard_stat [simp]:
  "st_lastActivity s = st_lastActivity (c_stat ch) \<Longrightarrow> heard (ch\<lparr>c_stat := s\<rparr>) = heard ch"
  "heard (ch\<lparr>c_sendQueue := q\<rparr>) = heard ch" "heard (ch\<lparr>c_reader := f\<rparr>) = heard ch"
  by (simp_all add: heard_def)

lemma mute_retransmit: "channel_retransmit now ch = (ch', out, dead) \<Longrightarrow> mute ch (ch', out)"
proof -
  have "st_lastActivity (fold (\<lambda>_. stat_setRetransmit) ps s) = st_lastActivity s" for ps :: "packet list" and s
    by (induction ps arbitrary: s) (simp_all add: stat_updates)
  then show "channel_retransmit now ch = (ch', out, dead) \<Longrightarrow> mute ch (ch', out)"
    by (auto simp: channel_retransmit_def mute_def heard_def Let_def split: prod.splits)
qed

lemma mute_delivery: "mute ch (delivery_timer now e ch)"
  by (simp add: mute_def delivery_timer_def Let_def split: option.split timer.split)

lemma mute_late: "mute ch (late_delivery now i ch)"
  by (simp add: mute_def late_delivery_def heard_def Let_def split: option.split timer.split)

lemma deaf_activity: "deaf t (activity_timer L env r t)"
proof -
  obtain res ch out where w: "writeToPing L (te_wenv env) (get_ch t r) = (res, ch, out)"
    by (metis prod.collapse)
  then have ping: "deaf t (emit r out (put_ch r ch t))"
    using mute_control(1) [of "get_ch t r" L "te_wenv env"] by (simp add: mute_op)
  have arm: "deaf t (put_ch r ((get_ch u r)\<lparr>c_stat := stat_armActivity now (c_stat (get_ch u r))\<rparr>) u)" if "deaf t u" for u now
    by (rule deaf_trans [OF that deaf_put]) (simp add: stat_updates)
  show ?thesis
    using arm [OF deaf_refl] arm [OF ping] deaf_destroy w
    unfolding activity_timer_def Let_def by (cases "stat_activity (te_now env) (c_stat (get_ch t r))") (simp_all del: get_put)
qed

lemma deaf_retransmit: "deaf t (retransmit_timer env r t)"
proof -
  obtain ch out dead where c: "channel_retransmit (te_now env) (get_ch t r) = (ch, out, dead)"
    by (metis prod.collapse)
  then show ?thesis
    using mute_op [OF mute_retransmit [OF c]] deaf_trans [OF _ deaf_destroy] by (auto simp: retransmit_timer_def Let_def)
qed

lemma deaf_Close: "deaf t (channel_Close L env r t)"
proof -
  obtain res ch out where w: "writeToDisconnect L (te_wenv env) (get_ch t r) = (res, ch, out)"
    by (metis prod.collapse)
  then have "deaf t (emit r out (put_ch r ch t))"
    using mute_control(2) [of "get_ch t r" L "te_wenv env"] by (simp add: mute_op)
  then show ?thesis
    using w deaf_trans [OF _ deaf_destroy] by (simp add: channel_Close_def Let_def)
qed

lemma deaf_each: "deaf t (each_channel (channel_Close L env) a t)"
  by (simp add: each_channel_def deaf_Close split: option.split)

lemma deaf_close_parts: "deaf t (close_begin t)" "deaf t (close_end t)"
  by (auto simp: close_begin_def close_end_def StatisticPrintStop_def stopListen_def tell_def intro!: deaf_frame split: option.split)

lemma deaf_Connect: "deaf t (snd (Connect_start L env u addr t))" "deaf t (snd (Connect_finish reader res t))"
proof -
  obtain k t1 where 1: "newCrypt env t = (k, t1)" by fastforce
  have t1: "t_heap t1 = t_heap t" "t_readerCh t1 = t_readerCh t"
    by (subst newCrypt_frame [OF 1], simp)+
  have "t_heap (connect_add u c) = t_heap c" "t_readerCh (connect_add u c) = t_readerCh c"
    "t_heap (connect_close u c) = t_heap c" "t_readerCh (connect_close u c) = t_readerCh c"
    "t_heap (connect_delete u c) = t_heap c" "t_readerCh (connect_delete u c) = t_readerCh c" for c
    by (simp_all add: connect_add_def connect_close_def connect_delete_def connect_put_def split: option.split)
  with 1 t1 show "deaf t (snd (Connect_start L env u addr t))"
    by (auto simp: Connect_start_def Let_def deaf_def tell_def split: sum.split option.split)
  show "deaf t (snd (Connect_finish reader res t))"
    by (auto simp: Connect_finish_def intro: deaf_put split: connect_result.split option.split)
qed

lemma deaf_act:
  assumes "tru_act L l t t'" "\<forall>res. l \<noteq> Received res" "\<forall>x. l \<noteq> Took x"
  shows "deaf t t'"
  using assms(1)
proof cases
  case (step_sender)
  then show ?thesis
    by (auto intro!: deaf_frame simp: sender_step_def Let_def tell_def split: list.split)
next
  case (step_delivery r env e)
  then show ?thesis
    using mute_op mute_delivery by (simp add: delivery_step_def split_def Let_def)
next
  case (step_late_delivery r env i)
  then show ?thesis
    using mute_op mute_late by (simp add: late_delivery_step_def split_def Let_def)
next
  case (step_rearm r now k)
  then show ?thesis by (cases k) (auto intro: deaf_put simp: stat_updates)
next
  case (step_write r envs ds data)
  then show ?thesis
    using mute_op mute_WriteTo by (simp add: tru_channel_WriteTo_def split_def Let_def)
next
  case (step_connect_close uuid)
  then show ?thesis
    by (auto intro!: deaf_frame simp: connect_close_def connect_put_def split: option.split)
next
  case (step_raw data resolve addri)
  then show ?thesis
    by (auto simp: tru_WriteTo_def split: addr_arg.split option.split)
qed (use assms(2,3) in \<open>auto simp: deaf_activity deaf_retransmit deaf_Close deaf_each deaf_close_parts deaf_Connect setReader_def
    send_speed_timer_def recv_speed_timer_def connect_delete_def SetMaxDataLen_def SetSendDelay_def SetPunchCb_def
    StatisticPrint_def StatisticPrintStop_def StatisticMinilog_def Let_def split_def intro: deaf_put deaf_frame\<close>)

subsection \<open>Waiting for ever\<close>

lemma offer_step:
  assumes "go_step L nets l g g'" "g_offer g = Some x" "\<forall>y. l \<noteq> Accepted y"
  shows "g_offer g' = Some x \<and> map heard (t_heap (g_tru g')) = map heard (t_heap (g_tru g)) \<and> (\<forall>res. l \<noteq> Act (Received res))"
  using assms(1)
proof cases
  case (go_reader y rest processed)
  moreover have "t_heap (reader_step processed t) = t_heap t" for t
    by (auto simp: reader_step_def Let_def tell_def split: list.split)
  ultimately show ?thesis using assms(2) by simp
qed (use assms deaf_act in \<open>auto simp: deaf_def\<close>)

lemma offer_run:
  assumes "go_run L nets ls g g'" "g_offer g = Some x" "\<forall>y. Accepted y \<notin> set ls"
  shows "map heard (t_heap (g_tru g')) = map heard (t_heap (g_tru g)) \<and> (\<forall>res. Act (Received res) \<notin> set ls)"
  using assms
proof (induction rule: go_run.induct)
  case (run_step l g g' ls g'')
  then have "g_offer g' = Some x \<and> map heard (t_heap (g_tru g')) = map heard (t_heap (g_tru g)) \<and> (\<forall>res. l \<noteq> Act (Received res))"
    by (intro offer_step [OF run_step.hyps(1)]) auto
  then show ?case using run_step by auto
qed simp

lemma hand_step:
  assumes "go_step L nets l g g'" "g_hand g = Some (r, p)" "chanLen < length (t_readerCh (g_tru g))" "l \<noteq> ReadBy r"
    "\<not> st_destroyed (c_stat (get_ch (g_tru g) r))"
  shows "g_hand g' = Some (r, p) \<and> deaf (g_tru g) (g_tru g') \<and> (\<forall>res. l \<noteq> Act (Received res))"
  using assms(1) by cases (use assms deaf_act in auto)

lemma hand_run:
  assumes "go_run L nets ls g g'" "hash_laws L" "tru_ok (g_tru g)" "g_hand g = Some (r, p)" "r < length (t_heap (g_tru g))"
    "chanLen < length (t_readerCh (g_tru g))" "ReadBy r \<notin> set ls" "\<not> st_destroyed (c_stat (get_ch (g_tru g') r))"
  shows "deaf (g_tru g) (g_tru g') \<and> (\<forall>res. Act (Received res) \<notin> set ls)"
  using assms
proof (induction rule: go_run.induct)
  case (run_step l g g' ls g'')
  have 1: "evolves (g_tru g) (g_tru g')"
    by (rule tru_steps_evolves [OF go_run_steps [OF go_run.run_step [OF run_step.hyps(1) run_none]] run_step.prems(1,2)])
  have 2: "evolves (g_tru g) (g_tru g'')"
    by (rule tru_steps_evolves [OF go_run_steps [OF go_run.run_step [OF run_step.hyps]] run_step.prems(1,2)])
  note g' = evolvesD(1) [OF 1] evolvesD(3) [OF 1 run_step.prems(4)]
  have live: "\<not> st_destroyed (c_stat (get_ch (g_tru g) r))"
    using 2 run_step.prems(4,7) by (auto simp: evolves_def)
  have "g_hand g' = Some (r, p) \<and> deaf (g_tru g) (g_tru g') \<and> (\<forall>res. l \<noteq> Act (Received res))"
    using run_step.prems by (intro hand_step [OF run_step.hyps(1) _ _ _ live]) auto
  moreover from this have "deaf (g_tru g') (g_tru g'') \<and> (\<forall>res. Act (Received res) \<notin> set ls)"
    using run_step.prems by (intro run_step.IH g') (auto simp: deaf_def)
  ultimately show ?case
    using deaf_trans by auto
qed simp

subsection \<open>Going on\<close>

definition took :: "go_label list \<Rightarrow> (nat \<times> packet) list" where
  "took ls = concat (map (\<lambda>l. case l of Act (Took (Some x)) \<Rightarrow> [x] | _ \<Rightarrow> []) ls)"

text \<open>What the application and the reader goroutine do.\<close>

definition attending :: "go_label \<Rightarrow> bool" where
  "attending l \<longleftrightarrow> (\<exists>r. l = ReadBy r \<or> l = Accepted r) \<or> (\<exists>x. l = Act (Took (Some x)))"

lemma go_run_append: "go_run L nets ls g g' \<Longrightarrow> go_run L nets ls' g' g'' \<Longrightarrow> go_run L nets (ls @ ls') g g''"
  by (induction rule: go_run.induct) (auto intro: run_step)

lemma took_append [simp]: "took (ls @ ls') = took ls @ took ls'"
  by (simp add: took_def)

lemma hand_empties:
  "\<exists>ls g'. go_run L nets ls g g' \<and> took ls = [] \<and> (\<forall>l\<in>set ls. attending l) \<and> g_tru g' = g_tru g \<and>
     g_hand g' = None \<and> g_offer g' = g_offer g"
proof (cases "g_hand g")
  case None
  then show ?thesis by (intro exI [of _ "[]"] exI [of _ g]) (simp add: run_none took_def)
next
  case (Some x)
  then have "go_run L nets [ReadBy (fst x)] g (g\<lparr>g_hand := None\<rparr>)"
    by (intro run_step [OF go_read [where p = "snd x"] run_none]) simp
  then show ?thesis
    by (intro exI [of _ "[ReadBy (fst x)]"] exI [of _ "g\<lparr>g_hand := None\<rparr>"]) (simp add: took_def attending_def)
qed

lemma queue_empties:
  "t_readerCh (g_tru g) = xs \<Longrightarrow>
   \<exists>ls g'. go_run L nets ls g g' \<and> took ls = xs \<and> (\<forall>l\<in>set ls. attending l) \<and> t_readerCh (g_tru g') = [] \<and>
     t_heap (g_tru g') = t_heap (g_tru g) \<and> t_channels (g_tru g') = t_channels (g_tru g) \<and> g_offer g' = g_offer g"
proof (induction xs arbitrary: g)
  case Nil
  then show ?case by (intro exI [of _ "[]"] exI [of _ g]) (simp add: run_none took_def)
next
  case (Cons x xs)
  obtain ls1 g1 where 1: "go_run L nets ls1 g g1" "took ls1 = []" "\<forall>l\<in>set ls1. attending l" "g_tru g1 = g_tru g"
    "g_hand g1 = None" "g_offer g1 = g_offer g"
    using hand_empties by blast
  define g2 where "g2 = g1\<lparr>g_tru := reader_step (\<lambda>_ _. False) (g_tru g1), g_hand := in_hand nets x (g_tru g1)\<rparr>"
  have 2: "go_run L nets [Act (Took (Some x))] g1 g2"
    unfolding g2_def using 1 Cons.prems by (intro run_step [OF go_reader run_none]) auto
  have t2: "t_readerCh (g_tru g2) = xs" "t_heap (g_tru g2) = t_heap (g_tru g)" "t_channels (g_tru g2) = t_channels (g_tru g)"
    using 1(4) Cons.prems by (cases x; simp add: g2_def reader_step_def Let_def tell_def)+
  from Cons.IH [OF t2(1)] obtain ls3 g3 where 3: "go_run L nets ls3 g2 g3" "took ls3 = xs" "\<forall>l\<in>set ls3. attending l"
    "t_readerCh (g_tru g3) = []" "t_heap (g_tru g3) = t_heap (g_tru g2)" "t_channels (g_tru g3) = t_channels (g_tru g2)"
    "g_offer g3 = g_offer g2"
    by blast
  have "go_run L nets (ls1 @ [Act (Took (Some x))] @ ls3) g g3"
    using go_run_append 1(1) 2 3(1) by metis
  moreover have "took (ls1 @ [Act (Took (Some x))] @ ls3) = x # xs"
    using 1(2) 3(2) by (simp add: took_def)
  ultimately show ?case
    using 1(3,6) 3 t2
    by (intro exI [of _ "ls1 @ [Act (Took (Some x))] @ ls3"] exI [of _ g3]) (auto simp: attending_def g2_def)
qed

lemma offer_ends:
  "\<exists>ls g'. go_run L nets ls g g' \<and> took ls = [] \<and> (\<forall>l\<in>set ls. attending l) \<and> g_tru g' = g_tru g \<and> g_offer g' = None"
proof (cases "g_offer g")
  case None
  then show ?thesis by (intro exI [of _ "[]"] exI [of _ g]) (simp add: run_none took_def)
next
  case (Some r)
  then have "go_run L nets [Accepted r] g (g\<lparr>g_offer := None\<rparr>)"
    by (intro run_step [OF go_accept run_none])
  then show ?thesis
    by (intro exI [of _ "[Accepted r]"] exI [of _ "g\<lparr>g_offer := None\<rparr>"]) (simp add: took_def attending_def)
qed

lemma activity_inactive:
  assumes "live t x" "st_lastActivity (c_stat (get_ch t x)) + 6 * second < te_now env"
  shows "st_destroyed (c_stat (get_ch (activity_timer L env x t) x))"
proof -
  have "stat_activity (te_now env) (c_stat (get_ch t x)) = Inactive"
    using assms(2) by (simp add: stat_activity_iff)
  then show ?thesis
    using assms(1) by (simp add: activity_timer_def Let_def destroy_get channel_stop_def stat_destroy_def)
qed

subsection \<open>Properties\<close>

text \<open>
  A process that has only dialled: nobody reads the accept channel that its connector's callback
  sends on.  The connect datagram of another such process comes from the address \<open>x\<close>.
\<close>

definition dialling :: tru where
  "dialling =
     (case snd (Dial_start plain_crypto \<lparr>bd_truDebug = False, bd_truStat = False\<rparr> sample_tenv (\<lambda>_. True) 1 [7] (Some ''s'') None) of
        Some tru \<Rightarrow> tru
      | None \<Rightarrow> tru_zero)"

definition a_connect :: bytes where
  "a_connect = (case t_events dialling of EvUdp _ bs # _ \<Rightarrow> bs | _ \<Rightarrow> [])"

definition reached :: goroutines where
  "reached =
     (let tru = serve plain_crypto sample_tenv ''x'' a_connect dialling
      in \<lparr>g_tru = tru, g_hand = None, g_offer = offered (\<lambda>f. f = 1) dialling tru\<rparr>)"

lemma dialling_state:
  "t_readerCh dialling = []" "tru_ok dialling" "t_listening dialling" "a_connect \<noteq> []" "length a_connect \<le> 400"
proof -
  have "t_readerCh dialling = [] \<and> t_heap dialling = [] \<and> t_channels dialling = [] \<and> t_senderCh dialling = [] \<and>
      t_connects dialling = [([7], \<lparr>cd_uuid = [7], cd_wch = WWaiting, cd_ch = None\<rparr>)] \<and> t_listening dialling \<and> a_connect \<noteq> [] \<and> length a_connect \<le> 400"
    by code_simp
  then show "t_readerCh dialling = []" "tru_ok dialling" "t_listening dialling" "a_connect \<noteq> []" "length a_connect \<le> 400"
    by (simp_all add: tru_ok_def)
qed

lemma reached_state:
  "g_offer reached = Some 0" "length (t_heap (g_tru reached)) = 1" "st_lastActivity (c_stat (get_ch (g_tru reached) 0)) = second"
  "\<not> st_destroyed (c_stat (get_ch (g_tru reached) 0))" "t_readerCh (g_tru reached) = []"
proof -
  have "(let t = serve plain_crypto sample_tenv ''x'' a_connect dialling in
      (offered (\<lambda>f. f = 1) dialling t, length (t_heap t), st_lastActivity (c_stat (get_ch t 0)),
        st_destroyed (c_stat (get_ch t 0)), t_readerCh t = [])) = (Some 0, 1, second, False, True)"
    by code_simp
  then show "g_offer reached = Some 0" "length (t_heap (g_tru reached)) = 1" "st_lastActivity (c_stat (get_ch (g_tru reached) 0)) = second"
    "\<not> st_destroyed (c_stat (get_ch (g_tru reached) 0))" "t_readerCh (g_tru reached) = []"
    by (simp_all add: reached_def Let_def)
qed

lemma reached_run:
  "go_run plain_crypto (\<lambda>f. f = 1) [Act (Received (ReadData ''x'' a_connect))] \<lparr>g_tru = dialling, g_hand = None, g_offer = None\<rparr> reached"
  "tru_ok (g_tru reached)"
proof -
  have t: "listen_turn plain_crypto sample_tenv (ReadData ''x'' a_connect) dialling = Some (g_tru reached)"
    using dialling_state(3-5) by (simp add: listen_turn_def reached_def Let_def)
  show "go_run plain_crypto (\<lambda>f. f = 1) [Act (Received (ReadData ''x'' a_connect))] \<lparr>g_tru = dialling, g_hand = None, g_offer = None\<rparr> reached"
    using go_listen [where tru' = "g_tru reached" and res = "ReadData ''x'' a_connect" and L = plain_crypto and nets = "\<lambda>f. f = 1" and g = "\<lparr>g_tru = dialling, g_hand = None, g_offer = None\<rparr>"]
      step_listen [OF t] by (intro run_step [OF _ run_none]) (simp add: reached_def Let_def dialling_state(1))
  show "tru_ok (g_tru reached)"
    using listen_turn_ok [OF dialling_state(2) _ t] plain_crypto_laws evolvesD(1) by (auto simp: crypto_laws_def)
qed

text \<open>
  C21: What an application loses that does not attend to its connections. Let the listener offer
  a new channel that nobody accepts, or let the reader goroutine hold a message for a connection
  that nobody reads while more than ten others wait behind it. Then, whatever the timers, the
  sender and the application do on any channel until it accepts, or until it reads that
  connection or the connection is destroyed, no datagram is served for any channel: no channel
  expects, keeps or combines anything more or counts as active, none is added, and the activity
  timer of every channel that is silent for six seconds destroys it, although its peer is there
  and sends.
\<close>

lemma unattended:
  assumes "go_run L nets ls g g'" "hash_laws L" "tru_ok (g_tru g)"
    and "(\<exists>x. g_offer g = Some x \<and> (\<forall>y. Accepted y \<notin> set ls)) \<or>
      (\<exists>r p. g_hand g = Some (r, p) \<and> chanLen < length (t_readerCh (g_tru g)) \<and> r < length (t_heap (g_tru g)) \<and>
        ReadBy r \<notin> set ls \<and> \<not> st_destroyed (c_stat (get_ch (g_tru g') r)))"
  shows "(\<forall>res. Act (Received res) \<notin> set ls) \<and>
     map heard (t_heap (g_tru g')) = map heard (t_heap (g_tru g)) \<and>
     (\<forall>x env. live (g_tru g') x \<and> st_lastActivity (c_stat (get_ch (g_tru g) x)) + 6 * second < te_now env \<longrightarrow>
        st_destroyed (c_stat (get_ch (activity_timer L env x (g_tru g')) x)))"
proof -
  have quiet: "map heard (t_heap (g_tru g')) = map heard (t_heap (g_tru g))" "\<forall>res. Act (Received res) \<notin> set ls"
    using assms(4) offer_run [OF assms(1)] hand_run [OF assms(1-3)] by (auto simp: deaf_def)
  have "st_destroyed (c_stat (get_ch (activity_timer L env x (g_tru g')) x))"
    if x: "live (g_tru g') x" "st_lastActivity (c_stat (get_ch (g_tru g) x)) + 6 * second < te_now env" for x env
  proof -
    have "heard (get_ch (g_tru g') x) = heard (get_ch (g_tru g) x)"
      using x(1) quiet(1) by (metis length_map nth_map)
    then have "st_lastActivity (c_stat (get_ch (g_tru g') x)) + 6 * second < te_now env"
      using x(2) by (simp add: heard_def)
    then show ?thesis
      using activity_inactive [OF x(1)] by blast
  qed
  with quiet show ?thesis by blast
qed

lemma unattended_witness:
  "st_destroyed (c_stat (get_ch (activity_timer plain_crypto (sample_tenv\<lparr>te_now := 60 * second\<rparr>) 0
     (sender_step (g_tru reached))) 0))"
proof -
  have run: "go_run plain_crypto (\<lambda>f. f = 1) [Act Internal] reached (reached\<lparr>g_tru := sender_step (g_tru reached)\<rparr>)"
    by (intro run_step [OF go_free [OF step_sender] run_none]) simp_all
  have "t_heap (sender_step t) = t_heap t" for t
    by (auto simp: sender_step_def Let_def tell_def split: list.split)
  moreover have "hash_laws plain_crypto" using plain_crypto_laws by (simp add: crypto_laws_def)
  ultimately show ?thesis
    using unattended [OF run _ reached_run(2)] reached_state by simp
qed

text \<open>
  C22: An application that attends to its connections is served again. From any state of the
  goroutines, when the application accepts the channel that is offered and reads the connections
  that the reader goroutine comes to, the reader takes all the messages that wait, in their
  order and without touching any channel, and the listener serves whatever datagram comes next;
  every such run is a run of the connector whose channels never fill, so what holds of those
  holds here.
\<close>

lemma attended:
  "\<exists>ls g'. go_run L nets ls g g' \<and> (\<forall>l\<in>set ls. attending l) \<and> took ls = t_readerCh (g_tru g) \<and> tru_steps L (g_tru g) (g_tru g') \<and>
     t_heap (g_tru g') = t_heap (g_tru g) \<and> t_channels (g_tru g') = t_channels (g_tru g) \<and>
     (\<forall>env res tru'. listen_turn L env res (g_tru g') = Some tru' \<longrightarrow>
        (\<exists>g''. go_step L nets (Act (Received res)) g' g'' \<and> g_tru g'' = tru'))"
proof -
  obtain ls1 g1 where 1: "go_run L nets ls1 g g1" "took ls1 = []" "\<forall>l\<in>set ls1. attending l" "g_tru g1 = g_tru g" "g_offer g1 = None"
    using offer_ends by blast
  obtain ls2 g2 where 2: "go_run L nets ls2 g1 g2" "took ls2 = t_readerCh (g_tru g)" "\<forall>l\<in>set ls2. attending l"
    "t_readerCh (g_tru g2) = []" "t_heap (g_tru g2) = t_heap (g_tru g)" "t_channels (g_tru g2) = t_channels (g_tru g)" "g_offer g2 = None"
    using queue_empties [where g = g1 and L = L and nets = nets and xs = "t_readerCh (g_tru g)"] 1(4,5) by (metis (no_types))
  have run: "go_run L nets (ls1 @ ls2) g g2" by (rule go_run_append [OF 1(1) 2(1)])
  have "\<exists>g''. go_step L nets (Act (Received res)) g2 g'' \<and> g_tru g'' = tru'"
    if "listen_turn L env res (g_tru g2) = Some tru'" for env res tru'
    using go_listen [OF 2(7) _ step_listen [OF that], where nets = nets] 2(4) by fastforce
  then show ?thesis
    using run go_run_steps [OF run] 1 2 by (intro exI [of _ "ls1 @ ls2"] exI [of _ g2]) auto
qed

lemma attended_witness:
  "\<exists>ls g'. go_run plain_crypto (\<lambda>f. f = 1) ls reached g' \<and> (\<forall>l\<in>set ls. attending l) \<and> took ls = [] \<and>
     t_heap (g_tru g') = t_heap (g_tru reached)"
  using attended [of plain_crypto "\<lambda>f. f = 1" reached] reached_state(5) by metis

end
