(* ===== verification/Progress.thy ===== *)
theory Progress
  imports Network Blocking
begin

section \<open>Two connectors make progress\<close>

text \<open>
  A session of two whole connectors can be completed while the Go channels are bounded and the
  goroutines wait: from every state that a session can reach there are turns of the goroutines, the
  timers and the listeners of the two hosts, and of applications that accept and read, after which
  the writer's send queue is empty and the other application has been handed every message.
\<close>

subsection \<open>Hosts whose goroutines wait\<close>

text \<open>A host with the packet that its reader goroutine has in its hand and the channel that its listener offers.\<close>

record node =
  n_host :: host
  n_hand :: "(nat \<times> packet) option"
  n_offer :: "nat option"

abbreviation n_tru :: "node \<Rightarrow> tru" where "n_tru n \<equiv> h_tru (n_host n)"

definition goroutines_of :: "node \<Rightarrow> goroutines" where
  "goroutines_of n = \<lparr>g_tru = n_tru n, g_hand = n_hand n, g_offer = n_offer n\<rparr>"

definition node_step :: "node \<Rightarrow> go_label \<Rightarrow> goroutines \<Rightarrow> node" where
  "node_step n lab g =
     \<lparr>n_host = (case lab of Act l \<Rightarrow> host_step (n_host n) l (g_tru g) | _ \<Rightarrow> n_host n),
      n_hand = g_hand g, n_offer = g_offer g\<rparr>"

lemma goroutines_of_sel [simp]:
  "g_tru (goroutines_of n) = n_tru n" "g_hand (goroutines_of n) = n_hand n" "g_offer (goroutines_of n) = n_offer n"
  by (simp_all add: goroutines_of_def)

lemma node_step_sel [simp]:
  "n_hand (node_step n lab g) = g_hand g" "n_offer (node_step n lab g) = g_offer g"
  "n_host (node_step n (Act l) g) = host_step (n_host n) l (g_tru g)"
  "n_host (node_step n (ReadBy r) g) = n_host n" "n_host (node_step n (Accepted r) g) = n_host n"
  by (simp_all add: node_step_def)

text \<open>
  What can go on while a goroutine waits.  A listener that offers a channel holds the connector's lock
  (\<open>channel.go\<close>, \<open>newChannel\<close>), so nothing of the host goes on before the application accepts.  The
  channel to the sender goroutine holds \<open>chanLen\<close> packets too: whoever has sent more of them waits, a
  retransmission with the lock of its send queue, and nothing goes on but the sender and the reader
  goroutine and the application.
\<close>

definition unheld :: "goroutines \<Rightarrow> go_label \<Rightarrow> goroutines \<Rightarrow> bool" where
  "unheld g lab g' \<longleftrightarrow> (g_offer g \<noteq> None \<longrightarrow> (\<exists>r. lab = Accepted r)) \<and>
     (chanLen < length (t_senderCh (g_tru g)) \<longrightarrow> attending lab \<or> (lab = Act Internal \<and> g_tru g' = sender_step (g_tru g)))"

text \<open>A turn of the host at \<open>x\<close>, whose peer is \<open>oh\<close> at \<open>y\<close>.\<close>

definition node_turn :: "crypto \<Rightarrow> (nat \<Rightarrow> bool) \<Rightarrow> string \<Rightarrow> string \<Rightarrow> host \<Rightarrow> node \<Rightarrow> node \<Rightarrow> bool" where
  "node_turn L nets x y oh n n' \<longleftrightarrow>
     (\<exists>lab g. go_step L nets lab (goroutines_of n) g \<and> unheld (goroutines_of n) lab g \<and>
        (\<forall>l. lab = Act l \<longrightarrow> allowed x y (h_tru oh) l) \<and> n' = node_step n lab g)"

inductive go_net ::
  "crypto \<Rightarrow> (nat \<Rightarrow> bool) \<Rightarrow> (nat \<Rightarrow> bool) \<Rightarrow> string \<Rightarrow> string \<Rightarrow> node \<times> node \<Rightarrow> node \<times> node \<Rightarrow> bool" for L nets nets' x y where
  go_left: "node_turn L nets x y (n_host B) A A' \<Longrightarrow> go_net L nets nets' x y (A, B) (A', B)"
| go_right: "node_turn L nets' y x (n_host A) B B' \<Longrightarrow> go_net L nets nets' x y (A, B) (A, B')"

inductive_cases go_netE: "go_net L nets nets' x y AB AB'"

abbreviation go_nets ::
  "crypto \<Rightarrow> (nat \<Rightarrow> bool) \<Rightarrow> (nat \<Rightarrow> bool) \<Rightarrow> string \<Rightarrow> string \<Rightarrow> node \<times> node \<Rightarrow> node \<times> node \<Rightarrow> bool" where
  "go_nets L nets nets' x y \<equiv> (go_net L nets nets' x y)\<^sup>*\<^sup>*"

text \<open>Every turn is one of the host whose channels never fill, or none.\<close>

lemma node_turn_host:
  assumes "node_turn L nets x y oh n n'"
  shows "n_host n' = n_host n \<or>
    (\<exists>l t. tru_act L l (n_tru n) t \<and> allowed x y (h_tru oh) l \<and> n_host n' = host_step (n_host n) l t)"
proof -
  obtain lab g where lab: "go_step L nets lab (goroutines_of n) g" "\<forall>l. lab = Act l \<longrightarrow> allowed x y (h_tru oh) l"
    "n' = node_step n lab g"
    using assms by (auto simp: node_turn_def)
  from lab(1) show ?thesis
  proof cases
    case (go_reader z rest processed)
    then have "tru_act L (Took (Some z)) (n_tru n) (g_tru g)"
      using step_reader [of L "n_tru n" processed] by simp
    moreover have "allowed x y (h_tru oh) (Took (Some z))" "n_host n' = host_step (n_host n) (Took (Some z)) (g_tru g)"
      using lab(2,3) go_reader(1) by simp_all
    ultimately show ?thesis by blast
  qed (use lab(2,3) in \<open>auto simp: node_step_def\<close>)
qed

lemma go_nets_hosts:
  assumes "go_nets L nets nets' x y (A, B) (A', B')"
  shows "net_steps L x y (n_host A, n_host B) (n_host A', n_host B')"
  using assms
proof (induction rule: rtranclp_induct2)
  case (step A1 B1 A2 B2)
  from step.hyps(2) have "net_steps L x y (n_host A1, n_host B1) (n_host A2, n_host B2)"
  proof cases
    case go_left
    then show ?thesis using node_turn_host [of L nets x y "n_host B1" A1 A2] net_left by (cases "n_host A2 = n_host A1") auto
  next
    case go_right
    then show ?thesis using node_turn_host [of L nets' y x "n_host A1" B1 B2] net_right by (cases "n_host B2 = n_host B1") auto
  qed
  with step.IH show ?case by (rule rtranclp_trans)
qed simp

subsection \<open>Turns of one host\<close>

text \<open>The host moves while the other one waits; its application does not write.\<close>

definition moves :: "crypto \<Rightarrow> (nat \<Rightarrow> bool) \<Rightarrow> string \<Rightarrow> string \<Rightarrow> host \<Rightarrow> node \<Rightarrow> node \<Rightarrow> bool" where
  "moves L nets x y oh n n' \<longleftrightarrow> (node_turn L nets x y oh)\<^sup>*\<^sup>* n n' \<and> (\<forall>z. written z (n_host n') = written z (n_host n)) \<and>
     set (t_events (n_tru n)) \<subseteq> set (t_events (n_tru n'))"

lemma moves_refl: "moves L nets x y oh n n"
  by (simp add: moves_def)

lemma moves_trans: "moves L nets x y oh n n' \<Longrightarrow> moves L nets x y oh n' n'' \<Longrightarrow> moves L nets x y oh n n''"
  unfolding moves_def by (auto intro: rtranclp_trans)

lemma moves_act:
  assumes "go_step L nets (Act l) (goroutines_of n) g" "unheld (goroutines_of n) (Act l) g"
    and "allowed x y (h_tru oh) l" "\<And>z. act_writes z l = []" "set (t_events (n_tru n)) \<subseteq> set (t_events (g_tru g))"
  shows "moves L nets x y oh n (node_step n (Act l) g)"
proof -
  have "node_turn L nets x y oh n (node_step n (Act l) g)"
    using assms(1-3) unfolding node_turn_def by blast
  then show ?thesis using assms(4,5) by (auto simp: moves_def)
qed

lemma moves_left: "moves L nets x y (n_host B) A A' \<Longrightarrow> go_nets L nets nets' x y (A, B) (A', B)"
proof -
  have "(node_turn L nets x y (n_host B))\<^sup>*\<^sup>* A A' \<Longrightarrow> go_nets L nets nets' x y (A, B) (A', B)"
    by (induction rule: rtranclp_induct) (auto intro: go_left rtranclp.rtrancl_into_rtrancl)
  then show "moves L nets x y (n_host B) A A' \<Longrightarrow> go_nets L nets nets' x y (A, B) (A', B)"
    by (simp add: moves_def)
qed

lemma moves_right: "moves L nets' y x (n_host A) B B' \<Longrightarrow> go_nets L nets nets' x y (A, B) (A, B')"
proof -
  have "(node_turn L nets' y x (n_host A))\<^sup>*\<^sup>* B B' \<Longrightarrow> go_nets L nets nets' x y (A, B) (A, B')"
    by (induction rule: rtranclp_induct) (auto intro: go_right rtranclp.rtrancl_into_rtrancl)
  then show "moves L nets' y x (n_host A) B B' \<Longrightarrow> go_nets L nets nets' x y (A, B) (A, B')"
    by (simp add: moves_def)
qed

text \<open>The hosts of a move, for the invariants of the network.\<close>

lemma moves_host:
  assumes "moves L nets x y oh A A'"
  shows "net_steps L x y (n_host A, oh) (n_host A', oh)"
proof -
  let ?B = "\<lparr>n_host = oh, n_hand = None, n_offer = None\<rparr>"
  have "go_nets L nets nets x y (A, ?B) (A', ?B)" by (rule moves_left) (simp add: assms)
  from go_nets_hosts [OF this] show ?thesis by simp
qed

subsection \<open>The goroutines empty their queues\<close>

definition core :: "tru \<Rightarrow> channel list \<times> (string \<times> nat) list \<times> bool" where
  "core t = (t_heap t, t_channels t, t_listening t)"

text \<open>No goroutine of the host waits, and none has anything to do.\<close>

definition idle :: "node \<Rightarrow> bool" where
  "idle n \<longleftrightarrow> t_senderCh (n_tru n) = [] \<and> t_readerCh (n_tru n) = [] \<and> n_hand n = None \<and> n_offer n = None"

text \<open>The host goes from \<open>n\<close> to \<open>n'\<close>, and its goroutines change none of its channels.\<close>

definition eases :: "crypto \<Rightarrow> (nat \<Rightarrow> bool) \<Rightarrow> string \<Rightarrow> string \<Rightarrow> host \<Rightarrow> node \<Rightarrow> node \<Rightarrow> bool" where
  "eases L nets x y oh n n' \<longleftrightarrow> moves L nets x y oh n n' \<and> core (n_tru n') = core (n_tru n)"

lemma eases_refl: "eases L nets x y oh n n"
  by (simp add: eases_def moves_refl)

lemma eases_trans: "eases L nets x y oh n n' \<Longrightarrow> eases L nets x y oh n' n'' \<Longrightarrow> eases L nets x y oh n n''"
  using moves_trans unfolding eases_def by metis

lemma eases_get: "eases L nets x y oh n n' \<Longrightarrow> get_ch (n_tru n') r = get_ch (n_tru n) r"
  by (simp add: eases_def core_def)

text \<open>The application accepts.\<close>

lemma accepts:
  obtains n' where "eases L nets x y oh n n'" "n_tru n' = n_tru n" "n_offer n' = None"
proof (cases "n_offer n")
  case None
  then show thesis using that eases_refl by blast
next
  case (Some r)
  let ?g = "(goroutines_of n)\<lparr>g_offer := None\<rparr>" and ?n = "node_step n (Accepted r) ((goroutines_of n)\<lparr>g_offer := None\<rparr>)"
  have "go_step L nets (Accepted r) (goroutines_of n) ?g"
    by (rule go_accept) (simp add: Some)
  then have "node_turn L nets x y oh n ?n"
    unfolding node_turn_def by (intro exI [of _ "Accepted r"] exI [of _ ?g]) (auto simp: unheld_def attending_def)
  then show thesis
    by (intro that [of ?n]) (auto simp: eases_def moves_def)
qed

text \<open>The application reads the connection that the reader goroutine has come to.\<close>

lemma application_reads:
  assumes "n_offer n = None"
  obtains n' where "eases L nets x y oh n n'" "n_tru n' = n_tru n" "n_offer n' = None" "n_hand n' = None"
proof (cases "n_hand n")
  case None
  then show thesis using that eases_refl assms by blast
next
  case (Some rp)
  let ?g = "(goroutines_of n)\<lparr>g_hand := None\<rparr>" and ?n = "node_step n (ReadBy (fst rp)) ((goroutines_of n)\<lparr>g_hand := None\<rparr>)"
  have "go_step L nets (ReadBy (fst rp)) (goroutines_of n) ?g"
    by (rule go_read [where p = "snd rp"]) (simp add: Some)
  then have "node_turn L nets x y oh n ?n"
    unfolding node_turn_def using assms
    by (intro exI [of _ "ReadBy (fst rp)"] exI [of _ ?g]) (auto simp: unheld_def attending_def)
  then show thesis
    using assms by (intro that [of ?n]) (auto simp: eases_def moves_def)
qed

lemma sender_step_turn:
  assumes "t_senderCh t = (z, p) # rest"
  shows "core (sender_step t) = core t" "t_readerCh (sender_step t) = t_readerCh t" "t_senderCh (sender_step t) = rest"
    "t_events (sender_step t) = t_events t @
       (if st_destroyed (c_stat (get_ch t z)) then [] else [EvUdp (c_addr (get_ch t z)) (marshalBinary p)])"
  using assms by (simp_all add: core_def sender_step_def Let_def tell_def)

text \<open>The packets among \<open>q\<close> of live channels have gone out from \<open>t\<close> to \<open>t'\<close>.\<close>

definition gone_out :: "(nat \<times> packet) list \<Rightarrow> tru \<Rightarrow> tru \<Rightarrow> bool" where
  "gone_out q t t' \<longleftrightarrow> (\<forall>(z, p)\<in>set q. \<not> st_destroyed (c_stat (get_ch t z)) \<longrightarrow>
     EvUdp (c_addr (get_ch t z)) (marshalBinary p) \<in> set (t_events t'))"

lemma drain_sender:
  assumes "n_offer n = None"
  shows "\<exists>n'. eases L nets x y oh n n' \<and> n_offer n' = None \<and> t_senderCh (n_tru n') = [] \<and>
    gone_out (t_senderCh (n_tru n)) (n_tru n) (n_tru n')"
proof -
  have "\<exists>n'. eases L nets x y oh n n' \<and> n_offer n' = None \<and> t_senderCh (n_tru n') = [] \<and> gone_out q (n_tru n) (n_tru n')"
    if "q = t_senderCh (n_tru n)" for q
    using that assms
  proof (induction q arbitrary: n)
    case Nil
    then show ?case by (intro exI [of _ n]) (simp add: eases_refl gone_out_def)
  next
    case (Cons zp rest)
    obtain z p where zp: "zp = (z, p)" by fastforce
    let ?g = "(goroutines_of n)\<lparr>g_tru := sender_step (n_tru n)\<rparr>"
    let ?n = "node_step n (Act Internal) ?g"
    note turn = sender_step_turn [OF Cons.prems(1) [symmetric, unfolded zp]]
    have go: "go_step L nets (Act Internal) (goroutines_of n) ?g"
      by (intro go_free) (simp_all add: step_sender)
    have "moves L nets x y oh n ?n"
      using Cons.prems(2) by (intro moves_act [OF go]) (simp_all add: unheld_def turn(4))
    then have m: "eases L nets x y oh n ?n" using turn(1) by (simp add: eases_def)
    obtain n' where n': "eases L nets x y oh ?n n'" "n_offer n' = None" "t_senderCh (n_tru n') = []"
      "gone_out rest (n_tru ?n) (n_tru n')"
      using Cons.IH [of ?n] turn Cons.prems(2) by auto
    have "EvUdp (c_addr (get_ch (n_tru n) z)) (marshalBinary p) \<in> set (t_events (n_tru n'))"
      if "\<not> st_destroyed (c_stat (get_ch (n_tru n) z))"
      using n'(1) that turn(4) by (auto simp: eases_def moves_def)
    moreover have "get_ch (n_tru ?n) w = get_ch (n_tru n) w" for w by (rule eases_get [OF m])
    ultimately have "gone_out (zp # rest) (n_tru n) (n_tru n')"
      using n'(4) zp by (auto simp: gone_out_def)
    then show ?case using eases_trans [OF m n'(1)] n'(2,3) by blast
  qed
  then show ?thesis by blast
qed

lemma reader_step_turn:
  assumes "t_readerCh t = zp # rest"
  shows "core (reader_step f t) = core t" "t_senderCh (reader_step f t) = t_senderCh t" "t_readerCh (reader_step f t) = rest"
    "set (t_events t) \<subseteq> set (t_events (reader_step f t))"
  using assms by (auto simp: core_def reader_step_def Let_def tell_def split: prod.split)

lemma drain_reader:
  assumes "n_offer n = None" "t_senderCh (n_tru n) = []"
  shows "\<exists>n'. eases L nets x y oh n n' \<and> idle n'"
proof -
  have "\<exists>n'. eases L nets x y oh n n' \<and> idle n'" if "q = t_readerCh (n_tru n)" for q
    using that assms
  proof (induction q arbitrary: n)
    case Nil
    then show ?case using application_reads [of n L nets x y oh] by (metis idle_def)
  next
    case (Cons zp rest)
    obtain n1 where n1: "eases L nets x y oh n n1" "n_tru n1 = n_tru n" "n_offer n1 = None" "n_hand n1 = None"
      using application_reads Cons.prems(2) by blast
    have q: "t_readerCh (n_tru n1) = zp # rest" using Cons.prems(1) n1(2) by simp
    let ?g = "(goroutines_of n1)\<lparr>g_tru := reader_step (\<lambda>_ _. False) (n_tru n1), g_hand := in_hand nets zp (n_tru n1)\<rparr>"
    let ?n = "node_step n1 (Act (Took (Some zp))) ?g"
    note turn = reader_step_turn [OF q, of "\<lambda>_ _. False"]
    have go: "go_step L nets (Act (Took (Some zp))) (goroutines_of n1) ?g"
      using go_reader [where g = "goroutines_of n1" and x = zp and L = L and nets = nets and processed = "\<lambda>_ _. False"]
        n1(4) q by simp
    have "moves L nets x y oh n1 ?n"
      using Cons.prems(3) n1(2,3) turn(4) by (intro moves_act [OF go]) (simp_all add: unheld_def)
    then have m: "eases L nets x y oh n1 ?n" using turn(1) by (simp add: eases_def)
    have "\<exists>n'. eases L nets x y oh ?n n' \<and> idle n'"
      using turn Cons.prems(3) n1(2,3) by (intro Cons.IH) simp_all
    then show ?case using eases_trans [OF n1(1)] eases_trans [OF m] by blast
  qed
  then show ?thesis by blast
qed

text \<open>From every state the waits end and the queues of the goroutines run empty.\<close>

lemma settle:
  obtains n' where "eases L nets x y oh n n'" "idle n'" "gone_out (t_senderCh (n_tru n)) (n_tru n) (n_tru n')"
proof -
  obtain n1 where n1: "eases L nets x y oh n n1" "n_tru n1 = n_tru n" "n_offer n1 = None"
    by (rule accepts)
  obtain n2 where n2: "eases L nets x y oh n1 n2" "n_offer n2 = None" "t_senderCh (n_tru n2) = []"
    "gone_out (t_senderCh (n_tru n)) (n_tru n) (n_tru n2)"
    using drain_sender [OF n1(3), of L nets x y oh] n1(2) by auto
  obtain n3 where n3: "eases L nets x y oh n2 n3" "idle n3"
    using drain_reader [OF n2(2,3)] by blast
  have "gone_out (t_senderCh (n_tru n)) (n_tru n) (n_tru n3)"
    using n2(4) n3(1) by (auto simp: gone_out_def eases_def moves_def)
  then show thesis
    using that eases_trans [OF n1(1) eases_trans [OF n2(1) n3(1)]] n3(2) by blast
qed

subsection \<open>A host that is ready for the datagrams of its peer\<close>

definition ready :: "nat \<Rightarrow> string \<Rightarrow> tru \<Rightarrow> bool" where
  "ready r y t \<longleftrightarrow> tru_ok t \<and> intact r y t \<and> getChannel y t = Some r \<and> t_listening t"

lemma readyD:
  assumes "ready r y t"
  shows "tru_ok t" "intact r y t" "getChannel y t = Some r" "t_listening t" "r < length (t_heap t)"
    "\<not> st_destroyed (c_stat (get_ch t r))" "c_addr (get_ch t r) = y" "channel_ok (get_ch t r)"
  using assms getChannel_ok [of t y r] tru_okD(1) [of t r] by (auto simp: ready_def)

lemma ready_eases:
  assumes "hash_laws L" "tru_ok (h_tru oh)" "ready r y (n_tru n)" "eases L nets x y oh n n'"
  shows "ready r y (n_tru n')"
proof -
  have m: "moves L nets x y oh n n'" "core (n_tru n') = core (n_tru n)" using assms(4) by (simp_all add: eases_def)
  have "evolves (n_tru n) (n_tru n')"
    using net_evolves [OF moves_host [OF m(1)]] assms(1,2) readyD(1) [OF assms(3)] by simp
  then have "tru_ok (n_tru n')" by (rule evolvesD(1))
  then show ?thesis
    using assms(3) m(2) by (simp add: ready_def core_def intact_def getChannel_def)
qed

text \<open>An operation of the channel of a ready host.\<close>

lemma ready_op:
  assumes "hash_laws L" "ready r y t" "tru_act L l t (emit r out (put_ch r ch t))"
    and "c_addr ch = y" "\<not> st_destroyed (c_stat ch)"
  shows "ready r y (emit r out (put_ch r ch t))"
proof -
  have "tru_ok (emit r out (put_ch r ch t))"
    by (rule evolvesD(1) [OF tru_act_evolves [OF assms(1) readyD(1) [OF assms(2)] assms(3)]])
  moreover have u: "t_heap (emit r out (put_ch r ch t)) = (t_heap t)[r := ch]"
    "t_channels (emit r out (put_ch r ch t)) = t_channels t"
    "t_listening (emit r out (put_ch r ch t)) = t_listening t"
    by (simp_all add: emit_eq put_ch_def)
  moreover have "intact r y t" by (rule readyD(2) [OF assms(2)])
  then have "intact r y (emit r out (put_ch r ch t))"
    using assms(4,5) unfolding intact_def u by (simp add: nth_list_update)
  ultimately show ?thesis
    using readyD(3,4) [OF assms(2)] by (simp add: ready_def getChannel_def)
qed

text \<open>Such an operation ends when the goroutines have sent and handed over what it gave them.\<close>

lemma finish_op:
  assumes laws: "hash_laws L" and oh: "tru_ok (h_tru oh)" and idle: "idle n"
    and m: "moves L nets x y oh n n1" and n1: "n_tru n1 = emit r out (put_ch r ch (n_tru n))" "ready r y (n_tru n1)"
    and r: "r < length (t_heap (n_tru n))"
  obtains n' where "moves L nets x y oh n n'" "ready r y (n_tru n')" "idle n'" "get_ch (n_tru n') r = ch"
    "\<And>p. p \<in> set (sends out) \<Longrightarrow> EvUdp y (marshalBinary p) \<in> set (t_events (n_tru n'))"
proof -
  obtain n' where n': "eases L nets x y oh n1 n'" "idle n'" "gone_out (t_senderCh (n_tru n1)) (n_tru n1) (n_tru n')"
    by (rule settle)
  have ch: "get_ch (n_tru n1) r = ch" "t_senderCh (n_tru n1) = map (Pair r) (sends out)"
    using r idle by (simp_all add: n1(1) emit_eq put_ch_def idle_def)
  have "EvUdp y (marshalBinary p) \<in> set (t_events (n_tru n'))" if "p \<in> set (sends out)" for p
    using n'(3) that readyD(6,7) [OF n1(2)] ch by (auto simp: gone_out_def)
  moreover have "moves L nets x y oh n n'" using moves_trans [OF m] n'(1) by (simp add: eases_def)
  ultimately show thesis
    using that ready_eases [OF laws oh n1(2) n'(1)] n'(2) eases_get [OF n'(1), of r] ch(1) by simp
qed

text \<open>A packet of the peer's session arrives.\<close>

lemma serve_regular:
  assumes "unmarshalBinary bs (newPacket (te_now env)) = Inr pac" "session_status pac" "getChannel y t = Some r"
    and "serve_channel L (te_wenv env) pac (get_ch t r) = (ch, out)"
  shows "serve L env y bs t = emit r out (put_ch r ch t)"
  using assms by (auto simp: serve_def Let_def session_status_def is_data_def)

lemma offered_emit [simp]: "offered nets t (emit r out (put_ch r ch t)) = None"
proof -
  have "EvConnectCb f z \<notin> set (out_events a out)" for f z a
    by (induction a out rule: out_events.induct) auto
  then have "concat (map (\<lambda>e. case e of EvConnectCb f r \<Rightarrow> if nets f then [r] else [] | _ \<Rightarrow> []) (out_events a out)) = []" for a
    by (auto simp: concat_eq_Nil_conv split: event.split)
  moreover have "\<exists>a. drop (length (t_events t)) (t_events (emit r out (put_ch r ch t))) = out_events a out"
    by (auto simp: emit_eq put_ch_def)
  ultimately show ?thesis unfolding offered_def by (metis list.simps(4))
qed

lemma hear:
  fixes env :: tenv
  assumes laws: "hash_laws L" and oh: "tru_ok (h_tru oh)" and ready: "ready r y (n_tru n)" and idle: "idle n"
    and sent: "EvUdp x (marshalBinary p) \<in> set (t_events (h_tru oh))" "length (marshalBinary p) \<le> 64 * 1024"
    and p: "session_status p" "serve_channel L (te_wenv env) (arrival (te_now env) p) (get_ch (n_tru n) r) = (ch, out)"
  obtains n' where "moves L nets x y oh n n'" "ready r y (n_tru n')" "idle n'" "get_ch (n_tru n') r = ch"
    "\<And>q. q \<in> set (sends out) \<Longrightarrow> EvUdp y (marshalBinary q) \<in> set (t_events (n_tru n'))"
proof -
  let ?bs = "marshalBinary p" and ?pac = "arrival (te_now env) p" and ?t = "emit r out (put_ch r ch (n_tru n))"
  let ?l = "Received (ReadData y ?bs)"
  let ?g = "(goroutines_of n)\<lparr>g_tru := ?t, g_offer := offered nets (g_tru (goroutines_of n)) ?t\<rparr>"
  have arr: "unmarshalBinary ?bs (newPacket (te_now env)) = Inr ?pac" "session_status ?pac"
    using p(1) by (simp_all add: arrival_def unmarshal_marshal session_status_def is_data_def)
  have ne: "?bs \<noteq> []" by (simp add: marshalBinary_def put_u32_def)
  have "listen_turn L env (ReadData y ?bs) (n_tru n) = Some ?t"
    using serve_regular [OF arr readyD(3) [OF ready] p(2)] readyD(4) [OF ready] sent(2) ne
    by (simp add: listen_turn_def)
  then have act: "tru_act L ?l (n_tru n) ?t" by (rule step_listen)
  have go: "go_step L nets (Act ?l) (goroutines_of n) ?g"
    using idle act by (intro go_listen) (simp_all add: idle_def)
  have m: "moves L nets x y oh n (node_step n (Act ?l) ?g)"
    using sent idle by (intro moves_act [OF go]) (auto simp: unheld_def idle_def emit_eq put_ch_def)
  have "keeps (get_ch (n_tru n) r) (ch, out)"
    using serve_channel_ok [OF readyD(8) [OF ready] laws, of "te_wenv env" ?pac] p(2) by simp
  then have "c_addr ch = y" "\<not> st_destroyed (c_stat ch)"
    using readyD(6,7) [OF ready] by (simp_all add: keeps_def)
  then have r: "n_tru (node_step n (Act ?l) ?g) = ?t" "ready r y (n_tru (node_step n (Act ?l) ?g))"
    using ready_op [OF laws ready act] by simp_all
  show thesis
    by (rule finish_op [OF laws oh idle m r readyD(5) [OF ready]]) (rule that)
qed

subsection \<open>Data and acknowledgements\<close>

text \<open>Every data packet that the host can decrypt is acknowledged.\<close>

lemma hear_data:
  assumes laws: "hash_laws L" and oh: "tru_ok (h_tru oh)" and ready: "ready r y (n_tru n)" and idle: "idle n"
    and ps: "\<And>p. p \<in> set ps \<Longrightarrow> EvUdp x (marshalBinary p) \<in> set (t_events (h_tru oh)) \<and> length (marshalBinary p) \<le> 64 * 1024 \<and>
      is_data p \<and> id_ok (p_id p) \<and> (\<exists>d. decryptPacketData L (c_crypt (get_ch (n_tru n) r)) (p_id p) (p_data p) = Inr d)"
  obtains n' where "moves L nets x y oh n n'" "ready r y (n_tru n')" "idle n'"
    "\<And>p. p \<in> set ps \<Longrightarrow> \<exists>env. EvUdp y (marshalBinary (control_packet env (p_id p) statusAck)) \<in> set (t_events (n_tru n'))"
proof -
  have "\<exists>n'. moves L nets x y oh n n' \<and> ready r y (n_tru n') \<and> idle n' \<and>
      c_crypt (get_ch (n_tru n') r) = c_crypt (get_ch (n_tru n) r) \<and>
      (\<forall>p\<in>set ps. \<exists>env. EvUdp y (marshalBinary (control_packet env (p_id p) statusAck)) \<in> set (t_events (n_tru n')))"
    using ps
  proof (induction ps rule: rev_induct)
    case Nil
    then show ?case using ready idle by (intro exI [of _ n]) (simp add: moves_refl)
  next
    case (snoc p ps)
    then obtain n1 where n1: "moves L nets x y oh n n1" "ready r y (n_tru n1)" "idle n1"
      "c_crypt (get_ch (n_tru n1) r) = c_crypt (get_ch (n_tru n) r)"
      "\<And>p. p \<in> set ps \<Longrightarrow> \<exists>env. EvUdp y (marshalBinary (control_packet env (p_id p) statusAck)) \<in> set (t_events (n_tru n1))"
      by auto
    have p: "EvUdp x (marshalBinary p) \<in> set (t_events (h_tru oh))" "length (marshalBinary p) \<le> 64 * 1024" "is_data p" "id_ok (p_id p)"
      using snoc.prems [of p] by simp_all
    obtain d where d: "decryptPacketData L (c_crypt (get_ch (n_tru n1) r)) (p_id p) (p_data p) = Inr d"
      using snoc.prems [of p] n1(4) by auto
    obtain env :: tenv where True by simp
    let ?pac = "arrival (te_now env) p" and ?ack = "control_packet (te_wenv env) (p_id p) statusAck"
    obtain ch out where run: "serve_channel L (te_wenv env) ?pac (get_ch (n_tru n1) r) = (ch, out)" by fastforce
    have ack: "?ack \<in> set (sends out)"
      using data_acknowledged [OF readyD(6) [OF n1(2)], of ?pac L d "te_wenv env"] d p(3,4) run
      by (auto simp: arrival_fields is_data_def intro: OSend_sends)
    have st: "session_status p" using p(3) by (simp add: session_status_def)
    obtain n2 where n2: "moves L nets x y oh n1 n2" "ready r y (n_tru n2)" "idle n2" "get_ch (n_tru n2) r = ch"
      "\<And>q. q \<in> set (sends out) \<Longrightarrow> EvUdp y (marshalBinary q) \<in> set (t_events (n_tru n2))"
      using hear [OF laws oh n1(2,3) p(1,2) st run] by blast
    have "c_crypt ch = c_crypt (get_ch (n_tru n1) r)"
      using serve_channel_keeps [of L "te_wenv env" ?pac "get_ch (n_tru n1) r"] run by simp
    moreover have "\<exists>env. EvUdp y (marshalBinary (control_packet env (p_id q) statusAck)) \<in> set (t_events (n_tru n2))"
      if "q \<in> set (ps @ [p])" for q
      using that n2(1) n2(5) [OF ack] n1(5) [of q] unfolding moves_def by auto
    ultimately show ?case
      using moves_trans [OF n1(1) n2(1)] n2(2-4) n1(4) by (intro exI [of _ n2]) simp
  qed
  then show thesis using that by blast
qed

text \<open>The acknowledgements of the identifiers \<open>is\<close> take their packets out of the send queue.\<close>

lemma hear_acks:
  assumes laws: "hash_laws L" and oh: "tru_ok (h_tru oh)" and ready: "ready r y (n_tru n)" and idle: "idle n"
    and fifo: "sq_fifo (c_sendQueue (get_ch (n_tru n) r))"
    and acks: "\<And>i. i \<in> set is \<Longrightarrow> id_ok i \<and> (\<exists>env. EvUdp x (marshalBinary (control_packet env i statusAck)) \<in> set (t_events (h_tru oh)))"
  obtains n' where "moves L nets x y oh n n'" "ready r y (n_tru n')" "idle n'"
    "sq_items (c_sendQueue (get_ch (n_tru n') r)) = filter (\<lambda>p. p_id p \<notin> set is) (sq_items (c_sendQueue (get_ch (n_tru n) r)))"
proof -
  let ?items = "\<lambda>n. sq_items (c_sendQueue (get_ch (n_tru n) r))"
  have "\<exists>n'. moves L nets x y oh n n' \<and> ready r y (n_tru n') \<and> idle n' \<and> sq_fifo (c_sendQueue (get_ch (n_tru n') r)) \<and>
      ?items n' = filter (\<lambda>p. p_id p \<notin> set is) (?items n)"
    using acks
  proof (induction "is" rule: rev_induct)
    case Nil
    then show ?case using ready idle fifo by (intro exI [of _ n]) (simp add: moves_refl)
  next
    case (snoc i "is")
    then obtain n1 where n1: "moves L nets x y oh n n1" "ready r y (n_tru n1)" "idle n1"
      "sq_fifo (c_sendQueue (get_ch (n_tru n1) r))" "?items n1 = filter (\<lambda>p. p_id p \<notin> set is) (?items n)"
      by auto
    obtain e where q: "id_ok i" "EvUdp x (marshalBinary (control_packet e i statusAck)) \<in> set (t_events (h_tru oh))"
      using snoc.prems [of i] by auto
    let ?q = "control_packet e i statusAck"
    obtain env :: tenv where True by simp
    let ?pac = "arrival (te_now env) ?q"
    have pac: "p_status ?pac = statusAck" "p_id ?pac = i"
      using q(1) by (simp_all add: arrival_fields control_packet_def packet_setters)
    have len: "length (marshalBinary ?q) \<le> 64 * 1024"
      by (simp add: control_packet_def packet_setters newPacket_def)
    obtain ch1 out where 1: "serve_ack (we_now (te_wenv env)) ?pac (get_ch (n_tru n1) r) = (ch1, out)" by fastforce
    let ?ch = "ch1\<lparr>c_stat := stat_setLastActivity (we_now (te_wenv env)) (c_stat ch1)\<rparr>"
    have run: "serve_channel L (te_wenv env) ?pac (get_ch (n_tru n1) r) = (?ch, out)"
      unfolding serve_channel_ack [OF pac(1)] 1 by simp
    note eff = serve_ack_effect [OF n1(4), of "we_now (te_wenv env)" ?pac, unfolded 1 fst_conv snd_conv pac(2)]
    obtain n2 where n2: "moves L nets x y oh n1 n2" "ready r y (n_tru n2)" "idle n2" "get_ch (n_tru n2) r = ?ch"
      using hear [OF laws oh n1(2,3) q(2) len session_control(1) run] by blast
    have "filter (\<lambda>p. p_id p \<noteq> i) (?items n1) = filter (\<lambda>p. p_id p \<notin> set (is @ [i])) (?items n)"
      unfolding n1(5) by (auto intro: filter_cong)
    then show ?case
      using moves_trans [OF n1(1) n2(1)] n2(2-4) eff(1,2) by (intro exI [of _ n2]) simp
  qed
  then show thesis using that by blast
qed

subsection \<open>The send queue is sent again\<close>

lemma resend:
  assumes laws: "hash_laws L" and oh: "tru_ok (h_tru oh)" and ready: "ready r y (n_tru n)" and idle: "idle n"
    and fifo: "sq_fifo (c_sendQueue (get_ch (n_tru n) r))"
    and attempts: "\<And>p. p \<in> set (sq_items (c_sendQueue (get_ch (n_tru n) r))) \<Longrightarrow> p_retransmitAttempts p < maxRetransmitAttempts"
  obtains n' where "moves L nets x y oh n n'" "ready r y (n_tru n')" "idle n'" "sq_fifo (c_sendQueue (get_ch (n_tru n') r))"
    "map p_id (sq_items (c_sendQueue (get_ch (n_tru n') r))) = map p_id (sq_items (c_sendQueue (get_ch (n_tru n) r)))"
    "\<And>p. p \<in> set (sq_items (c_sendQueue (get_ch (n_tru n) r))) \<Longrightarrow> EvUdp y (marshalBinary p) \<in> set (t_events (n_tru n'))"
proof -
  let ?ch = "get_ch (n_tru n) r"
  have "armed (sq_timer (c_sendQueue ?ch))"
    using readyD(6,8) [OF ready] by (simp add: channel_ok_def timers_ok_def)
  then obtain due where due: "sq_timer (c_sendQueue ?ch) = Armed due"
    by (cases "sq_timer (c_sendQueue ?ch)") auto
  obtain now ch out where c: "due \<le> now" "channel_retransmit now ?ch = (ch, out, False)"
    "map wire_of (sends out) = map wire_of (sq_items (c_sendQueue ?ch))" "st_destroyed (c_stat ch) = st_destroyed (c_stat ?ch)"
    by (rule retransmit_all [OF attempts])
  obtain env0 :: tenv where True by simp
  define env where "env = env0\<lparr>te_now := now\<rparr>"
  let ?t = "emit r out (put_ch r ch (n_tru n))"
  let ?g = "(goroutines_of n)\<lparr>g_tru := ?t\<rparr>"
  have t: "retransmit_timer env r (n_tru n) = ?t"
    using c(2) by (simp add: retransmit_timer_def env_def)
  have act: "tru_act L Internal (n_tru n) ?t"
    unfolding t [symmetric] by (rule step_retransmit [OF readyD(5) [OF ready] due]) (simp add: env_def c(1))
  have go: "go_step L nets (Act Internal) (goroutines_of n) ?g"
    using act by (intro go_free) simp_all
  have m: "moves L nets x y oh n (node_step n (Act Internal) ?g)"
    using idle by (intro moves_act [OF go]) (auto simp: unheld_def idle_def emit_eq put_ch_def)
  have addr: "c_addr ch = y"
    using op_addrs(1) [of now ?ch] c(2) readyD(7) [OF ready] by simp
  have "\<not> st_destroyed (c_stat ch)" using c(4) readyD(6) [OF ready] by simp
  then have r: "n_tru (node_step n (Act Internal) ?g) = ?t" "ready r y (n_tru (node_step n (Act Internal) ?g))"
    using ready_op [OF laws ready act addr] by simp_all
  obtain n' where n': "moves L nets x y oh n n'" "ready r y (n_tru n')" "idle n'" "get_ch (n_tru n') r = ch"
    "\<And>p. p \<in> set (sends out) \<Longrightarrow> EvUdp y (marshalBinary p) \<in> set (t_events (n_tru n'))"
    by (rule finish_op [OF laws oh idle m r readyD(5) [OF ready]]) (rule that)
  note view = channel_retransmit_views(1) [OF c(2) fifo, unfolded sender_view_def]
  have wires: "map wire_of (sq_items (c_sendQueue ch)) = map wire_of (sq_items (c_sendQueue ?ch))" and "sq_fifo (c_sendQueue ch)"
    using view fifo by simp_all
  have wire: "marshalBinary p = marshalBinary q" if "wire_of p = wire_of q" for p q
    using that by (simp add: wire_of_def marshalBinary_def packStatID_def)
  have "EvUdp y (marshalBinary p) \<in> set (t_events (n_tru n'))" if "p \<in> set (sq_items (c_sendQueue ?ch))" for p
  proof -
    have "wire_of p \<in> set (map wire_of (sends out))" unfolding c(3) using that by simp
    then obtain q where q: "q \<in> set (sends out)" "wire_of p = wire_of q" by auto
    show ?thesis unfolding wire [OF q(2)] by (rule n'(5) [OF q(1)])
  qed
  moreover have "map p_id (sq_items (c_sendQueue ch)) = map p_id (sq_items (c_sendQueue ?ch))"
    using arg_cong [OF wires, of "map fst"] by (simp add: wire_of_def o_def)
  ultimately show thesis
    using that [OF n'(1-3)] \<open>sq_fifo (c_sendQueue ch)\<close> n'(4) by simp
qed

subsection \<open>The session is completed\<close>

text \<open>
  The writer's host sends its queue again, the other one hears it and acknowledges it, and its reader
  and application take what is pending.
\<close>

lemma session_drains:
  assumes laws: "hash_laws L" and A: "ready r y (n_tru A)" and B: "ready s x (n_tru B)"
    and fifo: "sq_fifo (c_sendQueue (get_ch (n_tru A) r))"
    and queued: "\<And>p. p \<in> set (sq_items (c_sendQueue (get_ch (n_tru A) r))) \<Longrightarrow>
      p_retransmitAttempts p < maxRetransmitAttempts \<and> length (marshalBinary p) \<le> 64 * 1024 \<and> is_data p \<and> id_ok (p_id p) \<and>
      (\<exists>d. decryptPacketData L (c_crypt (get_ch (n_tru B) s)) (p_id p) (p_data p) = Inr d)"
  obtains A' B' where "go_nets L nets nets' x y (A, B) (A', B')"
    "written r (n_host A') = written r (n_host A)" "written s (n_host B') = written s (n_host B)"
    "ready r y (n_tru A')" "ready s x (n_tru B')" "sq_items (c_sendQueue (get_ch (n_tru A') r)) = []" "idle B'"
proof -
  let ?items = "\<lambda>n. sq_items (c_sendQueue (get_ch (n_tru n) r))" and ?is = "map p_id (sq_items (c_sendQueue (get_ch (n_tru A) r)))"
  note ok = readyD(1) [OF A] readyD(1) [OF B]
  obtain A0 where A0: "eases L nets x y (n_host B) A A0" "idle A0" by (rule settle)
  have ready0: "ready r y (n_tru A0)" by (rule ready_eases [OF laws ok(2) A A0(1)])
  obtain A1 where A1: "moves L nets x y (n_host B) A0 A1" "ready r y (n_tru A1)" "idle A1" "sq_fifo (c_sendQueue (get_ch (n_tru A1) r))"
    "map p_id (?items A1) = ?is" "\<And>p. p \<in> set (?items A) \<Longrightarrow> EvUdp y (marshalBinary p) \<in> set (t_events (n_tru A1))"
    using resend [OF laws ok(2) ready0 A0(2)] eases_get [OF A0(1)] fifo queued by metis
  obtain B0 where B0: "eases L nets' y x (n_host A1) B B0" "idle B0" by (rule settle)
  have readyB: "ready s x (n_tru B0)" by (rule ready_eases [OF laws readyD(1) [OF A1(2)] B B0(1)])
  obtain B1 where B1: "moves L nets' y x (n_host A1) B0 B1" "ready s x (n_tru B1)" "idle B1"
    "\<And>p. p \<in> set (?items A) \<Longrightarrow> \<exists>env. EvUdp x (marshalBinary (control_packet env (p_id p) statusAck)) \<in> set (t_events (n_tru B1))"
    using hear_data [OF laws readyD(1) [OF A1(2)] readyB B0(2), of "?items A" y] eases_get [OF B0(1)] A1(6) queued by metis
  have acks: "id_ok i \<and> (\<exists>env. EvUdp x (marshalBinary (control_packet env i statusAck)) \<in> set (t_events (n_tru B1)))"
    if "i \<in> set ?is" for i
    using that B1(4) queued by auto
  obtain A2 where A2: "moves L nets x y (n_host B1) A1 A2" "ready r y (n_tru A2)"
    "?items A2 = filter (\<lambda>p. p_id p \<notin> set ?is) (?items A1)"
    using hear_acks [OF laws readyD(1) [OF B1(2)] A1(2-4) acks] by metis
  have "?items A2 = []"
    unfolding A2(3) A1(5) [symmetric] by (auto simp: filter_empty_conv)
  moreover have mA: "moves L nets x y (n_host B) A A1" and mB: "moves L nets' y x (n_host A1) B B1"
    using moves_trans [OF _ A1(1)] moves_trans [OF _ B1(1)] A0(1) B0(1) by (simp_all add: eases_def)
  then have "go_nets L nets nets' x y (A, B) (A2, B1)"
    using moves_left [OF mA] moves_right [OF mB] moves_left [OF A2(1)] by (meson rtranclp_trans)
  moreover have "written r (n_host A2) = written r (n_host A)" "written s (n_host B1) = written s (n_host B)"
    using mA mB A2(1) by (simp_all add: moves_def)
  ultimately show thesis using that A2(2) B1(2,3) by blast
qed

lemma queued_carried:
  assumes "flows L a b" "p \<in> set (sq_items (c_sendQueue (e_ch a)))"
  shows "is_data p \<and> id_ok (p_id p) \<and> (\<exists>d. decryptPacketData L (c_crypt (e_ch b)) (p_id p) (p_data p) = Inr d)"
proof -
  have "stream_carries L a p" "decryptPacketData L (c_crypt (e_ch b)) = decryptPacketData L (c_crypt (e_ch a))"
    using assms by (simp_all add: flows_def sender_inv_def)
  then show ?thesis by (auto simp: stream_carries_def carries_def is_data_def)
qed

end
