(* ===== verification/Writers.thy ===== *)
theory Writers
  imports Link "HOL-Library.Multiset"
begin

section \<open>Several goroutines that write (channel.go, split.go)\<close>

text \<open>
  \<open>WriteTo\<close> holds no lock between the fragments of a message, so the loop of \<open>splitPacket\<close> is cut
  here into its turns, one \<open>writeTo\<close> each, and the calls under way on one channel take turns in
  any order.  A \<open>writeTo\<close> itself takes its identifier under one lock and adds its packet to the send
  queue under another, so a turn is cut further into these two halves, between which other calls may
  have theirs.  A call alone is the \<open>WriteTo\<close> of \<open>Channel\<close>; several calls interleave their fragments.
\<close>

subsection \<open>One call and its turns\<close>

text \<open>
  A call of \<open>WriteTo\<close> between two turns: the rest of its data, the loop variables \<open>i\<close> and \<open>rid\<close>, and
  its result once it has returned.  Within a turn it holds the identifier it has taken, and what it
  has made of its delivery arguments.
\<close>

record call =
  w_data :: bytes
  w_turn :: nat
  w_rid :: u32
  w_result :: "(u32 \<times> go_error option) option"
  w_held :: "(u32 \<times> nat option \<times> duration) option"

definition start_call :: "bytes \<Rightarrow> call" where
  "start_call data = \<lparr>w_data = data, w_turn = 0, w_rid = 0, w_result = None, w_held = None\<rparr>"

text \<open>
  A whole turn of the loop, with nobody between its halves.  The length limit is read once in the
  source; a channel never changes it.
\<close>

definition write_turn ::
  "crypto \<Rightarrow> wenv \<Rightarrow> delivery_arg list \<Rightarrow> call \<Rightarrow> channel \<Rightarrow> call \<times> channel \<times> out list" where
  "write_turn L env delivery w ch =
     (let m = split_limit (c_maxDataLen ch); data = w_data w in
      if w_result w \<noteq> None then (w, ch, [])
      else if int (length data) \<le> m then
        (case writeTo L env ch data (statusData OR 0) delivery [] of
           ((j, err), ch, out) \<Rightarrow>
             (w\<lparr>w_result := Some (if w_turn w = 0 then j else w_rid w, err)\<rparr>, ch, out))
      else if m \<le> 0 then (w\<lparr>w_result := Some (w_rid w, Some ErrPanic)\<rparr>, ch, [])
      else
        (case writeTo L env ch (take (nat m) data) (statusData OR statusSplit) delivery [] of
           ((j, Some e), ch, out) \<Rightarrow> (w\<lparr>w_result := Some (j, Some e)\<rparr>, ch, out)
         | ((j, None), ch, out) \<Rightarrow>
             (w\<lparr>w_data := drop (nat m) data, w_turn := Suc (w_turn w), w_rid := j\<rparr>, ch, out)))"

text \<open>A schedule names the call that takes each turn; a turn for no call does nothing.\<close>

fun run_calls ::
  "crypto \<Rightarrow> delivery_arg list \<Rightarrow> (nat \<times> wenv) list \<Rightarrow> call list \<Rightarrow> channel \<Rightarrow> call list \<times> channel \<times> out list" where
  "run_calls L delivery [] ws ch = (ws, ch, [])"
| "run_calls L delivery ((i, env) # sch) ws ch =
     (if i < length ws then
        (let (w, ch, out) = write_turn L env delivery (ws ! i) ch;
             (ws, ch, out') = run_calls L delivery sch (ws[i := w]) ch
         in (ws, ch, out @ out'))
      else run_calls L delivery sch ws ch)"

subsection \<open>The two halves of a turn\<close>

text \<open>
  The first half of \<open>writeTo\<close> for a data packet ends with \<open>newID\<close>; the second encrypts, sets the
  retransmission time, and adds the packet to the queue.
\<close>

definition writeTo_take ::
  "wenv \<Rightarrow> channel \<Rightarrow> delivery_arg list \<Rightarrow> (go_error + (u32 \<times> nat option \<times> duration)) \<times> channel" where
  "writeTo_take env ch delivery =
     (if st_destroyed (c_stat ch) then (Inl ErrChannelDestroyed, ch)
      else case parse_delivery None DeliveryTimeout delivery of
        Inl e \<Rightarrow> (Inl e, ch)
      | Inr (f, timeout) \<Rightarrow>
          (let (i, ch) = newID (snd (writeToDelay env statusData ch)) in (Inr (i, f, timeout), ch)))"

definition writeTo_put ::
  "crypto \<Rightarrow> wenv \<Rightarrow> channel \<Rightarrow> u32 \<times> nat option \<times> duration \<Rightarrow> bytes \<Rightarrow> u8 \<Rightarrow>
   (u32 \<times> go_error option) \<times> channel \<times> out list" where
  "writeTo_put L env ch h data stat =
     (case h of (i, f, timeout) \<Rightarrow>
        (case encryptPacketData L (we_nonce env) (c_crypt ch) i data of
           Inl e \<Rightarrow> ((i, Some e), ch, [])
         | Inr data \<Rightarrow>
             (let (ch, out) = writeTo_packet env ch i data stat f timeout in ((i, None), ch, out))))"

text \<open>Half a turn: of a call that holds no identifier the first half, of one that holds one the second.\<close>

definition half_turn ::
  "crypto \<Rightarrow> wenv \<Rightarrow> delivery_arg list \<Rightarrow> call \<Rightarrow> channel \<Rightarrow> call \<times> channel \<times> out list" where
  "half_turn L env delivery w ch =
     (let m = split_limit (c_maxDataLen ch); data = w_data w; final = int (length data) \<le> m in
      if w_result w \<noteq> None then (w, ch, [])
      else if \<not> final \<and> m \<le> 0 then (w\<lparr>w_result := Some (w_rid w, Some ErrPanic)\<rparr>, ch, [])
      else
        (case w_held w of
           None \<Rightarrow>
             (case writeTo_take env ch delivery of
                (Inl e, ch) \<Rightarrow> (w\<lparr>w_result := Some (if final \<and> w_turn w \<noteq> 0 then w_rid w else 0, Some e)\<rparr>, ch, [])
              | (Inr h, ch) \<Rightarrow> (w\<lparr>w_held := Some h\<rparr>, ch, []))
         | Some h \<Rightarrow>
             if final then
               (case writeTo_put L env ch h data (statusData OR 0) of
                  ((j, err), ch, out) \<Rightarrow>
                    (w\<lparr>w_result := Some (if w_turn w = 0 then j else w_rid w, err), w_held := None\<rparr>, ch, out))
             else
               (case writeTo_put L env ch h (take (nat m) data) (statusData OR statusSplit) of
                  ((j, Some e), ch, out) \<Rightarrow> (w\<lparr>w_result := Some (j, Some e), w_held := None\<rparr>, ch, out)
                | ((j, None), ch, out) \<Rightarrow>
                    (w\<lparr>w_data := drop (nat m) data, w_turn := Suc (w_turn w), w_rid := j, w_held := None\<rparr>, ch, out))))"

fun run_halves ::
  "crypto \<Rightarrow> delivery_arg list \<Rightarrow> (nat \<times> wenv) list \<Rightarrow> call list \<Rightarrow> channel \<Rightarrow> call list \<times> channel \<times> out list" where
  "run_halves L delivery [] ws ch = (ws, ch, [])"
| "run_halves L delivery ((i, env) # sch) ws ch =
     (if i < length ws then
        (let (w, ch, out) = half_turn L env delivery (ws ! i) ch;
             (ws, ch, out') = run_halves L delivery sch (ws[i := w]) ch
         in (ws, ch, out @ out'))
      else run_halves L delivery sch ws ch)"

lemma writeTo_halves:
  assumes "stat AND NOT statusSplit = statusData"
  shows "writeTo L env ch data stat ds [] =
     (case writeTo_take env ch ds of
        (Inl e, ch) \<Rightarrow> ((0, Some e), ch, [])
      | (Inr h, ch) \<Rightarrow> writeTo_put L env ch h data stat)"
  using assms by (auto simp: writeTo_def writeTo_take_def writeTo_put_def Let_def split: sum.split prod.split)

lemma writeTo_take_maxDataLen [simp]: "c_maxDataLen (snd (writeTo_take env ch ds)) = c_maxDataLen ch"
  by (simp add: writeTo_take_def newID_def Let_def split: sum.split prod.split)

text \<open>A whole turn is its two halves, one right after the other; so a run of whole turns is a run of halves.\<close>

lemma write_turn_halves:
  assumes "w_held w = None"
  shows "write_turn L env ds w ch =
     (case half_turn L env ds w ch of (w1, ch1, o1) \<Rightarrow>
        (case half_turn L env ds w1 ch1 of (w2, ch2, o2) \<Rightarrow> (w2, ch2, o1 @ o2)))"
    and "w_held (fst (write_turn L env ds w ch)) = None"
proof -
  let ?m = "split_limit (c_maxDataLen ch)"
  let ?final = "int (length (w_data w)) \<le> ?m"
  have "statusData AND NOT statusSplit = statusData" "statusDataNext AND NOT statusSplit = statusData"
    using split_status [of 0] split_status [of statusSplit] by simp_all
  note whole = writeTo_halves [OF this(1)] writeTo_halves [OF this(2)]
  obtain h ch1 where take: "writeTo_take env ch ds = (h, ch1)" by fastforce
  then have len: "c_maxDataLen ch1 = c_maxDataLen ch"
    using writeTo_take_maxDataLen [of env ch ds] by simp
  show "write_turn L env ds w ch =
     (case half_turn L env ds w ch of (w1, ch1, o1) \<Rightarrow>
        (case half_turn L env ds w1 ch1 of (w2, ch2, o2) \<Rightarrow> (w2, ch2, o1 @ o2)))"
  proof (cases "w_result w \<noteq> None \<or> \<not> ?final \<and> ?m \<le> 0")
    case True
    then show ?thesis using assms by (auto simp: write_turn_def half_turn_def Let_def)
  next
    case False
    show ?thesis
    proof (cases h)
      case (Inl e)
      then show ?thesis
        using assms False take by (cases ?final) (simp_all add: write_turn_def half_turn_def whole Let_def)
    next
      case (Inr x)
      obtain j err ch2 o2 where
        put: "writeTo_put L env ch1 x (if ?final then w_data w else take (nat ?m) (w_data w)) (statusData OR (if ?final then 0 else statusSplit)) = ((j, err), ch2, o2)"
        by (metis prod.collapse)
      have "w\<lparr>w_held := None\<rparr> = w" using assms by (cases w) simp
      then show ?thesis
        using assms False take Inr put len
        by (cases ?final; cases err) (simp_all add: write_turn_def half_turn_def whole Let_def)
    qed
  qed
  show "w_held (fst (write_turn L env ds w ch)) = None"
    using assms by (auto simp: write_turn_def Let_def split: prod.splits option.splits)
qed

subsection \<open>A call alone\<close>

lemma writeTo_maxDataLen [simp]: "c_maxDataLen (fst (snd (writeTo L env ch d st ds is))) = c_maxDataLen ch"
  by (auto simp: writeTo_def writeTo_packet_def newID_def Let_def split_def split: sum.split)

lemma run_calls_idle: "w_result w \<noteq> None \<Longrightarrow> run_calls L ds (map (\<lambda>j. (0, e j)) ks) [w] ch = ([w], ch, [])"
  by (induction ks) (simp_all add: write_turn_def)

text \<open>The rest of the loop of a call, and one turn of it: the loop ends with the turn, or goes on after it.\<close>

definition call_loop ::
  "crypto \<Rightarrow> (nat \<Rightarrow> wenv) \<Rightarrow> delivery_arg list \<Rightarrow> call \<Rightarrow> channel \<times> out list \<times> nat \<Rightarrow>
   (u32 \<times> go_error option) \<times> channel \<times> out list \<times> nat" where
  "call_loop L envs ds w st =
     split_loop (channel_writer L envs ds) (split_limit (c_maxDataLen (fst st))) (w_turn w) (w_rid w) (w_data w) st"

definition call_rest :: "channel \<Rightarrow> call \<Rightarrow> nat" where
  "call_rest ch w = length (fragments (nat (split_limit (c_maxDataLen ch))) (w_data w))"

lemma turn_ends:
  assumes "w_result w = None" "write_turn L (envs k) ds w ch = (w', ch1, o1)" "w_result w' = Some res"
  shows "\<exists>k'. call_loop L envs ds w (ch, o0, k) = (res, (ch1, o0 @ o1, k'))"
  using assms
  by (auto simp: call_loop_def write_turn_def channel_writer_def Let_def split_loop.simps [of _ "split_limit (c_maxDataLen ch)" "w_turn w"]
      split: prod.splits option.splits if_splits)

lemma turn_goes_on:
  assumes "w_result w = None" "write_turn L (envs k) ds w ch = (w', ch1, o1)" "w_result w' = None"
  shows "call_loop L envs ds w (ch, o0, k) = call_loop L envs ds w' (ch1, o0 @ o1, Suc k)"
    "c_maxDataLen ch1 = c_maxDataLen ch" "call_rest ch w = Suc (call_rest ch1 w')"
proof -
  let ?m = "split_limit (c_maxDataLen ch)" and ?d = "w_data w"
  obtain j err ch2 o2 where w: "writeTo L (envs k) ch (take (nat ?m) ?d) (statusData OR statusSplit) ds [] = ((j, err), ch2, o2)"
    by (metis prod.collapse)
  have m: "\<not> int (length ?d) \<le> ?m" "\<not> ?m \<le> 0"
    and t: "err = None" "ch1 = ch2" "o1 = o2" "w' = w\<lparr>w_data := drop (nat ?m) ?d, w_turn := Suc (w_turn w), w_rid := j\<rparr>"
    using assms w by (auto simp: write_turn_def Let_def split: prod.splits option.splits if_splits)
  show len: "c_maxDataLen ch1 = c_maxDataLen ch"
    using arg_cong [OF w, of "\<lambda>x. c_maxDataLen (fst (snd x))"] t(2) by simp
  show "call_loop L envs ds w (ch, o0, k) = call_loop L envs ds w' (ch1, o0 @ o1, Suc k)"
    using m w t len by (simp add: call_loop_def split_loop.simps [of _ ?m "w_turn w"] channel_writer_def)
  show "call_rest ch w = Suc (call_rest ch1 w')"
    using m t(4) len by (simp add: call_rest_def fragments_long)
qed

text \<open>
  As many turns as the rest of the data has fragments end the call with the loop's result, channel
  and output.
\<close>

lemma run_calls_loop:
  assumes "w_result w = None" "call_rest ch w \<le> n"
    and "run_calls L ds (map (\<lambda>j. (0, envs j)) [k..<k + n]) [w] ch = (ws, ch', out)"
  shows "\<exists>res k'. call_loop L envs ds w (ch, o0, k) = (res, (ch', o0 @ out, k')) \<and> w_result (ws ! 0) = Some res"
  using assms
proof (induction n arbitrary: w ch k o0 out)
  case 0
  then show ?case by (simp add: call_rest_def)
next
  case (Suc n)
  have sch: "map (\<lambda>j. (0::nat, envs j)) [k..<k + Suc n] = (0, envs k) # map (\<lambda>j. (0, envs j)) [Suc k..<Suc k + n]"
    by (simp add: upt_conv_Cons del: upt_Suc)
  obtain w' ch1 o1 where turn: "write_turn L (envs k) ds w ch = (w', ch1, o1)" by (metis prod.collapse)
  obtain out2 where rest: "run_calls L ds (map (\<lambda>j. (0, envs j)) [Suc k..<Suc k + n]) [w'] ch1 = (ws, ch', out2)" "out = o1 @ out2"
    using Suc.prems(3) turn unfolding sch by (auto simp: Let_def simp del: upt_Suc split: prod.splits)
  show ?case
  proof (cases "w_result w'")
    case None
    note on = turn_goes_on [where envs = envs and k = k, OF Suc.prems(1) turn None]
    have "call_rest ch1 w' \<le> n" using Suc.prems(2) on(3) by simp
    from Suc.IH [OF None this rest(1), of "o0 @ o1"] show ?thesis
      using rest(2) by (simp add: on(1))
  next
    case (Some res)
    then have "ws = [w']" "ch' = ch1" "out2 = []"
      using rest(1) by (simp_all add: run_calls_idle)
    then show ?thesis
      using turn_ends [where envs = envs and k = k, OF Suc.prems(1) turn Some, of o0] Some rest(2) by auto
  qed
qed

lemma call_alone:
  assumes n: "length (message_fragments ch data) \<le> n"
    and run: "run_calls L ds (map (\<lambda>k. (0, envs k)) [0..<n]) [start_call data] ch = (ws, ch', out)"
  shows "\<exists>res. w_result (ws ! 0) = Some res \<and> channel_WriteTo L envs ch data ds = (res, ch', out)"
proof -
  have "call_rest ch (start_call data) \<le> n" "w_result (start_call data) = None"
    using n by (simp_all add: call_rest_def start_call_def message_fragments_def)
  then obtain res k' where "call_loop L envs ds (start_call data) (ch, [], 0) = (res, (ch', out, k'))" "w_result (ws ! 0) = Some res"
    using run_calls_loop [of "start_call data" ch n L ds envs 0 ws ch' out "[]"] run by auto
  then show ?thesis by (simp add: call_loop_def start_call_def channel_WriteTo_def splitPacket_def)
qed

subsection \<open>Calls that take turns\<close>

text \<open>
  The specification: from the lists \<open>xss\<close>, the schedule takes the next element of the list it names;
  the result is what was taken, in that order, and what is left.
\<close>

fun interleave :: "nat list \<Rightarrow> 'a list list \<Rightarrow> 'a list \<times> 'a list list" where
  "interleave [] xss = ([], xss)"
| "interleave (i # js) xss =
     (if i < length xss \<and> xss ! i \<noteq> []
      then let (zs, left) = interleave js (xss[i := tl (xss ! i)]) in (hd (xss ! i) # zs, left)
      else interleave js xss)"

lemma mset_concat_update:
  "i < length xss \<Longrightarrow> xss ! i = x # xs \<Longrightarrow> mset (concat xss) = add_mset x (mset (concat (xss[i := xs])))"
proof (induction xss arbitrary: i)
  case (Cons ys xss)
  then show ?case by (cases i) auto
qed simp

text \<open>Nothing is lost or made up.\<close>

lemma interleave_mset:
  "mset (fst (interleave js xss)) + mset (concat (snd (interleave js xss))) = mset (concat xss)"
proof (induction js xss rule: interleave.induct)
  case (2 i js xss)
  show ?case
  proof (cases "i < length xss \<and> xss ! i \<noteq> []")
    case True
    then have "mset (concat xss) = add_mset (hd (xss ! i)) (mset (concat (xss[i := tl (xss ! i)])))"
      by (intro mset_concat_update) auto
    then show ?thesis using 2(1) True by (simp add: split_def Let_def)
  next
    case False
    then show ?thesis using 2(2) by auto
  qed
qed simp

text \<open>The fragments that a call has yet to write.\<close>

definition todo :: "nat \<Rightarrow> call \<Rightarrow> (bytes \<times> u8) list" where
  "todo m w = (if w_result w = None then fragments m (w_data w) else [])"

lemma todo_Nil [simp]: "todo m w = [] \<longleftrightarrow> w_result w \<noteq> None"
  by (simp add: todo_def)

definition no_error :: "call \<Rightarrow> bool" where
  "no_error w \<longleftrightarrow> (\<forall>rid err. w_result w = Some (rid, err) \<longrightarrow> err = None)"

lemma write_turn_fragment:
  assumes laws: "crypto_laws L" and env: "env_ok env" and live: "\<not> st_destroyed (c_stat ch)"
    and ds: "delivery_ok ds" and i: "c_id ch = rep_id n" and m: "0 \<le> c_maxDataLen ch" and w: "w_result w = None"
  defines "k \<equiv> nat (split_limit (c_maxDataLen ch))"
  shows "\<exists>w' ch' out pac. write_turn L env ds w ch = (w', ch', out) \<and>
     sq_items (c_sendQueue ch') = sq_items (c_sendQueue ch) @ [pac] \<and>
     sent_as L (c_crypt ch) n [hd (todo k w)] [pac] \<and> c_id ch' = rep_id (Suc n) \<and> sender_frame ch ch' \<and>
     todo k w' = tl (todo k w) \<and> no_error w'"
proof (cases "int (length (w_data w)) \<le> split_limit (c_maxDataLen ch)")
  case True
  then have "fragments k (w_data w) = [(w_data w, 0)]"
    by (intro fragments_short) (simp add: k_def)
  moreover obtain ch' out pac where "writeTo L env ch (w_data w) (statusData OR 0) ds [] = ((rep_id n, None), ch', out)"
    "sq_items (c_sendQueue ch') = sq_items (c_sendQueue ch) @ [pac]" "sent_as L (c_crypt ch) n [(w_data w, 0)] [pac]"
    "c_id ch' = rep_id (Suc n)" "sender_frame ch ch'"
    using writeTo_data [OF laws env live ds _ i, of 0 "w_data w"] by auto
  ultimately show ?thesis
    using True w by (auto simp: write_turn_def Let_def todo_def no_error_def)
next
  case False
  have pos: "0 < split_limit (c_maxDataLen ch)"
    using split_limit_pos [OF m] .
  then have "fragments k (w_data w) = (take k (w_data w), statusSplit) # fragments k (drop k (w_data w))"
    using False by (intro fragments_long) (simp_all add: k_def)
  moreover obtain ch' out pac where "writeTo L env ch (take k (w_data w)) (statusData OR statusSplit) ds [] = ((rep_id n, None), ch', out)"
    "sq_items (c_sendQueue ch') = sq_items (c_sendQueue ch) @ [pac]" "sent_as L (c_crypt ch) n [(take k (w_data w), statusSplit)] [pac]"
    "c_id ch' = rep_id (Suc n)" "sender_frame ch ch'"
    using writeTo_data [OF laws env live ds _ i, of statusSplit "take k (w_data w)"] by auto
  ultimately show ?thesis
    using False pos w unfolding k_def
    by (auto simp: write_turn_def Let_def todo_def no_error_def)
qed

text \<open>The calls together queue the interleaving of their fragments, under consecutive identifiers.\<close>

lemma run_calls_interleave:
  assumes laws: "crypto_laws L" and ds: "delivery_ok ds"
    and "\<forall>x\<in>set sch. env_ok (snd x)" "\<not> st_destroyed (c_stat ch)" "c_id ch = rep_id n" "0 \<le> c_maxDataLen ch"
    and "\<forall>w\<in>set ws. no_error w" "run_calls L ds sch ws ch = (ws', ch', out)"
    and "interleave (map fst sch) (map (todo (nat (split_limit (c_maxDataLen ch)))) ws) = (F, left)"
  shows "\<exists>pks. sq_items (c_sendQueue ch') = sq_items (c_sendQueue ch) @ pks \<and> sent_as L (c_crypt ch) n F pks \<and>
     c_id ch' = rep_id (n + length F) \<and> sender_frame ch ch' \<and>
     map (todo (nat (split_limit (c_maxDataLen ch)))) ws' = left \<and> (\<forall>w\<in>set ws'. no_error w)"
  using assms(3-)
proof (induction sch arbitrary: ws ch n F out)
  case Nil
  then show ?case by (intro exI [of _ "[]"]) auto
next
  case (Cons x sch)
  obtain i env where x: "x = (i, env)" by (cases x)
  let ?k = "nat (split_limit (c_maxDataLen ch))"
  show ?case
  proof (cases "i < length ws \<and> w_result (ws ! i) = None")
    case True
    obtain w1 ch1 o1 pac where turn: "write_turn L env ds (ws ! i) ch = (w1, ch1, o1)"
      "sq_items (c_sendQueue ch1) = sq_items (c_sendQueue ch) @ [pac]"
      "sent_as L (c_crypt ch) n [hd (todo ?k (ws ! i))] [pac]" "c_id ch1 = rep_id (Suc n)" "sender_frame ch ch1"
      "todo ?k w1 = tl (todo ?k (ws ! i))" "no_error w1"
      using write_turn_fragment [OF laws _ Cons.prems(2) ds Cons.prems(3,4), of env "ws ! i"] Cons.prems(1) x True by auto
    obtain out2 where rest: "run_calls L ds sch (ws[i := w1]) ch1 = (ws', ch', out2)"
      using Cons.prems(6) True turn(1) x by (auto simp: Let_def split: prod.splits)
    have frame: "\<not> st_destroyed (c_stat ch1)" "c_maxDataLen ch1 = c_maxDataLen ch" "c_crypt ch1 = c_crypt ch"
      using turn(5) Cons.prems(2) by (simp_all add: sender_frame_def)
    obtain F1 where F1: "interleave (map fst sch) (map (todo ?k) (ws[i := w1])) = (F1, left)" "F = hd (todo ?k (ws ! i)) # F1"
      using Cons.prems(7) True turn(6) x by (auto simp: Let_def map_update split: prod.splits)
    have err: "\<forall>w\<in>set (ws[i := w1]). no_error w"
      using Cons.prems(5) turn(7) set_update_subset_insert [of ws i w1] by blast
    obtain pks where IH: "sq_items (c_sendQueue ch') = sq_items (c_sendQueue ch1) @ pks" "sent_as L (c_crypt ch) (Suc n) F1 pks"
      "c_id ch' = rep_id (Suc n + length F1)" "sender_frame ch1 ch'" "map (todo ?k) ws' = left" "\<forall>w\<in>set ws'. no_error w"
      using Cons.IH [of ch1 "Suc n" "ws[i := w1]" out2 F1] Cons.prems(1,4) frame turn(4) err rest F1(1) by auto
    have "sent_as L (c_crypt ch) n ([hd (todo ?k (ws ! i))] @ F1) ([pac] @ pks)"
      using turn(3) IH(2) by (intro sent_as_append) simp_all
    then show ?thesis
      using turn(2) IH F1(2) sender_frame_trans [OF turn(5) IH(4)] by (intro exI [of _ "pac # pks"]) simp
  next
    case False
    then have "run_calls L ds sch ws ch = (ws', ch', out)"
      using Cons.prems(6) x by (auto simp: write_turn_def split: prod.splits if_splits)
    moreover have "interleave (map fst sch) (map (todo ?k) ws) = (F, left)"
      using Cons.prems(7) x False by (auto split: if_splits)
    ultimately show ?thesis
      using Cons.IH Cons.prems(1-5) by simp
  qed
qed

text \<open>A call returns once it has had a turn for each of its fragments, whatever the others do.\<close>

lemma interleave_left:
  "length (snd (interleave js xss)) = length xss"
  "i < length xss \<Longrightarrow> length (snd (interleave js xss) ! i) = length (xss ! i) - count_list js i"
proof (induction js xss rule: interleave.induct)
  case (2 j js xss)
  {
    case 1
    show ?case using 2 by (simp add: split_def Let_def)
  next
    case 2
    then show ?case using "2.IH" by (cases "j = i") (auto simp: split_def Let_def nth_list_update)
  }
qed simp_all

lemma length_fragments: "length (fragments m data) \<le> Suc (length data div m)"
proof (induction m data rule: fragments.induct)
  case (1 m data)
  show ?case
  proof (cases "length data \<le> m \<or> m = 0")
    case False
    then have "length data div m = Suc ((length data - m) div m)"
      by (simp add: le_div_geq)
    then show ?thesis using 1 False by (simp add: fragments_long)
  qed (auto simp: fragments.simps [of m data])
qed

lemma run_calls_length: "run_calls L ds sch ws ch = (ws', ch', out) \<Longrightarrow> length ws' = length ws"
  by (induction sch arbitrary: ws ch out) (auto simp: Let_def split: prod.splits if_splits)

lemma todo_start: "map (todo (nat (split_limit (c_maxDataLen ch)))) (map start_call ms) = map (message_fragments ch) ms"
  by (simp add: todo_def start_call_def message_fragments_def)

lemma no_error_start: "\<forall>w\<in>set (map start_call ms). no_error w"
  by (simp add: no_error_def start_call_def)

subsection \<open>Calls that take half turns\<close>

text \<open>
  The specification: each call has what is left of its list, and may hold the number of its next
  element.  A half turn of a call that holds none takes the next number; one of a call that holds one
  queues its element under it.  The results: the elements in the order of their numbers, which begin
  with \<open>k\<close>; what was queued, in that order; and where the calls are.
\<close>

fun interleave_halves ::
  "nat list \<Rightarrow> nat \<Rightarrow> (nat option \<times> 'a list) list \<Rightarrow> 'a list \<times> (nat \<times> 'a) list \<times> (nat option \<times> 'a list) list" where
  "interleave_halves [] k cs = ([], [], cs)"
| "interleave_halves (i # js) k cs =
     (if i < length cs \<and> snd (cs ! i) \<noteq> []
      then (case cs ! i of
              (None, xs) \<Rightarrow>
                (case interleave_halves js (Suc k) (cs[i := (Some k, xs)]) of (F, qs, left) \<Rightarrow> (hd xs # F, qs, left))
            | (Some j, xs) \<Rightarrow>
                (case interleave_halves js k (cs[i := (None, tl xs)]) of (F, qs, left) \<Rightarrow> (F, (j, hd xs) # qs, left)))
      else interleave_halves js k cs)"

text \<open>What the calls hold; they hold a number only when they have something left.\<close>

definition held_by :: "nat option \<times> 'a list \<Rightarrow> (nat \<times> 'a) list" where
  "held_by c = (case fst c of None \<Rightarrow> [] | Some j \<Rightarrow> [(j, hd (snd c))])"

lemma held_by_simps [simp]: "held_by (None, xs) = []" "held_by (Some j, xs) = [(j, hd xs)]"
  by (simp_all add: held_by_def)

definition calls_ok :: "(nat option \<times> 'a list) list \<Rightarrow> bool" where
  "calls_ok cs \<longleftrightarrow> (\<forall>c\<in>set cs. fst c \<noteq> None \<longrightarrow> snd c \<noteq> [])"

lemma calls_ok_update: "calls_ok cs \<Longrightarrow> (fst c \<noteq> None \<longrightarrow> snd c \<noteq> []) \<Longrightarrow> calls_ok (cs[i := c])"
  using set_update_subset_insert [of cs i c] by (auto simp: calls_ok_def)

text \<open>Each number is queued at most once, with its element, and what is not queued yet is held.\<close>

lemma interleave_halves_mset:
  assumes "interleave_halves js k cs = (F, qs, left)"
  shows "mset qs + mset (concat (map held_by left)) = mset (concat (map held_by cs)) + mset (enumerate k F)"
  using assms
proof (induction js k cs arbitrary: F qs left rule: interleave_halves.induct)
  case (2 i js k cs)
  show ?case
  proof (cases "i < length cs \<and> snd (cs ! i) \<noteq> []")
    case True
    obtain h xs where c: "cs ! i = (h, xs)" by fastforce
    let ?xss = "map held_by cs"
    show ?thesis
    proof (cases h)
      case None
      obtain F' where r: "interleave_halves js (Suc k) (cs[i := (Some k, xs)]) = (F', qs, left)" "F = hd xs # F'"
        using 2(4) True c None by (auto split: prod.splits)
      have "?xss[i := []] = ?xss" using True c None by (simp add: list_update_same_conv)
      then have "mset (concat (?xss[i := [(k, hd xs)]])) = add_mset (k, hd xs) (mset (concat ?xss))"
        using mset_concat_update [of i "?xss[i := [(k, hd xs)]]" "(k, hd xs)" "[]"] True by simp
      then show ?thesis
        using 2(1) [OF True c [symmetric] None r(1)] r(2) by (simp add: map_update)
    next
      case (Some j)
      obtain qs' where r: "interleave_halves js k (cs[i := (None, tl xs)]) = (F, qs', left)" "qs = (j, hd xs) # qs'"
        using 2(4) True c Some by (auto split: prod.splits)
      have "mset (concat ?xss) = add_mset (j, hd xs) (mset (concat (?xss[i := []])))"
        using True c Some by (intro mset_concat_update) simp_all
      then show ?thesis
        using 2(2) [OF True c [symmetric] Some r(1)] r(2) by (simp add: map_update)
    qed
  next
    case False
    then show ?thesis using 2(3,4) by auto
  qed
qed simp

text \<open>The half turns a call has still to take.\<close>

definition halves_left :: "nat option \<times> 'a list \<Rightarrow> nat" where
  "halves_left c = 2 * length (snd c) - (if fst c = None then 0 else 1)"

lemma interleave_halves_left:
  assumes "interleave_halves js k cs = (F, qs, left)" "calls_ok cs"
  shows "length left = length cs \<and> calls_ok left \<and>
     (\<forall>i<length cs. halves_left (left ! i) = halves_left (cs ! i) - count_list js i)"
  using assms
proof (induction js k cs arbitrary: F qs left rule: interleave_halves.induct)
  case (2 i js k cs)
  show ?case
  proof (cases "i < length cs \<and> snd (cs ! i) \<noteq> []")
    case True
    obtain h xs where c: "cs ! i = (h, xs)" by fastforce
    let ?c = "case h of None \<Rightarrow> (Some k, xs) | Some j \<Rightarrow> (None, tl xs)"
    have less: "halves_left ?c = halves_left (cs ! i) - 1"
      using True c by (cases h; cases xs) (simp_all add: halves_left_def)
    have ok: "calls_ok (cs[i := ?c])"
      using True c 2(5) by (intro calls_ok_update) (simp_all split: option.split)
    have IH: "length left = length cs \<and> calls_ok left \<and>
        (\<forall>n<length cs. halves_left (left ! n) = halves_left (cs[i := ?c] ! n) - count_list js n)"
    proof (cases h)
      case None
      then obtain F' where r: "interleave_halves js (Suc k) (cs[i := (Some k, xs)]) = (F', qs, left)"
        using 2(4) True c by (auto split: prod.splits)
      show ?thesis using 2(1) [OF True c [symmetric] None r] ok None by simp
    next
      case (Some j)
      then obtain qs' where r: "interleave_halves js k (cs[i := (None, tl xs)]) = (F, qs', left)"
        using 2(4) True c by (auto split: prod.splits)
      show ?thesis using 2(2) [OF True c [symmetric] Some r] ok Some by simp
    qed
    then show ?thesis using less True by (auto simp: nth_list_update)
  next
    case False
    have "halves_left (cs ! i) = 0" if "i < length cs"
      using False that by (simp add: halves_left_def)
    then show ?thesis using 2(3) [OF False] 2(4,5) False by auto
  qed
qed simp

text \<open>The two halves of a turn, on the channel.\<close>

lemma half_take:
  assumes live: "\<not> st_destroyed (c_stat ch)" and ds: "delivery_ok ds" and i: "c_id ch = rep_id n"
    and m: "0 \<le> c_maxDataLen ch" and w: "w_result w = None" "w_held w = None"
  shows "\<exists>f t ch'. half_turn L env ds w ch = (w\<lparr>w_held := Some (rep_id n, f, t)\<rparr>, ch', []) \<and>
     c_sendQueue ch' = c_sendQueue ch \<and> c_id ch' = rep_id (Suc n) \<and> sender_frame ch ch'"
proof -
  obtain f t where ft: "parse_delivery None DeliveryTimeout ds = Inr (f, t)"
    using parse_delivery_ok [OF ds] by fastforce
  then have "writeTo_take env ch ds = (Inr (rep_id n, f, t), snd (newID (snd (writeToDelay env statusData ch))))"
    using live i by (simp add: writeTo_take_def newID_def)
  moreover have "0 < split_limit (c_maxDataLen ch)" by (rule split_limit_pos [OF m])
  ultimately show ?thesis
    using w i by (auto simp: half_turn_def Let_def newID_def sender_frame_def ids.nxt_rep)
qed

lemma half_put:
  assumes laws: "crypto_laws L" and env: "env_ok env" and m: "0 \<le> c_maxDataLen ch"
    and w: "w_result w = None" "w_held w = Some (rep_id n, f, t)"
  defines "k \<equiv> nat (split_limit (c_maxDataLen ch))"
  shows "\<exists>w' ch' out pac. half_turn L env ds w ch = (w', ch', out) \<and>
     sq_items (c_sendQueue ch') = sq_items (c_sendQueue ch) @ [pac] \<and>
     sent_as L (c_crypt ch) n [hd (todo k w)] [pac] \<and> c_id ch' = c_id ch \<and> sender_frame ch ch' \<and>
     todo k w' = tl (todo k w) \<and> w_held w' = None \<and> no_error w'"
proof -
  obtain nonce where nonce: "we_nonce env = Some nonce" "length nonce = nonceSize"
    using env by (auto simp: env_ok_def)
  have put: "\<exists>ch' out pac. writeTo_put L env ch (rep_id n, f, t) d (statusData OR sp) = ((rep_id n, None), ch', out) \<and>
      sq_items (c_sendQueue ch') = sq_items (c_sendQueue ch) @ [pac] \<and>
      sent_as L (c_crypt ch) n [(d, sp)] [pac] \<and> c_id ch' = c_id ch \<and> sender_frame ch ch'"
    if sp: "sp = 0 \<or> sp = statusSplit" for d sp
  proof -
    obtain ct where ct: "encryptPacketData L (we_nonce env) (c_crypt ch) (rep_id n) d = Inr ct"
      "decryptPacketData L (c_crypt ch) (rep_id n) ct = Inr d"
      using crypt_packet [OF laws nonce(2), of "c_crypt ch" "rep_id n" d] nonce(1) by auto
    obtain pac ch' out where p: "writeTo_packet env ch (rep_id n) ct (statusData OR sp) f t = (ch', out)"
      "sq_queue (c_sendQueue ch') = sq_queue (c_sendQueue ch) @ [(sq_next (c_sendQueue ch), pac)]"
      "wire_of pac = (rep_id n, statusData OR sp, ct)" "c_id ch' = c_id ch" "sender_frame ch ch'"
      using writeTo_packet_data [OF split_status [OF sp], of env ch "rep_id n" ct f t] unfolding sender_frame_def by blast
    then show ?thesis
      using ct by (auto simp: writeTo_put_def sq_items_def sent_as_def wire_of_def)
  qed
  show ?thesis
  proof (cases "int (length (w_data w)) \<le> split_limit (c_maxDataLen ch)")
    case True
    then have "fragments k (w_data w) = [(w_data w, 0)]"
      by (intro fragments_short) (simp add: k_def)
    moreover obtain ch' out pac where p: "writeTo_put L env ch (rep_id n, f, t) (w_data w) (statusData OR 0) = ((rep_id n, None), ch', out)"
      "sq_items (c_sendQueue ch') = sq_items (c_sendQueue ch) @ [pac]"
      "sent_as L (c_crypt ch) n [(w_data w, 0)] [pac]" "c_id ch' = c_id ch" "sender_frame ch ch'"
      using put [of 0 "w_data w"] by blast
    moreover have "half_turn L env ds w ch =
        (w\<lparr>w_result := Some (if w_turn w = 0 then rep_id n else w_rid w, None), w_held := None\<rparr>, ch', out)"
      using p(1) True w by (simp add: half_turn_def)
    ultimately show ?thesis
      using w by (intro exI conjI) (assumption | simp add: todo_def no_error_def)+
  next
    case False
    have pos: "0 < split_limit (c_maxDataLen ch)" by (rule split_limit_pos [OF m])
    then have "fragments k (w_data w) = (take k (w_data w), statusSplit) # fragments k (drop k (w_data w))"
      using False by (intro fragments_long) (simp_all add: k_def)
    moreover obtain ch' out pac where
      p: "writeTo_put L env ch (rep_id n, f, t) (take k (w_data w)) (statusData OR statusSplit) = ((rep_id n, None), ch', out)"
      "sq_items (c_sendQueue ch') = sq_items (c_sendQueue ch) @ [pac]"
      "sent_as L (c_crypt ch) n [(take k (w_data w), statusSplit)] [pac]" "c_id ch' = c_id ch" "sender_frame ch ch'"
      using put [of statusSplit "take k (w_data w)"] by blast
    moreover have "half_turn L env ds w ch =
        (w\<lparr>w_data := drop k (w_data w), w_turn := Suc (w_turn w), w_rid := rep_id n, w_held := None\<rparr>, ch', out)"
      using p(1) False pos w unfolding k_def by (simp add: half_turn_def Let_def)
    ultimately show ?thesis
      using w by (intro exI conjI) (assumption | simp add: todo_def no_error_def)+
  qed
qed

text \<open>The calls follow the specification.\<close>

definition call_follows :: "nat \<Rightarrow> nat \<Rightarrow> call \<Rightarrow> nat option \<times> (bytes \<times> u8) list \<Rightarrow> bool" where
  "call_follows n m w c \<longleftrightarrow> no_error w \<and> todo m w = snd c \<and> (w_result w \<noteq> None \<longrightarrow> w_held w = None) \<and>
     (case fst c of None \<Rightarrow> w_held w = None | Some j \<Rightarrow> \<exists>f t. w_held w = Some (rep_id (n + j), f, t))"

lemma run_halves_spec:
  assumes laws: "crypto_laws L" and ds: "delivery_ok ds"
    and "\<forall>x\<in>set sch. env_ok (snd x)" "\<not> st_destroyed (c_stat ch)" "c_id ch = rep_id (n + k)" "0 \<le> c_maxDataLen ch"
    and "list_all2 (call_follows n (nat (split_limit (c_maxDataLen ch)))) ws cs" "run_halves L ds sch ws ch = (ws', ch', out)"
    and "interleave_halves (map fst sch) k cs = (F, qs, left)"
  shows "\<exists>pks. sq_items (c_sendQueue ch') = sq_items (c_sendQueue ch) @ pks \<and>
     list_all2 (\<lambda>q p. sent_as L (c_crypt ch) (n + fst q) [snd q] [p]) qs pks \<and>
     c_id ch' = rep_id (n + k + length F) \<and> sender_frame ch ch' \<and>
     list_all2 (call_follows n (nat (split_limit (c_maxDataLen ch)))) ws' left"
  using assms(3-)
proof (induction sch arbitrary: ws ch k cs F qs out)
  case Nil
  then show ?case by (intro exI [of _ "[]"]) auto
next
  case (Cons x sch)
  obtain i env where x: "x = (i, env)" by (cases x)
  let ?m = "nat (split_limit (c_maxDataLen ch))"
  have len: "length ws = length cs" using Cons.prems(5) by (rule list_all2_lengthD)
  show ?case
  proof (cases "i < length cs \<and> snd (cs ! i) \<noteq> []")
    case True
    then have fol: "call_follows n ?m (ws ! i) (cs ! i)"
      using list_all2_nthD2 [OF Cons.prems(5)] by blast
    then have w: "w_result (ws ! i) = None"
      using True todo_Nil [of ?m "ws ! i"] unfolding call_follows_def by metis
    obtain w1 ch1 o1 where turn: "half_turn L env ds (ws ! i) ch = (w1, ch1, o1)" by (metis prod.collapse)
    obtain out2 where rest: "run_halves L ds sch (ws[i := w1]) ch1 = (ws', ch', out2)"
      using Cons.prems(6) True turn x len by (auto simp: Let_def split: prod.splits)
    have next_all: "list_all2 (call_follows n (nat (split_limit (c_maxDataLen ch1)))) (ws[i := w1]) (cs[i := c])"
      if "call_follows n ?m w1 c" "sender_frame ch ch1" for c
      using list_all2_update_cong [OF Cons.prems(5) that(1)] that(2) by (simp add: sender_frame_def)
    show ?thesis
    proof (cases "fst (cs ! i)")
      case None
      then have "w_held (ws ! i) = None" using fol by (simp add: call_follows_def)
      then obtain f t where t: "w1 = (ws ! i)\<lparr>w_held := Some (rep_id (n + k), f, t)\<rparr>" "o1 = []"
        "c_sendQueue ch1 = c_sendQueue ch" "c_id ch1 = rep_id (n + Suc k)" "sender_frame ch ch1"
        using half_take [OF Cons.prems(2) ds Cons.prems(3,4) w, of L env] turn by auto
      have c: "call_follows n ?m w1 (Some k, snd (cs ! i))"
        using fol w t(1) by (simp add: call_follows_def no_error_def todo_def)
      obtain F1 where F1: "interleave_halves (map fst sch) (Suc k) (cs[i := (Some k, snd (cs ! i))]) = (F1, qs, left)"
        "F = hd (snd (cs ! i)) # F1"
        using Cons.prems(7) True None x by (cases "cs ! i") (auto split: prod.splits)
      have live: "\<not> st_destroyed (c_stat ch1)" "0 \<le> c_maxDataLen ch1"
        using t(5) Cons.prems(2,4) by (simp_all add: sender_frame_def)
      obtain pks where IH: "sq_items (c_sendQueue ch') = sq_items (c_sendQueue ch1) @ pks"
        "list_all2 (\<lambda>q p. sent_as L (c_crypt ch1) (n + fst q) [snd q] [p]) qs pks"
        "c_id ch' = rep_id (n + Suc k + length F1)" "sender_frame ch1 ch'"
        "list_all2 (call_follows n (nat (split_limit (c_maxDataLen ch1)))) ws' left"
        using Cons.IH [OF _ live(1) t(4) live(2) next_all [OF c t(5)] rest F1(1)] Cons.prems(1) by auto
      then show ?thesis
        using t(3,5) F1(2) sender_frame_trans [OF t(5) IH(4)] by (intro exI [of _ pks]) (simp add: sender_frame_def)
    next
      case (Some j)
      then obtain f t where "w_held (ws ! i) = Some (rep_id (n + j), f, t)" using fol by (auto simp: call_follows_def)
      then obtain pac where t: "sq_items (c_sendQueue ch1) = sq_items (c_sendQueue ch) @ [pac]"
        "sent_as L (c_crypt ch) (n + j) [hd (todo ?m (ws ! i))] [pac]" "c_id ch1 = rep_id (n + k)" "sender_frame ch ch1"
        "todo ?m w1 = tl (todo ?m (ws ! i))" "w_held w1 = None" "no_error w1"
        using half_put [OF laws _ Cons.prems(4) w, of env "n + j" f t ds] Cons.prems(1,3) turn x by auto
      have todo: "todo ?m (ws ! i) = snd (cs ! i)" using fol by (simp add: call_follows_def)
      have c: "call_follows n ?m w1 (None, tl (snd (cs ! i)))"
        using t todo by (simp add: call_follows_def)
      obtain qs1 where F1: "interleave_halves (map fst sch) k (cs[i := (None, tl (snd (cs ! i)))]) = (F, qs1, left)"
        "qs = (j, hd (snd (cs ! i))) # qs1"
        using Cons.prems(7) True Some x by (cases "cs ! i") (auto split: prod.splits)
      have live: "\<not> st_destroyed (c_stat ch1)" "0 \<le> c_maxDataLen ch1"
        using t(4) Cons.prems(2,4) by (simp_all add: sender_frame_def)
      obtain pks where IH: "sq_items (c_sendQueue ch') = sq_items (c_sendQueue ch1) @ pks"
        "list_all2 (\<lambda>q p. sent_as L (c_crypt ch1) (n + fst q) [snd q] [p]) qs1 pks"
        "c_id ch' = rep_id (n + k + length F)" "sender_frame ch1 ch'"
        "list_all2 (call_follows n (nat (split_limit (c_maxDataLen ch1)))) ws' left"
        using Cons.IH [OF _ live(1) t(3) live(2) next_all [OF c t(4)] rest F1(1)] Cons.prems(1) by auto
      then show ?thesis
        using t(1,2,4) F1(2) todo sender_frame_trans [OF t(4) IH(4)]
        by (intro exI [of _ "pac # pks"]) (simp add: sender_frame_def)
    qed
  next
    case False
    have "half_turn L env ds (ws ! i) ch = (ws ! i, ch, [])" if i: "i < length cs"
    proof -
      have "call_follows n ?m (ws ! i) (cs ! i)" using list_all2_nthD2 [OF Cons.prems(5) i] .
      then have "w_result (ws ! i) \<noteq> None" using False i todo_Nil [of ?m "ws ! i"] by (auto simp: call_follows_def)
      then show ?thesis by (simp add: half_turn_def)
    qed
    then have "\<exists>out. run_halves L ds sch ws ch = (ws', ch', out)"
      using Cons.prems(6) x len by (auto split: prod.splits if_splits)
    moreover have "interleave_halves (map fst sch) k cs = (F, qs, left)"
      using Cons.prems(7) x False by (auto split: if_splits)
    ultimately show ?thesis
      using Cons.IH Cons.prems(1-5) by auto
  qed
qed

text \<open>Whole turns are one of the ways to take half turns.\<close>

lemma run_calls_halves:
  assumes "\<forall>w\<in>set ws. w_held w = None"
  shows "run_calls L ds sch ws ch = run_halves L ds (concat (map (\<lambda>x. [x, x]) sch)) ws ch"
  using assms
proof (induction sch arbitrary: ws ch)
  case (Cons x sch)
  obtain i env where x: "x = (i, env)" by (cases x)
  show ?case
  proof (cases "i < length ws")
    case True
    obtain w1 ch1 o1 where 1: "half_turn L env ds (ws ! i) ch = (w1, ch1, o1)" by (metis prod.collapse)
    obtain w2 ch2 o2 where 2: "half_turn L env ds w1 ch1 = (w2, ch2, o2)" by (metis prod.collapse)
    have none: "w_held (ws ! i) = None" using Cons.prems True by simp
    have turn: "write_turn L env ds (ws ! i) ch = (w2, ch2, o1 @ o2)"
      by (simp add: write_turn_halves(1) [OF none] 1 2)
    have "w_held w2 = None" using write_turn_halves(2) [OF none, of L env ds ch] by (simp add: turn)
    then have "\<forall>w\<in>set (ws[i := w2]). w_held w = None"
      using Cons.prems set_update_subset_insert [of ws i w2] by blast
    then show ?thesis
      using Cons.IH [of "ws[i := w2]" ch2] True x 1 2 turn by (simp add: Let_def split_def)
  next
    case False
    then show ?thesis using Cons x by simp
  qed
qed simp

subsection \<open>What the other side reads\<close>

lemma interleave_set: "set (fst (interleave js xss)) \<subseteq> set (concat xss)"
  using arg_cong [OF interleave_mset [of js xss], of set_mset] by auto

text \<open>All the packets of the calls arrive, in any order and some more than once.\<close>

lemma run_calls_received:
  assumes laws: "crypto_laws L" and ds: "delivery_ok ds" and sch: "\<forall>x\<in>set sch. env_ok (snd x)"
    and s: "fresh_sender s" and r: "fresh_receiver r" "decryptPacketData L (c_crypt r) = decryptPacketData L (c_crypt s)"
    and run: "run_calls L ds sch (map start_call ms) s = (ws, s', out)"
    and F: "interleave (map fst sch) (map (message_fragments s) ms) = (F, left)"
    and ns: "window_ok [] ns" "set ns = {..<length F}"
  shows "\<exists>hist. reads (snd (serve_all L (arrivals s' envs ns) r)) = fst (combine_all hist combine_clear) \<and>
     map packet_view hist = map frag_view F"
proof -
  have s': "\<not> st_destroyed (c_stat s)" "c_id s = rep_id 0" "0 \<le> c_maxDataLen s" "sq_items (c_sendQueue s) = []"
    using s by (simp_all add: fresh_sender_def rep_id_0 sq_items_def)
  obtain pks where pks: "sq_items (c_sendQueue s') = pks" "sent_as L (c_crypt s) 0 F pks"
    using run_calls_interleave [OF laws ds sch s'(1-3) no_error_start run F [folded todo_start]] s'(4) by auto
  have "set F \<subseteq> set (concat (map (message_fragments s) ms))"
    using interleave_set [of "map fst sch" "map (message_fragments s) ms"] F by simp
  then have st: "\<forall>x\<in>set F. snd x = 0 \<or> snd x = statusSplit"
    by (auto simp: message_fragments_def dest!: subsetD fragments_status)
  obtain hist where "reads (snd (serve_all L (arrivals s' envs ns) r)) = fst (combine_all hist combine_clear)"
    "map packet_view hist = map frag_view (take (length hist) F)" "length F \<le> length hist"
    using serve_stream [OF pks st r ns(1), of envs] ns(2) by auto
  then show ?thesis by auto
qed

lemma combine_all_single:
  "map packet_view hist = map (\<lambda>m. (m, statusData)) ms \<Longrightarrow> map p_data (fst (combine_all hist combine_clear)) = ms"
proof (induction hist arbitrary: ms)
  case (Cons p hist)
  then obtain ms' where "ms = p_data p # ms'" "p_status p = statusData" "map packet_view hist = map (\<lambda>m. (m, statusData)) ms'"
    by (auto simp: Cons_eq_map_conv)
  then show ?case
    using Cons.IH [of ms'] by (simp add: combine_packet_def combine_clear_def split_def Let_def)
qed simp

subsection \<open>Properties\<close>

definition small_channel :: channel where
  "small_channel = sample_channel\<lparr>c_maxDataLen := 2\<rparr>"

lemma small_fresh: "fresh_sender small_channel" "fresh_receiver small_channel"
  using sample_fresh by (simp_all add: small_channel_def fresh_sender_def fresh_receiver_def)

lemma small_limit: "nat (split_limit (c_maxDataLen small_channel)) = 2"
  by (simp add: small_channel_def split_limit_def)

lemma sample_env: "env_ok sample_wenv" "delivery_ok []"
  by (simp_all add: env_ok_def sample_wenv_def delivery_ok_def)

text \<open>
  Concurrent messages that fit in one fragment arrive whole. Any number of calls that take turns
  in any order until all have returned, and a network that delivers every packet at least once
  in whatever order: the reader of the other side gets exactly the messages written, each once.
\<close>

lemma short_writes:
  assumes "crypto_laws L" "delivery_ok ds" "\<forall>x\<in>set sch. env_ok (snd x)"
    and s: "fresh_sender s" and r: "fresh_receiver r" "decryptPacketData L (c_crypt r) = decryptPacketData L (c_crypt s)"
    and short: "\<forall>m\<in>set ms. length m \<le> nat (split_limit (c_maxDataLen s))"
    and run: "run_calls L ds sch (map start_call ms) s = (ws, s', out)" "\<forall>w\<in>set ws. w_result w \<noteq> None"
    and ns: "window_ok [] ns" "set ns = {..<length ms}"
  shows "mset (map p_data (reads (snd (serve_all L (arrivals s' envs ns) r)))) = mset ms"
proof -
  let ?k = "nat (split_limit (c_maxDataLen s))" and ?xss = "map (message_fragments s) ms"
  obtain F left where F: "interleave (map fst sch) ?xss = (F, left)" by fastforce
  have s': "\<not> st_destroyed (c_stat s)" "c_id s = rep_id 0" "0 \<le> c_maxDataLen s"
    using s by (simp_all add: fresh_sender_def rep_id_0)
  have "map (todo ?k) ws = left"
    using run_calls_interleave [OF assms(1-3) s' no_error_start run(1) F [folded todo_start]] by blast
  then have left: "mset (concat left) = {#}"
    using run(2) by auto
  have "concat ?xss = map (\<lambda>m. (m, 0)) ms"
    using short by (induction ms) (simp_all add: message_fragments_def fragments_short)
  then have mF: "mset F = mset (map (\<lambda>m. (m, 0)) ms)"
    using interleave_mset [of "map fst sch" ?xss] F left by simp
  then have len: "length F = length ms"
    using mset_eq_length [OF mF] by simp
  have "\<forall>x\<in>set F. snd x = 0"
    using mset_eq_setD [OF mF] by simp
  then have F0: "map frag_view F = map (\<lambda>m. (m, statusData)) (map fst F)"
    by simp
  obtain hist where hist: "reads (snd (serve_all L (arrivals s' envs ns) r)) = fst (combine_all hist combine_clear)"
    "map packet_view hist = map frag_view F"
    using run_calls_received [OF assms(1-6) run(1) F ns(1), of envs] ns(2) len by metis
  have "map p_data (fst (combine_all hist combine_clear)) = map fst F"
    by (rule combine_all_single) (simp only: hist(2) F0)
  moreover have "mset (map fst F) = mset ms"
    using arg_cong [OF mF, of "image_mset fst"] by (simp add: image_mset.compositionality comp_def)
  ultimately show ?thesis
    using hist(1) by simp
qed

text \<open>
  C8: Any number of calls of WriteTo on one live channel with a length limit that is not
  negative, taking turns in any order, also between the two halves of a writeTo, where the
  identifier is taken and where the packet is queued. Identifiers are consecutive in the order
  of the first halves, but the packets stand in the send queue in the order of the second
  halves, which may be another; each is queued at most once, under the identifier taken for it
  and decryptable to what was written, and all are there once all calls have returned. A call
  returns, without an error, precisely when it has had two half turns for each fragment of its
  message. Whole turns of writeTo are a special case.
\<close>

lemma interleaved_calls:
  assumes "crypto_laws L" "delivery_ok ds" "\<forall>x\<in>set sch. env_ok (snd x)"
    and "\<not> st_destroyed (c_stat ch)" "c_id ch = rep_id n" "0 \<le> c_maxDataLen ch"
    and run: "run_halves L ds sch (map start_call ms) ch = (ws, ch', out)"
    and "i < length ms"
  shows "case interleave_halves (map fst sch) 0 (map (\<lambda>m. (None, message_fragments ch m)) ms) of (F, qs, left) \<Rightarrow>
     c_id ch' = rep_id (n + length F) \<and>
     (\<exists>pks. sq_items (c_sendQueue ch') = sq_items (c_sendQueue ch) @ pks \<and>
        list_all2 (\<lambda>q p. sent_as L (c_crypt ch) (n + fst q) [snd q] [p]) qs pks) \<and>
     mset qs \<subseteq># mset (enumerate 0 F) \<and>
     ((\<forall>w\<in>set ws. w_result w \<noteq> None) \<longrightarrow> mset qs = mset (enumerate 0 F)) \<and>
     (if 2 * length (message_fragments ch (ms ! i)) \<le> count_list (map fst sch) i
      then \<exists>rid. w_result (ws ! i) = Some (rid, None) else w_result (ws ! i) = None) \<and>
     (\<forall>turns. sch = concat (map (\<lambda>x. [x, x]) turns) \<longrightarrow> run_calls L ds turns (map start_call ms) ch = (ws, ch', out))"
proof -
  let ?k = "nat (split_limit (c_maxDataLen ch))" and ?cs = "map (\<lambda>m. (None, message_fragments ch m)) ms"
  obtain F qs left where spec: "interleave_halves (map fst sch) 0 ?cs = (F, qs, left)" by (metis prod.collapse)
  have "list_all2 (call_follows n ?k) (map start_call ms) ?cs"
    by (simp add: list_all2_conv_all_nth call_follows_def no_error_def start_call_def todo_def message_fragments_def)
  then obtain pks where calls: "sq_items (c_sendQueue ch') = sq_items (c_sendQueue ch) @ pks"
    "list_all2 (\<lambda>q p. sent_as L (c_crypt ch) (n + fst q) [snd q] [p]) qs pks"
    "c_id ch' = rep_id (n + length F)" "list_all2 (call_follows n ?k) ws left"
    using run_halves_spec [OF assms(1-4) _ assms(6) _ run spec, of n] assms(5) by auto
  have start: "calls_ok ?cs" "concat (map held_by ?cs) = []" by (simp_all add: calls_ok_def)
  have all: "mset qs + mset (concat (map held_by left)) = mset (enumerate 0 F)"
    using interleave_halves_mset [OF spec] start(2) by simp
  note len = interleave_halves_left [OF spec start(1)]
  have fol: "call_follows n ?k (ws ! j) (left ! j)" if "j < length ms" for j
    using list_all2_nthD2 [OF calls(4)] that len by simp
  have returned: "w_result (ws ! j) \<noteq> None \<longleftrightarrow> snd (left ! j) = []" if "j < length ms" for j
    using fol [OF that] todo_Nil [of ?k "ws ! j"] by (simp add: call_follows_def)
  have "mset qs = mset (enumerate 0 F)" if "\<forall>w\<in>set ws. w_result w \<noteq> None"
  proof -
    have "held_by c = []" if "c \<in> set left" for c
    proof -
      obtain j where "j < length ms" "c = left ! j" using \<open>c \<in> set left\<close> len by (auto simp: in_set_conv_nth)
      moreover have "length ws = length ms" using list_all2_lengthD [OF calls(4)] len by simp
      ultimately show ?thesis
        using returned \<open>\<forall>w\<in>set ws. w_result w \<noteq> None\<close> len that by (auto simp: held_by_def calls_ok_def split: option.split)
    qed
    then have none: "concat (map held_by left) = []" by simp
    show ?thesis using all unfolding none by simp
  qed
  moreover have "if 2 * length (message_fragments ch (ms ! i)) \<le> count_list (map fst sch) i
      then \<exists>rid. w_result (ws ! i) = Some (rid, None) else w_result (ws ! i) = None"
  proof -
    have ok: "\<exists>rid. w_result (ws ! i) = Some (rid, None)" if "w_result (ws ! i) \<noteq> None"
      using fol [OF assms(8)] that by (auto simp: call_follows_def no_error_def)
    have "halves_left (left ! i) = 2 * length (message_fragments ch (ms ! i)) - count_list (map fst sch) i"
      using len assms(8) by (simp add: halves_left_def)
    moreover have "snd (left ! i) = [] \<longleftrightarrow> halves_left (left ! i) = 0"
      using len assms(8) by (cases "snd (left ! i)") (auto simp: halves_left_def)
    ultimately have "w_result (ws ! i) \<noteq> None \<longleftrightarrow> 2 * length (message_fragments ch (ms ! i)) \<le> count_list (map fst sch) i"
      using returned [OF assms(8)] by simp
    then show ?thesis using ok by (cases "w_result (ws ! i)") simp_all
  qed
  moreover have "run_calls L ds turns (map start_call ms) ch = (ws, ch', out)" if "sch = concat (map (\<lambda>x. [x, x]) turns)" for turns
    using run run_calls_halves [of "map start_call ms" L ds turns ch] that by (simp add: start_call_def)
  moreover have "mset qs \<subseteq># mset (enumerate 0 F)"
    by (simp flip: all)
  ultimately show ?thesis
    using calls(1-3) unfolding spec by auto
qed

lemma interleaved_calls_witness:
  "map p_id (sq_items (c_sendQueue (fst (snd (run_halves plain_crypto []
     [(0, sample_wenv), (1, sample_wenv), (1, sample_wenv), (0, sample_wenv)] (map start_call [[1], [2]]) small_channel))))) = [1, 0]"
proof -
  let ?sch = "[(0, sample_wenv), (1, sample_wenv), (1, sample_wenv), (0, sample_wenv)]"
  obtain ws ch' out where run: "run_halves plain_crypto [] ?sch (map start_call [[1], [2]]) small_channel = (ws, ch', out)"
    by (metis prod.collapse)
  have c: "\<not> st_destroyed (c_stat small_channel)" "c_id small_channel = rep_id 0" "0 \<le> c_maxDataLen small_channel"
    "sq_items (c_sendQueue small_channel) = []"
    using small_fresh(1) sqf.items_empty by (simp_all add: fresh_sender_def rep_id_0 small_channel_def sample_channel_def)
  have "message_fragments small_channel [b] = [([b], 0)]" for b
    by (simp add: message_fragments_def small_limit fragments_short)
  then have "\<exists>pks. sq_items (c_sendQueue ch') = pks \<and>
      list_all2 (\<lambda>q p. sent_as plain_crypto (c_crypt small_channel) (fst q) [snd q] [p]) [(1, ([2], 0)), (0, ([1], 0))] pks"
    using interleaved_calls [OF plain_crypto_laws sample_env(2) _ c(1-3) run, of 0] sample_env(1) c(4) by simp
  then show ?thesis
    unfolding run by (auto simp: list_all2_Cons1 sent_as_def rep_id_def)
qed

text \<open>
  C9: WriteTo is not atomic for long messages. When a call gets its turn between the two
  fragments of another, both calls return without an error, every packet arrives and is
  acknowledged, and the other side reads two messages that nobody wrote: the first fragment with
  the short message appended, and the second fragment alone.
\<close>

lemma torn_write:
  assumes "crypto_laws L" "delivery_ok ds" "\<forall>x\<in>set sch. env_ok (snd x)"
    and s: "fresh_sender s" and r: "fresh_receiver r" "decryptPacketData L (c_crypt r) = decryptPacketData L (c_crypt s)"
    and len: "length a = nat (split_limit (c_maxDataLen s))" "b \<noteq> []" "length b \<le> length a" "length m \<le> length a"
    and run: "map fst sch = [0, 1, 0]" "run_calls L ds sch (map start_call [a @ b, m]) s = (ws, s', out)"
    and ns: "window_ok [] ns" "set ns = {..<3}"
  shows "map p_data (reads (snd (serve_all L (arrivals s' envs ns) r))) = [a @ m, b] \<and>
     (\<forall>w\<in>set ws. \<exists>rid. w_result w = Some (rid, None))"
proof -
  let ?k = "nat (split_limit (c_maxDataLen s))"
  have s': "\<not> st_destroyed (c_stat s)" "c_id s = rep_id 0" "0 \<le> c_maxDataLen s"
    using s by (simp_all add: fresh_sender_def rep_id_0)
  have pos: "0 < length a"
    using split_limit_pos [OF s'(3)] len(1) by simp
  have "map (message_fragments s) [a @ b, m] = [[(a, statusSplit), (b, 0)], [(m, 0)]]"
    using len pos unfolding message_fragments_def len(1) [symmetric]
    by (simp add: fragments_long fragments_short)
  then have F: "interleave (map fst sch) (map (message_fragments s) [a @ b, m]) = ([(a, statusSplit), (m, 0), (b, 0)], [[], []])"
    by (simp add: run(1))
  have "map (todo ?k) ws = [[], []] \<and> (\<forall>w\<in>set ws. no_error w)"
    using run_calls_interleave [OF assms(1-3) s' no_error_start run(2) F [folded todo_start]] by blast
  then have ok: "\<exists>rid. w_result w = Some (rid, None)" if "w \<in> set ws" for w
  proof -
    have "todo ?k w \<in> set (map (todo ?k) ws)" using that by simp
    then have "w_result w \<noteq> None"
      using \<open>map (todo ?k) ws = [[], []] \<and> (\<forall>w\<in>set ws. no_error w)\<close> by simp
    then show ?thesis
      using that \<open>map (todo ?k) ws = [[], []] \<and> (\<forall>w\<in>set ws. no_error w)\<close> by (auto simp: no_error_def)
  qed
  obtain hist where hist: "reads (snd (serve_all L (arrivals s' envs ns) r)) = fst (combine_all hist combine_clear)"
    "map packet_view hist = map frag_view [(a, statusSplit), (m, 0), (b, 0)]"
    using run_calls_received [OF assms(1-6) run(2) F ns(1), of envs] ns(2) by (auto simp del: combine_all.simps)
  then have "map p_data (fst (combine_all hist combine_clear)) = [a @ m, b]"
    by (auto simp: map_eq_Cons_conv Cons_eq_map_conv combine_packet_def combine_clear_def packet_setters)
  with hist(1) ok show ?thesis by simp
qed

lemma torn_write_witness:
  "map p_data (reads (snd (serve_all plain_crypto
     (arrivals (fst (snd (run_calls plain_crypto [] [(0, sample_wenv), (1, sample_wenv), (0, sample_wenv)]
        (map start_call [[1, 2] @ [3], [9]]) small_channel))) (\<lambda>_. sample_wenv) [0, 1, 2]) small_channel))) = [[1, 2, 9], [3]]"
proof -
  let ?sch = "[(0, sample_wenv), (1, sample_wenv), (0, sample_wenv)]"
  obtain ws s' out where run: "run_calls plain_crypto [] ?sch (map start_call [[1, 2] @ [3], [9]]) small_channel = (ws, s', out)"
    by (metis prod.collapse)
  have "window_ok [] [0, 1, 2]"
    by (intro window_ok_small) simp
  moreover have "set [0, 1, 2] = {..<3::nat}" by auto
  ultimately show ?thesis
    using torn_write [OF plain_crypto_laws sample_env(2) _ small_fresh refl _ _ _ _ _ run, of "[0, 1, 2]" "\<lambda>_. sample_wenv"]
      sample_env(1) unfolding run by (simp add: small_limit)
qed

text \<open>
  C10: A call of WriteTo that nobody disturbs returns: its loop takes at most one turn more than
  the data has full fragments, whatever each write answers (an error or a panic ends it
  earlier), and the turns one by one give the result, the channel and the output of WriteTo as a
  whole.
\<close>

lemma call_returns:
  assumes "length data div nat (split_limit (c_maxDataLen ch)) < n"
    and "run_calls L ds (map (\<lambda>k. (0, envs k)) [0..<n]) [start_call data] ch = (ws, ch', out)"
  shows "\<exists>res. map w_result ws = [Some res] \<and> channel_WriteTo L envs ch data ds = (res, ch', out)"
proof -
  have "length (message_fragments ch data) \<le> n"
    using length_fragments [of "nat (split_limit (c_maxDataLen ch))" data] assms(1) by (simp add: message_fragments_def)
  then obtain res where "w_result (ws ! 0) = Some res" "channel_WriteTo L envs ch data ds = (res, ch', out)"
    using call_alone [OF _ assms(2)] by blast
  moreover have "length ws = 1"
    using run_calls_length [OF assms(2)] by simp
  ultimately show ?thesis
    by (cases ws) auto
qed

lemma call_returns_witness:
  "map w_result (fst (run_calls plain_crypto [] (map (\<lambda>k. (0, sample_wenv)) [0..<3]) [start_call [1, 2, 3]] small_channel)) =
   [Some (fst (channel_WriteTo plain_crypto (\<lambda>_. sample_wenv) small_channel [1, 2, 3] []))]"
proof -
  obtain ws ch' out where run: "run_calls plain_crypto [] (map (\<lambda>k. (0, sample_wenv)) [0..<3]) [start_call [1, 2, 3]] small_channel = (ws, ch', out)"
    by (metis prod.collapse)
  have "length [1::u8, 2, 3] div nat (split_limit (c_maxDataLen small_channel)) < 3"
    by (simp add: small_limit)
  from call_returns [OF this, where envs = "\<lambda>_. sample_wenv", OF run] show ?thesis
    unfolding run by auto
qed

end
