(* ===== verification/Retransmission.thy ===== *)
theory Retransmission
  imports System
begin

section \<open>A peer that does not answer (send_queue.go, channel.go)\<close>

text \<open>
  How long a connector keeps sending to a peer that acknowledges nothing: the retransmission timer
  of a channel, and whatever else the connector does meanwhile.
\<close>

subsection \<open>One pass and the oldest packet\<close>

lemma retransmit_first:
  assumes first: "sq_getFirst (c_sendQueue ch) = Some p" and run: "channel_retransmit now ch = (ch', out, False)"
  shows "sq_getFirst (c_sendQueue ch') =
       Some (if p_retransmitTime p < now then setRetransmitTime now ch (setRetransmitAttempts (p_retransmitAttempts p + 1) p) else p)"
    and "p_retransmitTime p < now \<Longrightarrow> p_retransmitAttempts p < maxRetransmitAttempts"
proof -
  obtain e es where q: "sq_queue (c_sendQueue ch) = (e, p) # es"
    using first by (auto simp: sq_getFirst_def split: list.splits)
  obtain es' sent dead where l: "retransmit_loop now (setRetransmitTime now ch) ((e, p) # es) = (es', sent, dead)"
    by (metis prod.collapse)
  have parts: "dead = False" "sq_queue (c_sendQueue ch') = es'"
    using run l q by (auto simp: channel_retransmit_def Let_def sq_retransmit_arm_def)
  show "sq_getFirst (c_sendQueue ch') =
       Some (if p_retransmitTime p < now then setRetransmitTime now ch (setRetransmitAttempts (p_retransmitAttempts p + 1) p) else p)"
    "p_retransmitTime p < now \<Longrightarrow> p_retransmitAttempts p < maxRetransmitAttempts"
    using l unfolding sq_getFirst_def parts by (auto simp: Let_def split: prod.splits if_splits)
qed

lemma retransmit_rtt_max: "retransmit_rtt tt ra \<le> maxRTT"
  by (simp add: retransmit_rtt_def Let_def)

text \<open>The attempts and the retransmission time of the oldest queued packet of a channel.\<close>

definition oldest :: "nat \<Rightarrow> tru \<Rightarrow> (int \<times> time) option" where
  "oldest r tru = map_option (\<lambda>p. (p_retransmitAttempts p, p_retransmitTime p)) (sq_getFirst (c_sendQueue (get_ch tru r)))"

lemma retransmit_timer_oldest:
  assumes "r < length (t_heap tru)" "oldest r tru = Some (a, rt)"
  shows "st_destroyed (c_stat (get_ch (retransmit_timer env r tru) r)) \<or>
     (if rt < te_now env then a < maxRetransmitAttempts \<and>
        (\<exists>rt'\<le>te_now env + maxRTT. oldest r (retransmit_timer env r tru) = Some (a + 1, rt'))
      else oldest r (retransmit_timer env r tru) = Some (a, rt))"
proof -
  obtain p where p: "sq_getFirst (c_sendQueue (get_ch tru r)) = Some p" "a = p_retransmitAttempts p" "rt = p_retransmitTime p"
    using assms(2) by (auto simp: oldest_def)
  obtain ch out dead where c: "channel_retransmit (te_now env) (get_ch tru r) = (ch, out, dead)"
    by (metis prod.collapse)
  show ?thesis
  proof (cases dead)
    case True
    then show ?thesis
      using assms(1) c by (simp add: retransmit_timer_def destroy_get channel_stop_def stat_destroy_def)
  next
    case False
    then have "channel_retransmit (te_now env) (get_ch tru r) = (ch, out, False)" using c by simp
    note f = retransmit_first [OF p(1) this]
    have "oldest r (retransmit_timer env r tru) = map_option (\<lambda>p. (p_retransmitAttempts p, p_retransmitTime p)) (sq_getFirst (c_sendQueue ch))"
      using assms(1) c False by (simp add: retransmit_timer_def oldest_def)
    then show ?thesis
      using f p(2,3) retransmit_rtt_max
      by (auto simp: setRetransmitTime_def packet_setRetransmitTime_def setRetransmitAttempts_def)
  qed
qed

subsection \<open>Silence\<close>

text \<open>
  A run in which the oldest packet of channel \<open>r\<close> is never acknowledged: passes of its retransmission
  timer, each at most \<open>g\<close> after the one before (100 ms and what the runtime adds), and between them
  any steps of the connector that leave the oldest packet as it is.  The times are those of the last
  pass.
\<close>

inductive unanswered :: "crypto \<Rightarrow> duration \<Rightarrow> nat \<Rightarrow> tru \<Rightarrow> time \<Rightarrow> tru \<Rightarrow> time \<Rightarrow> bool" for L g r tru t where
  unanswered_start: "unanswered L g r tru t tru t"
| unanswered_pass: "unanswered L g r tru t tru' t' \<Longrightarrow> \<not> st_destroyed (c_stat (get_ch tru' r)) \<Longrightarrow> te_now env \<le> t' + g \<Longrightarrow>
    unanswered L g r tru t (retransmit_timer env r tru') (te_now env)"
| unanswered_other: "unanswered L g r tru t tru' t' \<Longrightarrow> tru_act L l tru' tru'' \<Longrightarrow> oldest r tru'' = oldest r tru' \<Longrightarrow>
    unanswered L g r tru t tru'' t'"

text \<open>Each attempt takes at most the largest retransmission delay and one more pass.\<close>

lemma unanswered_bound:
  assumes "unanswered L g r tru t tru' t'" "hash_laws L" "tru_ok tru" "r < length (t_heap tru)"
    and "oldest r tru = Some (a, rt)" "a \<le> maxRetransmitAttempts" "0 \<le> g"
  shows "evolves tru tru' \<and> (st_destroyed (c_stat (get_ch tru' r)) \<or>
     (\<exists>a' rt'. oldest r tru' = Some (a', rt') \<and> a \<le> a' \<and> a' \<le> maxRetransmitAttempts \<and>
        max rt' t' \<le> max rt t + (a' - a) * (maxRTT + g)))"
  using assms
proof (induction rule: unanswered.induct)
  case unanswered_start
  then show ?case by (simp add: evolves_refl)
next
  case (unanswered_pass tru' t' env)
  then have ev: "evolves tru tru'" by blast
  then have ok: "tru_ok tru'" "r < length (t_heap tru')" using evolvesD(1,3) unanswered_pass.prems(3) by blast+
  obtain a' rt' where o: "oldest r tru' = Some (a', rt')" "a \<le> a'" "a' \<le> maxRetransmitAttempts"
    "max rt' t' \<le> max rt t + (a' - a) * (maxRTT + g)"
    using unanswered_pass by blast
  have "evolves tru (retransmit_timer env r tru')"
    using evolves_trans [OF ev] retransmit_timer_ok [OF ok] by blast
  moreover have "max rt'' (te_now env) \<le> max rt t + (a' + 1 - a) * (maxRTT + g)" if "rt'' \<le> te_now env + maxRTT" for rt''
  proof -
    have "max rt'' (te_now env) \<le> t' + g + maxRTT"
      using that unanswered_pass.hyps(3) by simp
    also have "\<dots> \<le> max rt t + (a' - a) * (maxRTT + g) + (maxRTT + g)"
      using o(4) by simp
    also have "\<dots> = max rt t + (a' + 1 - a) * (maxRTT + g)"
      by (simp add: algebra_simps)
    finally show ?thesis .
  qed
  ultimately show ?case
    using retransmit_timer_oldest [OF ok(2) o(1), of env] o(2-4) by (cases "rt' < te_now env") fastforce+
next
  case (unanswered_other tru' t' l tru'')
  then have ev: "evolves tru tru'" by blast
  then have "evolves tru' tru''" using tru_act_evolves unanswered_other evolvesD(1) by blast
  then show ?case
    using unanswered_other evolves_trans [OF ev] ev by (auto simp: evolves_def)
qed

subsection \<open>Properties\<close>

definition sample_queue :: send_queue where
  "sample_queue = sq_add (setRetransmitAttempts 100 (newPacket 0)) (sq_init 0 sq_empty)"

definition sample_silent :: tru where
  "sample_silent = put_ch 0 ((get_ch sample_tru1 0)\<lparr>c_sendQueue := sample_queue\<rparr>) sample_tru1"

lemma sample_queue_ok: "sq_ok sample_queue" "armed (sq_timer sample_queue)"
proof -
  have "sq_ok (sq_init 0 sq_empty)"
    by (simp add: sq_init_def sq_retransmit_arm_def sq_empty_def sq_ok_def)
  then show "sq_ok sample_queue"
    unfolding sample_queue_def by (rule sq.inv_add)
  show "armed (sq_timer sample_queue)"
    by (simp add: sample_queue_def sq_add_def sq_init_def sq_retransmit_arm_def)
qed

lemma sample_silent_ok: "tru_ok sample_silent" "0 < length (t_heap sample_silent)" "oldest 0 sample_silent = Some (100, 0)"
proof -
  let ?ch = "get_ch sample_tru1 0"
  have ok: "channel_ok ?ch" "\<not> st_destroyed (c_stat ?ch)"
    using sample_tru1_ok make_channel_ok by simp_all
  then have "keeps ?ch (?ch\<lparr>c_sendQueue := sample_queue\<rparr>, [])"
    using sample_queue_ok by (simp add: keeps_def channel_ok_def timers_ok_def)
  then show "tru_ok sample_silent"
    unfolding sample_silent_def using sample_tru1_ok(1) by (intro tru_ok_put)
  show "0 < length (t_heap sample_silent)"
    by (simp add: sample_silent_def sample_tru1_ok(2))
  show "oldest 0 sample_silent = Some (100, 0)"
    by (simp add: sample_silent_def sample_tru1_ok(2) oldest_def sample_queue_def sq_add_def sq_init_def sq_retransmit_arm_def sq_empty_def sq_getFirst_def
        setRetransmitAttempts_def newPacket_def)
qed

text \<open>
  C7: Retransmission ends. As long as the oldest packet of a channel is not acknowledged,
  whatever else the connector does, it is sent again at most a hundred times: once a pass of the
  timer comes later than (100 - attempts) times the largest delay (3 s) and the gap between two
  passes after the packet was due, the channel is destroyed and no address leads to it.
\<close>

lemma gives_up:
  assumes "hash_laws L" "tru_ok tru" "r < length (t_heap tru)"
    and "oldest r tru = Some (a, due)" "a \<le> maxRetransmitAttempts" "0 \<le> g"
    and "unanswered L g r tru t tru' t'" "max due t + (maxRetransmitAttempts - a) * (maxRTT + g) < t'"
  shows "st_destroyed (c_stat (get_ch tru' r)) \<and> getChannel addr tru' \<noteq> Some r"
proof -
  have bound: "evolves tru tru' \<and> (st_destroyed (c_stat (get_ch tru' r)) \<or>
     (\<exists>a' rt'. oldest r tru' = Some (a', rt') \<and> a \<le> a' \<and> a' \<le> maxRetransmitAttempts \<and>
        max rt' t' \<le> max due t + (a' - a) * (maxRTT + g)))"
    by (rule unanswered_bound [OF assms(7,1-6)])
  have "t' \<le> max due t + (maxRetransmitAttempts - a) * (maxRTT + g)"
    if "max rt' t' \<le> max due t + (a' - a) * (maxRTT + g)" "a' \<le> maxRetransmitAttempts" for a' rt'
  proof -
    have "(a' - a) * (maxRTT + g) \<le> (maxRetransmitAttempts - a) * (maxRTT + g)"
      using that(2) assms(6) by (intro mult_right_mono) auto
    then show ?thesis using that(1) by linarith
  qed
  then have "st_destroyed (c_stat (get_ch tru' r))"
    using bound assms(8) by (metis not_less)
  then show ?thesis
    using tru_okD(3) [OF evolvesD(1)] bound by (auto simp: getChannel_def)
qed

lemma gives_up_witness: "st_destroyed (c_stat (get_ch (retransmit_timer sample_tenv 0 sample_silent) 0))"
proof -
  have "\<not> st_destroyed (c_stat (get_ch sample_silent 0))"
    using sample_tru1_ok make_channel_ok by (simp add: sample_silent_def)
  then have "unanswered plain_crypto second 0 sample_silent 0 (retransmit_timer sample_tenv 0 sample_silent) (te_now sample_tenv)"
    by (rule unanswered_pass [OF unanswered_start]) (simp add: sample_tenv_def)
  from gives_up [OF plain_hash_laws sample_silent_ok _ _ this] show ?thesis
    by (simp add: sample_tenv_def)
qed

end
