(* ===== verification/Wire_Types.thy ===== *)
theory Wire_Types
  imports Link
begin

section \<open>What goes on the wire\<close>

text \<open>
  A type system for the packets that a connector makes: the identifier fits the header, and the
  status is one of those the protocol sends through the sender goroutine.  Every queued packet and
  every packet on its way to the sender is typed, in all reachable states.
\<close>

subsection \<open>Typed packets\<close>

definition sent_statuses :: "u8 list" where
  "sent_statuses =
     [statusConnectServerAnswer, statusConnectClientAnswer, statusConnectDone, statusData, statusDataNext,
      statusAck, statusPing, statusPong]"

definition wire_typed :: "u32 \<times> u8 \<times> bytes \<Rightarrow> bool" where
  "wire_typed w \<longleftrightarrow> id_ok (fst w) \<and> fst (snd w) \<in> set sent_statuses"

definition queue_typed :: "channel \<Rightarrow> bool" where
  "queue_typed ch \<longleftrightarrow> (\<forall>w\<in>set (map wire_of (sq_items (c_sendQueue ch))). wire_typed w)"

text \<open>The result of a channel operation: its queue, and what it hands to the sender.\<close>

definition op_typed :: "channel \<times> out list \<Rightarrow> bool" where
  "op_typed st \<longleftrightarrow> queue_typed (fst st) \<and> (\<forall>p\<in>set (sends (snd st)). wire_typed (wire_of p))"

definition tru_typed :: "tru \<Rightarrow> bool" where
  "tru_typed t \<longleftrightarrow> (\<forall>ch\<in>set (t_heap t). queue_typed ch) \<and> (\<forall>x\<in>set (t_senderCh t). wire_typed (wire_of (snd x)))"

lemma wire_typed_reads_back:
  "wire_typed (wire_of p) \<Longrightarrow> \<exists>q. unmarshalBinary (marshalBinary p) (newPacket now) = Inr q \<and> wire_of q = wire_of p"
  using unmarshal_marshal [of p now] by (auto simp: wire_typed_def wire_of_def id_ok_and_id)

lemma control_typed:
  "id_ok i \<Longrightarrow> s \<in> set sent_statuses \<Longrightarrow> wire_typed (wire_of (control_packet env i s))"
  by (simp add: wire_typed_def wire_of_def control_packet_def packet_setters)

subsection \<open>The operations of a channel\<close>

lemma queue_typed_view: "sender_view ch = sender_view ch' \<Longrightarrow> queue_typed ch = queue_typed ch'"
  by (simp add: sender_view_def queue_typed_def)

lemma queue_typed_frame [simp]:
  "queue_typed (ch\<lparr>c_stat := s\<rparr>) = queue_typed ch" "queue_typed (ch\<lparr>c_reader := f\<rparr>) = queue_typed ch"
  "queue_typed (ch\<lparr>c_crypt := k\<rparr>) = queue_typed ch" "queue_typed (channel_stop ch) = queue_typed ch"
  "queue_typed (send_speed_timer now ch) = queue_typed ch" "queue_typed (recv_speed_timer now ch) = queue_typed ch"
  by (simp_all add: queue_typed_def channel_stop_def sq_destroy_def sq_items_def send_speed_timer_def recv_speed_timer_def)

lemma op_typed_writeTo:
  assumes "channel_ok ch" "queue_typed ch" "stat = statusData \<or> stat = statusDataNext"
  shows "op_typed (snd (writeTo L env ch d stat ds is))"
proof -
  have i: "id_ok (c_id ch)" using assms(1) by (simp add: channel_ok_def)
  have w: "wire_typed (c_id ch, stat, x)" for x
    using i assms(3) by (auto simp: wire_typed_def sent_statuses_def)
  have packet: "op_typed (writeTo_packet env c (c_id ch) d' stat f t)" if "queue_typed c" for c d' f t
  proof -
    have "stat AND NOT statusSplit = statusData" using assms(3) by auto
    from writeTo_packet_data [OF this, of env c "c_id ch" d' f t] obtain pac c' out where
      "writeTo_packet env c (c_id ch) d' stat f t = (c', out)" "wire_of pac = (c_id ch, stat, d')" "out = [] \<or> out = [OSend pac]"
      "sq_queue (c_sendQueue c') = sq_queue (c_sendQueue c) @ [(sq_next (c_sendQueue c), pac)]"
      by blast
    then show ?thesis
      using that w by (auto simp: op_typed_def queue_typed_def sq_items_def)
  qed
  have q: "queue_typed (snd (newID (snd (writeToDelay env statusData ch))))" "c_id (snd (writeToDelay env statusData ch)) = c_id ch"
    using assms(2) by (simp_all add: queue_typed_def newID_def)
  show ?thesis
    using packet [OF q(1)] q assms
    by (auto simp: writeTo_def Let_def split_def newID_def op_typed_def split: sum.split)
qed

lemma op_typed_WriteTo:
  assumes "channel_ok ch" "queue_typed ch"
  shows "op_typed (snd (channel_WriteTo L envs ch data ds))"
proof -
  let ?P = "\<lambda>st. channel_ok (fst st) \<and> op_typed (fst st, fst (snd st))"
  have step: "?P (snd (channel_writer L envs ds d sp st))" if sp: "sp = 0 \<or> sp = statusSplit" and st: "?P st" for d sp st
  proof -
    have "op_typed (snd (writeTo L (envs (snd (snd st))) (fst st) d (statusData OR sp) ds []))"
      using sp st by (intro op_typed_writeTo) (auto simp: op_typed_def)
    then show ?thesis
      using st channel_ok_writeTo [of "fst st" L "envs (snd (snd st))" d "statusData OR sp" ds "[]"]
      by (auto simp: channel_writer_def split_def op_typed_def)
  qed
  have "?P (snd (split_loop (channel_writer L envs ds) m 0 0 data (ch, [], 0)))" for m
    by (rule split_loop_keeps_pieces [where P = ?P, OF step]) (use assms in \<open>simp_all add: op_typed_def\<close>)
  then show ?thesis
    by (simp add: channel_WriteTo_def splitPacket_def split_def)
qed

lemma op_typed_controls:
  assumes "queue_typed ch"
  shows "op_typed (snd (writeToPing L env ch))" "op_typed (snd (writeToDisconnect L env ch))"
  using assms by (simp_all add: writeTo_controls op_typed_def control_typed sent_statuses_def id_ok_iff)

lemma op_typed_ack:
  assumes "queue_typed ch"
  shows "op_typed (serve_ack now pac ch)"
proof -
  have del: "set (sq_items (snd (sq_delete i q))) \<subseteq> set (sq_items q)" for i q
    by (auto simp: sq_delete_def sq_items_def split: option.split)
  have "c_sendQueue (fst (serve_ack now pac ch)) = c_sendQueue ch \<or>
      c_sendQueue (fst (serve_ack now pac ch)) = snd (sq_delete (p_id pac) (c_sendQueue ch))"
    by (simp add: serve_ack_def setTripTime_def Let_def split: option.split prod.split)
  then have "queue_typed (fst (serve_ack now pac ch))"
    using assms del [of "p_id pac" "c_sendQueue ch"] by (auto simp: queue_typed_def)
  moreover have "sends (snd (serve_ack now pac ch)) = []"
    by (simp add: serve_ack_def setTripTime_def Let_def split: option.split prod.split)
  ultimately show ?thesis by (simp add: op_typed_def)
qed

lemma op_typed_serve:
  assumes "queue_typed ch" "id_ok (p_id pac)"
  shows "op_typed (serve_channel L env pac ch)"
proof -
  have sub: "op_typed (serve_channel L env pac ch)"
    if "sender_view (fst (serve_channel L env pac ch)) = sender_view ch"
      "set (sends (snd (serve_channel L env pac ch))) \<subseteq> {control_packet env i s}" "id_ok i" "s \<in> set sent_statuses" for i s
    using that assms(1) queue_typed_view [OF that(1)] control_typed [OF that(3,4), of env] by (auto simp: op_typed_def)
  consider "p_status pac = statusData \<or> p_status pac = statusDataNext" | "p_status pac = statusAck"
    | "p_status pac \<noteq> statusData" "p_status pac \<noteq> statusDataNext" "p_status pac \<noteq> statusAck" by blast
  then show ?thesis
  proof cases
    case 1
    show ?thesis
      by (rule sub [OF serve_channel_data_sender [OF 1] assms(2)]) (simp add: sent_statuses_def)
  next
    case 2
    then show ?thesis
      using op_typed_ack [OF assms(1), of "we_now env" pac] by (simp add: serve_channel_ack op_typed_def split_def Let_def)
  next
    case 3
    show ?thesis
      by (rule sub [OF serve_channel_other(1,4) [OF 3]]) (simp_all add: id_ok_iff sent_statuses_def)
  qed
qed

lemma op_typed_retransmit:
  assumes "queue_typed ch" "channel_retransmit now ch = (ch', out, dead)"
  shows "op_typed (ch', out)"
proof -
  obtain es sent d where run: "retransmit_loop now (setRetransmitTime now ch) (sq_queue (c_sendQueue ch)) = (es, sent, d)"
    by (metis prod.collapse)
  note parts = channel_retransmit_parts [OF run, unfolded assms(2), simplified]
  have "map wire_of (map snd es) = map wire_of (sq_items (c_sendQueue ch))"
    using retransmit_loop_frame(2) [of "setRetransmitTime now ch" now "sq_queue (c_sendQueue ch)"] run by (simp add: sq_items_def)
  then have q: "\<forall>w\<in>set (map wire_of (map snd es)). wire_typed w"
    using assms(1) unfolding queue_typed_def by simp
  moreover have "set sent \<subseteq> snd ` set es"
    using retransmit_sent_queued [of now "setRetransmitTime now ch" "sq_queue (c_sendQueue ch)"] run by simp
  ultimately show ?thesis
    unfolding op_typed_def queue_typed_def by (auto simp: parts)
qed

lemma op_typed_delivery:
  assumes "queue_typed ch"
  shows "op_typed (delivery_timer now e ch)"
proof -
  obtain ch' out where d: "delivery_timer now e ch = (ch', out)" by fastforce
  have "sends out = []"
    using d by (auto simp: delivery_timer_def Let_def split: option.splits timer.splits if_splits)
  then show ?thesis
    using assms delivery_timer_wires [OF d] d by (simp add: op_typed_def queue_typed_def)
qed

lemma op_typed_late: "queue_typed ch \<Longrightarrow> op_typed (late_delivery now i ch)"
  by (auto simp: op_typed_def queue_typed_def late_delivery_def Let_def split: option.split timer.split)

lemma queue_typed_rearm: "queue_typed ch \<Longrightarrow> queue_typed (late_rearm now k ch)"
  by (cases k) (simp_all add: queue_typed_def sq_items_def sq_retransmit_arm_def)

subsection \<open>The connector\<close>

lemma typed_frame:
  "tru_typed t \<Longrightarrow> t_heap u = t_heap t \<Longrightarrow> set (t_senderCh u) \<subseteq> set (t_senderCh t) \<Longrightarrow> tru_typed u"
  by (auto simp: tru_typed_def)

lemma typed_frames [simp]:
  "tru_typed (tell es t) = tru_typed t" "tru_typed (log_msg env m t) = tru_typed t"
  "tru_typed (connect_put u cd t) = tru_typed t" "tru_typed (connect_delete u t) = tru_typed t"
  "tru_typed (connect_add u t) = tru_typed t" "tru_typed (connect_close u t) = tru_typed t"
  by (simp_all add: tru_typed_def tell_def log_msg_def connect_put_def connect_delete_def connect_add_def connect_close_def
      split: option.split)

lemma typed_put: "tru_typed t \<Longrightarrow> queue_typed ch \<Longrightarrow> tru_typed (put_ch r ch t)"
  using set_update_subset_insert [of "t_heap t" r ch] by (auto simp: tru_typed_def put_ch_def)

lemma typed_emit: "tru_typed t \<Longrightarrow> \<forall>p\<in>set (sends out). wire_typed (wire_of p) \<Longrightarrow> tru_typed (emit r out t)"
  by (auto simp: tru_typed_def emit_eq)

lemma typed_op: "tru_typed t \<Longrightarrow> op_typed (ch, out) \<Longrightarrow> tru_typed (emit r out (put_ch r ch t))"
  by (simp add: op_typed_def typed_put typed_emit)

lemma typed_get: "tru_typed t \<Longrightarrow> r < length (t_heap t) \<Longrightarrow> queue_typed (get_ch t r)"
  by (simp add: tru_typed_def)

lemma typed_destroy: "tru_typed t \<Longrightarrow> r < length (t_heap t) \<Longrightarrow> tru_typed (destroy env msg r t)"
proof -
  assume t: "tru_typed t" "r < length (t_heap t)"
  have "tru_typed (put_ch r (channel_stop (get_ch t r)) t)"
    using typed_get [OF t] by (intro typed_put [OF t(1)]) simp
  then show ?thesis
    by (rule typed_frame) (simp_all add: destroy_def Let_def tell_def log_msg_def put_ch_def)
qed

lemma typed_newCrypt: "newCrypt env t = (res, t') \<Longrightarrow> tru_typed t \<Longrightarrow> tru_typed t'"
  by (auto simp: newCrypt_def tru_typed_def split: option.splits)

lemma typed_newChannel:
  assumes "newChannel env a sm t = (res, t')" "tru_typed t"
  shows "tru_typed t'"
proof -
  obtain x t1 where 1: "newCrypt env (log_msg env (''new channel '' @ a) t) = (x, t1)" by fastforce
  have t1: "tru_typed t1" using typed_newCrypt [OF 1] assms(2) by simp
  moreover have "queue_typed (make_channel now t1 a sm c)" for now c
    by (simp add: queue_typed_def make_channel_def sq_init_def sq_retransmit_arm_def sq_empty_def sq_items_def Let_def)
  ultimately show ?thesis
    using assms(1) 1 by (auto simp: newChannel_def Let_def tru_typed_def tell_def split: sum.splits option.splits if_splits)
qed

text \<open>The handshake's own messages have identifier zero.\<close>

lemma handshake_typed:
  "s \<in> set sent_statuses \<Longrightarrow> wire_typed (wire_of (set_data d (set_status s (newPacket now))))"
  by (simp add: wire_typed_def wire_of_def packet_setters id_ok_iff)

lemma typed_serve_connect:
  assumes "tru_typed t"
  shows "tru_typed (snd (serve_connect L env a pac t))"
proof -
  obtain res t1 where 1: "newChannel env a True t = (res, t1)" by fastforce
  have "tru_typed t1" by (rule typed_newChannel [OF 1 assms])
  then show ?thesis
    using assms 1 by (auto simp: serve_connect_def Let_def sent_statuses_def split: sum.split intro!: typed_emit handshake_typed)
qed

lemma typed_serve_server_answer:
  assumes "tru_typed t"
  shows "tru_typed (snd (serve_server_answer L env a pac t))"
proof -
  obtain res t1 where 1: "newChannel env a False t = (res, t1)" by fastforce
  have t1: "tru_typed t1" by (rule typed_newChannel [OF 1 assms])
  have fin: "tru_typed (put_ch r ((get_ch t1 r)\<lparr>c_crypt := c\<rparr>) (emit r [OSend (set_data d (set_status statusConnectClientAnswer (newPacket now)))] (connect_put u cd t1)))"
    if "res = Inr r" for r c d now u cd
    using t1 typed_get [OF t1] newChannel_new(1) [of env a False t r t1] that 1
    by (intro typed_put typed_emit) (auto simp: sent_statuses_def intro!: handshake_typed)
  show ?thesis
    using assms 1 t1 fin by (auto simp: serve_server_answer_def Let_def split: sum.split option.split)
qed

lemma typed_connect_serve:
  assumes "tru_typed t" "tru_ok t"
  shows "tru_typed (snd (connect_serve L env a pac t))"
proof -
  have "tru_typed (snd (serve_client_answer L env a pac t))"
    using assms typed_get [OF assms(1)] getChannel_ok [OF assms(2)]
    by (auto simp: serve_client_answer_def Let_def sent_statuses_def split: sum.split option.split
        intro!: typed_emit typed_put handshake_typed)
  moreover have "tru_typed (snd (serve_done pac t))"
    using assms(1) by (simp add: serve_done_def split: sum.split option.split)
  ultimately show ?thesis
    using typed_serve_connect typed_serve_server_answer assms(1) by (simp add: connect_serve_def)
qed

lemma typed_serve:
  assumes t: "tru_typed t" "tru_ok t"
  shows "tru_typed (serve L env a bs t)"
proof (cases "unmarshalBinary bs (newPacket (te_now env))")
  case (Inr pac)
  note ch = getChannel_ok [OF t(2)]
  define u where "u = (case getChannel a t of Some r \<Rightarrow> if p_status pac = statusConnect
    then destroy env (''channel reconnect, destroy '' @ c_addr (get_ch t r)) r t else t | None \<Rightarrow> t)"
  have u: "tru_typed u" "evolves t u"
    using t ch by (auto simp: u_def evolves_refl intro!: typed_destroy evolves_destroy split: option.split)
  obtain err v where c: "connect_serve L env a pac u = (err, v)" by fastforce
  have v: "tru_typed v" "evolves t v"
    using typed_connect_serve [OF u(1) evolvesD(1) [OF u(2)], of L env a pac] connect_serve_ok [OF u(2), of L env a pac] c by simp_all
  have hand: "tru_typed (case (getChannel a t, err) of
      (Some r, Some e) \<Rightarrow> destroy env (''channel connection error, destroy '' @ c_addr (get_ch v r)) r v | _ \<Rightarrow> v)"
    using v ch evolvesD(3) [OF v(2)] by (auto intro!: typed_destroy split: option.split)
  have chan: "tru_typed (case serve_channel L (te_wenv env) pac (get_ch t r) of (ch, out) \<Rightarrow> emit r out (put_ch r ch t))"
    if "getChannel a t = Some r" for r
    using op_typed_serve [OF typed_get [OF t(1)] unmarshal_id_ok [OF Inr], of r L "te_wenv env"] ch [OF that] t(1)
    by (auto split: prod.split intro: typed_op)
  show ?thesis
    using Inr hand chan t ch c
    by (auto simp: serve_def Let_def u_def [symmetric] split: option.split intro!: typed_destroy)
qed (simp add: serve_def t)

subsection \<open>The steps of the connector\<close>

lemma typed_channel_Close:
  assumes "tru_typed t" "r < length (t_heap t)"
  shows "tru_typed (channel_Close L env r t)"
proof -
  obtain res ch out where w: "writeToDisconnect L (te_wenv env) (get_ch t r) = (res, ch, out)"
    by (metis prod.collapse)
  have "tru_typed (emit r out (put_ch r ch t))"
    using op_typed_controls(2) [OF typed_get [OF assms], of L "te_wenv env"] w by (intro typed_op [OF assms(1)]) simp
  then show ?thesis
    using assms w by (simp add: channel_Close_def Let_def typed_destroy)
qed

lemma typed_each_channel:
  assumes "tru_typed t" "tru_ok t"
  shows "tru_typed (each_channel (channel_Close L env) a t)"
  using assms getChannel_ok [OF assms(2), of a] typed_channel_Close
  by (auto simp: each_channel_def split: option.split)

lemma typed_close_parts: "tru_typed t \<Longrightarrow> tru_typed (close_begin t)" "tru_typed t \<Longrightarrow> tru_typed (close_end t)"
  by (simp_all add: close_begin_def close_end_def StatisticPrintStop_def stopListen_def tru_typed_def tell_def split: option.split)

lemma typed_activity:
  assumes "tru_typed t" "r < length (t_heap t)"
  shows "tru_typed (activity_timer L env r t)"
proof -
  obtain res ch out where w: "writeToPing L (te_wenv env) (get_ch t r) = (res, ch, out)"
    by (metis prod.collapse)
  have ping: "tru_typed (emit r out (put_ch r ch t))"
    using op_typed_controls(1) [OF typed_get [OF assms], of L "te_wenv env"] w by (intro typed_op [OF assms(1)]) simp
  have arm: "tru_typed (put_ch r ((get_ch u r)\<lparr>c_stat := s\<rparr>) u)" if "tru_typed u" "r < length (t_heap u)" for u s
    using typed_get [OF that] by (intro typed_put [OF that(1)]) simp
  show ?thesis
    using assms w arm [OF assms] arm [OF ping] typed_destroy [OF assms]
    by (auto simp: activity_timer_def Let_def split: activity.split)
qed

lemma tru_act_typed:
  assumes "tru_act L l t t'" "tru_typed t" "tru_ok t"
  shows "tru_typed t'"
  using assms(1)
proof cases
  case (step_listen env res)
  then show ?thesis
    using assms typed_serve by (auto simp: listen_turn_def Let_def split: if_splits read_from.splits)
next
  case (step_reader processed)
  then show ?thesis
    using assms(2) by (auto simp: reader_step_def Let_def tru_typed_def tell_def split: list.split prod.split)
next
  case step_sender
  then show ?thesis
    using assms(2) by (auto simp: sender_step_def Let_def tru_typed_def tell_def split: list.split prod.split)
next
  case (step_retransmit r u env)
  obtain ch out dead where c: "channel_retransmit (te_now env) (get_ch t r) = (ch, out, dead)"
    by (metis prod.collapse)
  have "tru_typed (emit r out (put_ch r ch t))"
    by (rule typed_op [OF assms(2) op_typed_retransmit [OF typed_get [OF assms(2) step_retransmit(3)] c]])
  then show ?thesis
    using step_retransmit c by (simp add: retransmit_timer_def Let_def typed_destroy)
next
  case (step_delivery r env e)
  then show ?thesis
    using op_typed_delivery [OF typed_get [OF assms(2) step_delivery(3)], of "te_now env" e]
    by (auto simp: delivery_step_def split: prod.split intro: typed_op [OF assms(2)])
next
  case (step_late_delivery r env i)
  then show ?thesis
    using op_typed_late [OF typed_get [OF assms(2) step_late_delivery(3)], of "te_now env" i]
    by (auto simp: late_delivery_step_def split: prod.split intro: typed_op [OF assms(2)])
next
  case (step_rearm r now k)
  then show ?thesis using typed_put [OF assms(2) queue_typed_rearm [OF typed_get [OF assms(2)]]] by simp
next
  case (step_write r data envs ds)
  then show ?thesis
    using op_typed_WriteTo [OF tru_okD(1) [OF assms(3)] typed_get [OF assms(2)], of r L envs data ds]
    by (auto simp: tru_channel_WriteTo_def Let_def split: prod.split intro: typed_op [OF assms(2)])
next
  case (step_connect env uuid addr)
  obtain res u where "newCrypt env t = (res, u)" by fastforce
  moreover from this have "tru_typed u" using typed_newCrypt assms(2) by blast
  ultimately show ?thesis
    using step_connect assms(2) by (auto simp: Connect_start_def Let_def split: sum.split option.split)
next
  case (step_connected timedout uuid res reader)
  then have "res = Connected (Some r) \<Longrightarrow> r < length (t_heap t)" for r
    using tru_okD(5) [OF assms(3)] by (auto simp: connect_wait_def connect_get_def split: option.splits wchan.splits if_splits)
  then show ?thesis
    using step_connected assms(2) typed_get [OF assms(2)]
    by (auto simp: Connect_finish_def split: connect_result.split option.split intro!: typed_put)
next
  case (step_raw data resolve addri)
  then show ?thesis using assms(2) by (simp add: tru_WriteTo_def split: addr_arg.split option.split)
qed (use assms(2,3) in \<open>auto simp: typed_channel_Close typed_activity typed_each_channel typed_close_parts setReader_def typed_get intro!: typed_put\<close>;
  use assms(2) in \<open>simp add: tru_typed_def StatisticPrint_def StatisticPrintStop_def StatisticMinilog_def SetMaxDataLen_def
    SetSendDelay_def SetPunchCb_def Let_def split_def\<close>)+

lemma reachable_typed: "reachable L t \<Longrightarrow> hash_laws L \<Longrightarrow> tru_typed t"
proof (induction rule: reachable.induct)
  case (reach_new env listen params tru)
  then obtain u where "parse_params (te_now env) params (tru_zero\<lparr>t_start := te_now env, t_sendDelay := startSendDelay\<rparr>) = (None, u)"
    "tru = u\<lparr>t_privateKey := te_key env, t_listening := True\<rparr>"
    by (auto simp: New_def split: prod.splits option.splits if_splits)
  then show ?case
    using parse_params_frame by (fastforce simp: tru_typed_def tru_zero_def)
next
  case (reach_step tru tru')
  then show ?case using tru_act_typed reachable_ok by (auto simp: tru_step_def)
qed

subsection \<open>Properties\<close>

definition sample_answer :: tru where
  "sample_answer = serve plain_crypto sample_tenv ''a''
     (marshalBinary (set_data (connect_marshal \<lparr>cp_uuid = [7], cp_data = [5]\<rparr>) (set_status statusConnect (newPacket 0)))) sample_tru"

lemma sample_answer_reachable: "reachable plain_crypto sample_answer"
proof -
  let ?bs = "marshalBinary (set_data (connect_marshal \<lparr>cp_uuid = [7], cp_data = [5]\<rparr>) (set_status statusConnect (newPacket 0)))"
  have "listen_turn plain_crypto sample_tenv (ReadData ''a'' ?bs) sample_tru = Some sample_answer"
    by (simp add: listen_turn_def sample_tru_ok(3) sample_answer_def marshalBinary_def put_u32_def packet_setters connect_marshal_def)
  then show ?thesis
    by (rule reach_step [OF reach_new [OF sample_tru_New] tru_stepI [OF step_listen]])
qed

text \<open>
  C13: Types of the packets. In every reachable state of a connector, each packet that waits for
  the sender goroutine or for its acknowledgement has an identifier below the limit and one of
  the eight statuses that go through the sender, never punch, disconnect or connect; so its
  header loses nothing, and whoever unmarshals its datagram gets its identifier, status and data
  back.
\<close>

lemma wire_types:
  assumes "reachable L tru" "hash_laws L"
    and "(r, p) \<in> set (t_senderCh tru) \<or> r < length (t_heap tru) \<and> p \<in> set (sq_items (c_sendQueue (get_ch tru r)))"
  shows "id_ok (p_id p) \<and> p_status p \<in> set sent_statuses \<and>
     (\<exists>q. unmarshalBinary (marshalBinary p) (newPacket now) = Inr q \<and> wire_of q = wire_of p)"
proof -
  have t: "tru_typed tru" by (rule reachable_typed [OF assms(1,2)])
  have "wire_typed (wire_of p)"
  proof (cases "(r, p) \<in> set (t_senderCh tru)")
    case True
    with t show ?thesis by (auto simp: tru_typed_def)
  next
    case False
    then have "r < length (t_heap tru)" "p \<in> set (sq_items (c_sendQueue (get_ch tru r)))" using assms(3) by simp_all
    with typed_get [OF t] show ?thesis by (auto simp: queue_typed_def)
  qed
  then show ?thesis
    using wire_typed_reads_back by (simp add: wire_typed_def wire_of_def)
qed

lemma wire_types_witness: "p_status (snd (hd (t_senderCh sample_answer))) \<in> set sent_statuses"
proof -
  have "t_senderCh sample_answer \<noteq> []"
    unfolding sample_answer_def by code_simp
  then have "(fst (hd (t_senderCh sample_answer)), snd (hd (t_senderCh sample_answer))) \<in> set (t_senderCh sample_answer)"
    by simp
  with wire_types [OF sample_answer_reachable plain_hash_laws] show ?thesis by blast
qed

end
