(* ===== verification/Lost_Ack.thy ===== *)
theory Lost_Ack
  imports Link
begin

section \<open>An acknowledgement that the receiver did not send\<close>

text \<open>
  An acknowledgement carries an identifier and nothing that ties it to its session, so a delayed one
  of an earlier session, or a forged one, takes a packet out of the send queue that has not arrived.
  When the copies of that packet are lost, the stream stands still: nothing sends it again, and the
  receiver waits for it whatever else arrives.
\<close>

subsection \<open>What a sender can still send\<close>

text \<open>The identifiers of the packets that wait in the send queue.\<close>

definition queued_ids :: "endpoint \<Rightarrow> u32 set" where
  "queued_ids a = p_id ` set (sq_items (c_sendQueue (e_ch a)))"

definition new_ids :: "endpoint \<Rightarrow> endpoint \<Rightarrow> u32 set" where
  "new_ids a a' = rep_id ` {length (sent_stream a)..<length (sent_stream a')}"

text \<open>What an operation keeps: the queue and the data sent are of queued packets or of new ones.\<close>

definition sends_on :: "crypto \<Rightarrow> endpoint \<Rightarrow> endpoint \<Rightarrow> bool" where
  "sends_on L a a' \<longleftrightarrow> sender_inv L a' \<and> length (sent_stream a) \<le> length (sent_stream a') \<and>
     queued_ids a' \<subseteq> queued_ids a \<union> new_ids a a' \<and>
     (\<forall>p\<in>set (e_net a'). is_data p \<longrightarrow> p \<in> set (e_net a) \<or> p_id p \<in> queued_ids a \<union> new_ids a a')"

lemma sends_on_frame:
  assumes "sender_inv L a" "sender_view ch = sender_view (e_ch a)"
    and out: "\<And>p. p \<in> set (sends out) \<Longrightarrow> is_data p \<Longrightarrow> p \<in> set (sq_items (c_sendQueue ch))"
  shows "sends_on L a (advance a ch out [])"
proof -
  note frame = sender_inv_frame [OF assms]
  have "map wire_of (sq_items (c_sendQueue ch)) = map wire_of (sq_items (c_sendQueue (e_ch a)))"
    using assms(2) by (simp add: sender_view_def)
  then have "map fst (map wire_of (sq_items (c_sendQueue ch))) = map fst (map wire_of (sq_items (c_sendQueue (e_ch a))))"
    by (rule arg_cong)
  then have "map p_id (sq_items (c_sendQueue ch)) = map p_id (sq_items (c_sendQueue (e_ch a)))"
    by (simp add: wire_of_def o_def)
  then have "queued_ids (advance a ch out []) = queued_ids a"
    unfolding queued_ids_def advance_sel by (metis list.set_map)
  then show ?thesis
    using frame out unfolding sends_on_def by (auto simp: queued_ids_def)
qed

lemma sends_on_ack:
  assumes "sender_inv L a" "p_status pac = statusAck" "serve_channel L env pac (e_ch a) = (ch, out)"
  shows "sends_on L a (advance a ch out [])" and "queued_ids (advance a ch out []) = queued_ids a - {p_id pac}"
proof -
  obtain ch1 out1 where 1: "serve_ack (we_now env) pac (e_ch a) = (ch1, out1)" by fastforce
  then have eq: "ch = ch1\<lparr>c_stat := stat_setLastActivity (we_now env) (c_stat ch1)\<rparr>" "out = out1"
    using assms(2,3) by (simp_all add: serve_channel_ack)
  have "sq_fifo (c_sendQueue (e_ch a))" using assms(1) by (simp add: sender_inv_def)
  note eff = serve_ack_effect [OF this, of "we_now env" pac, unfolded 1 fst_conv snd_conv]
  have items: "sq_items (c_sendQueue ch) = filter (\<lambda>q. p_id q \<noteq> p_id pac) (sq_items (c_sendQueue (e_ch a)))"
    by (simp add: eq eff)
  have fields: "sq_fifo (c_sendQueue ch)" "c_id ch = c_id (e_ch a)" "c_maxDataLen ch = c_maxDataLen (e_ch a)"
    "c_crypt ch = c_crypt (e_ch a)" "sends out = []"
    by (simp_all add: eq eff)
  note frame = sender_inv_ack [OF assms(1) items fields]
  show ids: "queued_ids (advance a ch out []) = queued_ids a - {p_id pac}"
    unfolding queued_ids_def advance_sel items by auto
  show "sends_on L a (advance a ch out [])"
    using frame ids fields(5) unfolding sends_on_def by auto
qed

lemma sends_on_write:
  assumes "crypto_laws L" "\<And>k. env_ok (envs k)" "delivery_ok ds" "sender_inv L a" "\<not> st_destroyed (c_stat (e_ch a))"
    and "channel_WriteTo L envs (e_ch a) m ds = (res, ch, out)" "length (sent_stream (advance a ch out [m])) \<le> 2 ^ 19"
  shows "sends_on L a (advance a ch out [m])"
proof -
  obtain G pks where w: "sender_inv L (advance a ch out [m])" "sent_stream (advance a ch out [m]) = sent_stream a @ G"
    "sq_items (c_sendQueue ch) = sq_items (c_sendQueue (e_ch a)) @ pks"
    "sent_as L (c_crypt (e_ch a)) (length (sent_stream a)) G pks" "set (sends out) \<subseteq> set pks"
    by (rule sender_inv_write [OF assms]) blast
  have new: "p_id p \<in> new_ids a (advance a ch out [m])" if p: "p \<in> set pks" for p
  proof -
    have "length pks = length G" using w(4) by (simp add: sent_as_def)
    moreover obtain j where "j < length pks" "pks ! j = p" using p unfolding in_set_conv_nth by blast
    ultimately have j: "j < length G" "p = pks ! j" by simp_all
    then have "p_id p = rep_id (length (sent_stream a) + j)" using w(4) by (simp add: sent_as_def)
    then show ?thesis unfolding new_ids_def w(2) using j(1) by (intro image_eqI [of _ _ "length (sent_stream a) + j"]) simp_all
  qed
  have "queued_ids (advance a ch out [m]) = queued_ids a \<union> p_id ` set pks"
    by (simp add: queued_ids_def w(3) image_Un)
  then have "queued_ids (advance a ch out [m]) \<subseteq> queued_ids a \<union> new_ids a (advance a ch out [m])"
    using new by blast
  moreover have "p \<in> set (e_net a) \<or> p_id p \<in> queued_ids a \<union> new_ids a (advance a ch out [m])"
    if "p \<in> set (e_net (advance a ch out [m]))" for p
    using that new w(5) by auto
  ultimately show ?thesis
    using w(1) unfolding sends_on_def w(2) by simp
qed

text \<open>Every operation of a live channel.\<close>

lemma chan_op_sends_on:
  assumes laws: "crypto_laws L" and inv: "sender_inv L a" and live: "\<not> st_destroyed (c_stat (e_ch a))"
    and short: "length (sent_stream (advance a ch out ms)) \<le> 2 ^ 19"
    and run: "chan_op L net (e_ch a) ch out ms"
  shows "sends_on L a (advance a ch out ms)"
proof -
  have "sq_fifo (c_sendQueue (e_ch a))" using inv by (simp add: sender_inv_def)
  with run show ?thesis
  proof (cases rule: chan_op_kinds)
    case (wrote envs ds m res)
    then show ?thesis using sends_on_write [OF laws wrote(2,3) inv live wrote(4)] short by simp
  next
    case (data p env now)
    then have st: "p_status (arrival now p) = statusData \<or> p_status (arrival now p) = statusDataNext" by (simp add: is_data_def)
    show ?thesis
      unfolding data(1) using serve_channel_data_sender [OF st, of L env "e_ch a"] data(4)
      by (intro sends_on_frame [OF inv]) (auto simp: is_data_def)
  next
    case (ack p env now)
    then show ?thesis using sends_on_ack(1) [OF inv _ ack(4)] by simp
  next
    case quiet
    then show ?thesis
      unfolding quiet(1) by (intro sends_on_frame [OF inv]) (fastforce simp: is_data_def)+
  qed
qed

subsection \<open>A receiver that waits\<close>

lemma accept_data_waits:
  assumes "distance (c_expectedID ch) (p_id pac) \<noteq> 0"
  shows "c_expectedID (fst (accept_data now pac ch)) = c_expectedID ch \<and> reads (snd (accept_data now pac ch)) = []"
  using assms by (simp add: accept_data_def Let_def split: option.split)

text \<open>Whatever the operation, a channel that is not given its expected packet passes nothing on.\<close>

definition waits :: "channel \<Rightarrow> channel \<times> out list \<Rightarrow> bool" where
  "waits ch st \<longleftrightarrow> c_expectedID (fst st) = c_expectedID ch \<and> reads (snd st) = []"

lemma waits_receiver: "receiver_view ch' = receiver_view ch \<Longrightarrow> reads out = [] \<Longrightarrow> waits ch (ch', out)"
  by (simp add: waits_def receiver_view_def)

lemma serve_data_waits:
  assumes st: "p_status pac = statusData \<or> p_status pac = statusDataNext" and id: "distance (c_expectedID ch) (p_id pac) \<noteq> 0"
  shows "waits ch (serve_channel L env pac ch)"
proof (cases "decryptPacketData L (c_crypt ch) (p_id pac) (p_data pac)")
  case (Inl e)
  then show ?thesis using st by (auto simp: waits_def serve_channel_def serve_data_def Let_def)
next
  case (Inr d)
  obtain ch' out where acc: "accept_data (we_now env) (set_data d pac) ch = (ch', out)" by fastforce
  have "p_id (set_data d pac) = p_id pac" by (simp add: packet_setters)
  then show ?thesis
    using accept_data_waits [of ch "set_data d pac" "we_now env"] acc id
    by (simp add: serve_channel_data [OF st Inr acc] waits_def writeToAck_eq)
qed

lemma chan_op_waits:
  assumes run: "chan_op L net ch ch' out ms" and fifo: "sq_fifo (c_sendQueue ch)"
    and net: "\<And>p now. p \<in> set net \<Longrightarrow> is_data p \<Longrightarrow> distance (c_expectedID ch) (p_id (arrival now p)) \<noteq> 0"
  shows "waits ch (ch', out)"
  using run fifo
proof (cases rule: chan_op_kinds)
  case (wrote envs ds m res)
  then show ?thesis
    using writes_WriteTo [of ch L envs m ds] by (auto simp: writes_def intro: waits_receiver)
next
  case (data p env now)
  then show ?thesis
    using serve_data_waits [of "arrival now p" ch L env] net by (simp add: is_data_def)
next
  case (ack p env now)
  obtain ch1 out1 where "serve_ack (we_now env) (arrival now p) ch = (ch1, out1)" by fastforce
  then show ?thesis
    using serve_ack_effect(3,8) [OF fifo, of "we_now env" "arrival now p"] ack
    by (auto simp: serve_channel_ack receiver_view_def waits_def)
next
  case quiet
  then show ?thesis by (intro waits_receiver)
qed

subsection \<open>The stream stands still\<close>

text \<open>
  The sender \<open>a\<close> has written packet \<open>e\<close>, has it no more, and no copy of it is on the network; the
  receiver \<open>b\<close> waits for it, having passed on \<open>R\<close>.
\<close>

definition stalled :: "crypto \<Rightarrow> nat \<Rightarrow> packet list \<Rightarrow> endpoint \<Rightarrow> endpoint \<Rightarrow> bool" where
  "stalled L e R a b \<longleftrightarrow> sender_inv L a \<and> sender_inv L b \<and> e < length (sent_stream a) \<and> rep_id e \<notin> queued_ids a \<and>
     (\<forall>p\<in>set (e_net a). is_data p \<longrightarrow> p_id p \<noteq> rep_id e) \<and> c_expectedID (e_ch b) = rep_id e \<and> e_reads b = R"

lemma new_ids_other:
  assumes "e < length (sent_stream a)" "length (sent_stream a') \<le> 2 ^ 19"
  shows "rep_id e \<notin> new_ids a a'"
proof
  assume "rep_id e \<in> new_ids a a'"
  then obtain n where n: "length (sent_stream a) \<le> n" "n < length (sent_stream a')" "rep_id e = rep_id n"
    by (auto simp: new_ids_def)
  have "e = n" by (rule rep_id_eq [OF _ n(2) assms(2) n(3)]) (use assms(1) n(1,2) in linarith)
  then show False using assms(1) n(1) by simp
qed

lemma stalled_sender:
  assumes "stalled L e R a b" "sends_on L a a'" "length (sent_stream a') \<le> 2 ^ 19"
  shows "stalled L e R a' b"
proof -
  have "rep_id e \<notin> queued_ids a \<union> new_ids a a'"
    using assms(1) new_ids_other [OF _ assms(3)] by (simp add: stalled_def)
  then show ?thesis
    using assms(1,2) unfolding stalled_def sends_on_def by force
qed

lemma stalled_receiver:
  assumes "stalled L e R a b" "chan_op L (e_net a) (e_ch b) ch out ms" "sends_on L b (advance b ch out ms)"
  shows "stalled L e R a (advance b ch out ms)"
proof -
  have "distance (c_expectedID (e_ch b)) (p_id (arrival now p)) \<noteq> 0" if p: "p \<in> set (e_net a)" "is_data p" for p now
  proof -
    obtain n where n: "p_id p = rep_id n"
      using assms(1) p by (fastforce simp: stalled_def sender_inv_def stream_carries_def carries_def)
    then have "p_id (arrival now p) = rep_id n" by (simp add: arrival_fields)
    moreover have "rep_id n \<noteq> rep_id e" using assms(1) p n by (auto simp: stalled_def)
    ultimately show ?thesis
      using assms(1) by (simp add: stalled_def distance_zero_iff)
  qed
  moreover have "sq_fifo (c_sendQueue (e_ch b))" using assms(1) by (simp add: stalled_def sender_inv_def)
  ultimately have "waits (e_ch b) (ch, out)" by (intro chan_op_waits [OF assms(2)])
  then show ?thesis using assms(1,3) by (simp add: stalled_def waits_def sends_on_def)
qed

lemma stalled_steps:
  assumes "link_steps L (a, b) (a', b')" "crypto_laws L" "stalled L e R a b" "short_link (a', b')"
  shows "stalled L e R a' b'"
proof -
  have "stalled L e R (fst ab') (snd ab')" if "link_steps L (a, b) ab'" "short_link ab'" for ab'
    using that
  proof (induction rule: rtranclp_induct)
    case base
    then show ?case using assms(3) by simp
  next
    case (step ab1 ab2)
    then have st: "stalled L e R (fst ab1) (snd ab1)" using link_step_short by blast
    show ?case
      using step.hyps(2)
    proof cases
      case (step_left a1 b1 ch out ms)
      have "sends_on L a1 (advance a1 ch out ms)"
        using st step_left step.prems
        by (intro chan_op_sends_on [OF assms(2) _ step_left(3) _ step_left(4)]) (simp_all add: stalled_def short_link_def)
      then show ?thesis
        using stalled_sender [of L e R a1 b1] st step_left(1,2) step.prems by (simp add: short_link_def)
    next
      case (step_right b1 a1 ch out ms)
      have "sends_on L b1 (advance b1 ch out ms)"
        using st step_right step.prems
        by (intro chan_op_sends_on [OF assms(2) _ step_right(3) _ step_right(4)]) (simp_all add: stalled_def short_link_def)
      then show ?thesis using stalled_receiver [of L e R a1 b1] st step_right by simp
    qed
  qed
  from this [OF assms(1,4)] show ?thesis by simp
qed

text \<open>The network loses the data packets of an identifier.\<close>

definition lose_copies :: "u32 \<Rightarrow> endpoint \<Rightarrow> endpoint" where
  "lose_copies i a = a\<lparr>e_net := filter (\<lambda>p. \<not> (is_data p \<and> p_id p = i)) (e_net a)\<rparr>"

lemma lose_copies_sel [simp]:
  "e_ch (lose_copies i a) = e_ch a" "e_msgs (lose_copies i a) = e_msgs a" "e_reads (lose_copies i a) = e_reads a"
  "sent_stream (lose_copies i a) = sent_stream a" "queued_ids (lose_copies i a) = queued_ids a"
  by (simp_all add: lose_copies_def sent_stream_def queued_ids_def)

lemma stalled_ack:
  assumes flow: "flows L a b" "sender_inv L b" and p: "p \<in> set (sq_items (c_sendQueue (e_ch a)))" "p_id p = c_expectedID (e_ch b)"
    and ack: "p_status ack = statusAck" "p_id ack = p_id p" "serve_channel L env ack (e_ch a) = (ch, out)"
  obtains e where "p_id p = rep_id e" "stalled L e (e_reads b) (advance (lose_copies (p_id p) a) ch out []) b"
proof -
  let ?a = "lose_copies (p_id p) a"
  have inv: "sender_inv L a" using flow(1) by (simp add: flows_def)
  then have inv': "sender_inv L ?a"
    by (auto simp: sender_inv_def stream_carries_def) (auto simp: lose_copies_def)
  obtain e where e: "e < length (sent_stream a)" "p_id p = rep_id e"
    using inv p(1) by (auto simp: sender_inv_def stream_carries_def carries_def)
  have ack': "serve_channel L env ack (e_ch ?a) = (ch, out)" using ack(3) by simp
  note served = sends_on_ack [OF inv' ack(1) ack']
  have sends: "sends out = []"
    using ack(1,3) serve_ack_effect(7) [of "e_ch a" "we_now env" ack] inv
    by (auto simp: serve_channel_ack sender_inv_def Let_def split_def)
  have "stalled L e (e_reads b) (advance ?a ch out []) b"
    using served e p(2) ack(2) flow(2) unfolding stalled_def sends_on_def by (auto simp: sends) (auto simp: lose_copies_def)
  then show thesis using that e(2) by blast
qed

subsection \<open>Properties\<close>

text \<open>
  The link of the samples after a forged acknowledgement of its first packet; then a second message is
  written, and its packet arrives.
\<close>

definition sample_ack :: packet where
  "sample_ack = control_packet sample_wenv 0 statusAck"

definition sample_acked :: endpoint where
  "sample_acked = (case serve_channel plain_crypto sample_wenv sample_ack (e_ch sample_end) of
     (ch, out) \<Rightarrow> advance (lose_copies 0 sample_end) ch out [])"

definition sample_more :: endpoint where
  "sample_more = (case channel_WriteTo plain_crypto (\<lambda>_. sample_wenv) (e_ch sample_acked) [3] [] of
     (_, ch, out) \<Rightarrow> advance sample_acked ch out [[3]])"

definition sample_waits :: endpoint where
  "sample_waits = (case serve_channel plain_crypto sample_wenv (arrival 5 (hd (e_net sample_more))) sample_channel of
     (ch, out) \<Rightarrow> advance (fresh_end sample_channel) ch out [])"

lemma sample_acked_state:
  "map (\<lambda>p. (p_id p, p_data p)) (sq_items (c_sendQueue (e_ch sample_end))) = [(0, [1, 2])]"
  "c_expectedID sample_channel = 0" "e_net sample_more \<noteq> []" "c_maxDataLen (e_ch sample_more) = 0" "e_msgs sample_more = [[1, 2], [3]]"
  "\<not> st_destroyed (c_stat (e_ch sample_acked))" "\<not> st_destroyed (c_stat sample_channel)"
  "map fst (rq_ma (c_recvQueue (e_ch sample_waits))) = [1]"
  by code_simp+

lemma sample_more_steps: "link_steps plain_crypto (sample_acked, fresh_end sample_channel) (sample_more, sample_waits)"
proof -
  obtain res ch out where w: "channel_WriteTo plain_crypto (\<lambda>_. sample_wenv) (e_ch sample_acked) [3] [] = (res, ch, out)"
    by (metis prod.collapse)
  have "chan_op plain_crypto (e_net (fresh_end sample_channel)) (e_ch sample_acked) ch out [[3]]"
    by (rule op_write [OF _ _ w]) (simp_all add: env_ok_def sample_wenv_def delivery_ok_def)
  then have 1: "link_step plain_crypto (sample_acked, fresh_end sample_channel) (sample_more, fresh_end sample_channel)"
    using sample_acked_state(6) unfolding sample_more_def w split_conv by (intro step_left)
  obtain ch' out' where s: "serve_channel plain_crypto sample_wenv (arrival 5 (hd (e_net sample_more))) sample_channel = (ch', out')"
    by fastforce
  have "chan_op plain_crypto (e_net sample_more) sample_channel ch' out' []"
    using sample_acked_state(3) by (intro op_serve [OF _ s]) simp
  then have "link_step plain_crypto (sample_more, fresh_end sample_channel) (sample_more, sample_waits)"
    using sample_acked_state(7) unfolding sample_waits_def s split_conv by (intro step_right) (simp_all add: fresh_end_def)
  with 1 show ?thesis by (meson converse_rtranclp_into_rtranclp r_into_rtranclp)
qed

text \<open>
  C20: A stream stopped by one acknowledgement. In any run of a session, let the packet that the
  receiver expects still wait in the sender's queue, let its copies be lost, and let the sender
  serve an acknowledgement of its identifier, which any delayed or forged one of the same
  address is. Then for the rest of the session, however both ends write, serve and are visited
  by their timers, up to 2^19 packets, the sender never holds or sends that packet again, and
  the reader never gets anything more.
\<close>

lemma stalled_stream:
  assumes "crypto_laws L" "fresh_sender s" "fresh_receiver s" "fresh_sender r" "fresh_receiver r"
    and "k_session (c_crypt r) = k_session (c_crypt s)"
    and "link_steps L (fresh_end s, fresh_end r) (a, b)"
    and "p \<in> set (sq_items (c_sendQueue (e_ch a)))" "p_id p = c_expectedID (e_ch b)"
    and "p_status ack = statusAck" "p_id ack = p_id p" "serve_channel L env ack (e_ch a) = (ch, out)"
    and "link_steps L (advance (lose_copies (p_id p) a) ch out [], b) (a', b')" "short_link (a', b')"
  shows "e_reads b' = e_reads b \<and> c_expectedID (e_ch b') = p_id p \<and>
     (\<forall>q\<in>set (sq_items (c_sendQueue (e_ch a'))). p_id q \<noteq> p_id p) \<and>
     (\<forall>q\<in>set (e_net a'). is_data q \<longrightarrow> p_id q \<noteq> p_id p)"
proof -
  let ?a = "advance (lose_copies (p_id p) a) ch out []"
  have "short_link (?a, b)"
    using assms(13,14) by (induction rule: converse_rtranclp_induct) (auto dest: link_step_short)
  moreover have "c_maxDataLen ch = c_maxDataLen (e_ch a)"
    using serve_channel_keeps [of L env ack "e_ch a"] assms(12) by simp
  ultimately have "short_link (a, b)"
    by (simp add: short_link_def sent_stream_advance)
  then have flow: "flows L a b" "flows L b a"
    using link_flows [OF assms(1-7)] by (simp_all add: both_flow_def)
  then have "sender_inv L b" by (simp add: flows_def)
  with flow(1) obtain e where e: "p_id p = rep_id e" "stalled L e (e_reads b) ?a b"
    by (rule stalled_ack [OF _ _ assms(8-12)])
  have st: "stalled L e (e_reads b) a' b'"
    by (rule stalled_steps [OF assms(13,1) e(2) assms(14)])
  then have "\<forall>q\<in>set (sq_items (c_sendQueue (e_ch a'))). p_id q \<noteq> rep_id e"
    unfolding stalled_def queued_ids_def by (metis imageI)
  then show ?thesis
    using st unfolding stalled_def e(1) by blast
qed

lemma stalled_stream_witness: "e_reads sample_waits = []"
proof -
  obtain p where p: "p \<in> set (sq_items (c_sendQueue (e_ch sample_end)))" "p_id p = 0"
    using sample_acked_state(1) by (cases "sq_items (c_sendQueue (e_ch sample_end))") auto
  obtain ch out where s: "serve_channel plain_crypto sample_wenv sample_ack (e_ch sample_end) = (ch, out)" by fastforce
  have steps: "link_steps plain_crypto (advance (lose_copies (p_id p) sample_end) ch out [], fresh_end sample_channel) (sample_more, sample_waits)"
    using sample_more_steps unfolding sample_acked_def s split_conv p(2) .
  have exp: "p_id p = c_expectedID (e_ch (fresh_end sample_channel))"
    using p(2) sample_acked_state(2) by (simp add: fresh_end_def)
  have ack: "p_status sample_ack = statusAck" "p_id sample_ack = p_id p"
    unfolding sample_ack_def p(2) by (simp_all add: control_packet_def packet_setters)
  have "e_msgs sample_waits = []"
    by (simp add: sample_waits_def split_def fresh_end_def)
  then have short: "short_link (sample_more, sample_waits)"
    unfolding short_link_def sent_stream_def fst_conv snd_conv sample_acked_state(5)
    by (simp add: stream_fragments_def message_fragments_def sample_acked_state(4) split_limit_def maxDataLen_def headerLen_def
        fragments_short)
  show ?thesis
    using stalled_stream [OF plain_crypto_laws sample_fresh sample_fresh refl sample_end_step p(1) exp ack s steps short]
    by (simp add: fresh_end_def)
qed

end
