(* ===== verification/Echo.thy ===== *)
theory Echo
  imports Network Tru_Net
begin

section \<open>The echo client and server over net.Conn (examples/trunet/main.go)\<close>

text \<open>
  The example server reads a message of its \<open>Conn\<close> up to the end of file that closes it and writes an
  answer; the client writes numbered messages and reads the answers.  Their loops run as processes on
  the two hosts of \<open>Network\<close>, and what the client gets is shown end to end.
\<close>

subsection \<open>The loops\<close>

text \<open>
  \<open>io.ReadAll\<close>, and \<open>io.Copy\<close> into a \<open>bytes.Buffer\<close>: reads of the free space of a growing buffer, \<open>room n\<close>
  when it holds \<open>n\<close> bytes, until an error; the end of file is none.  A read that has to wait has no
  result.
\<close>

partial_function (option) io_ReadAll ::
  "(nat \<Rightarrow> nat) \<Rightarrow> bytes \<Rightarrow> conn \<Rightarrow> ((bytes \<times> go_error option) \<times> conn) option" where
  "io_ReadAll room acc c =
     (case conn_Read (room (length acc)) c of
        None \<Rightarrow> None
      | Some (r, c) \<Rightarrow>
          (case snd r of
             None \<Rightarrow> io_ReadAll room (acc @ fst r) c
           | Some e \<Rightarrow> Some ((acc @ fst r, if e = ErrEOF then None else Some e), c)))"

definition str_bytes :: "string \<Rightarrow> bytes" where
  "str_bytes s = map of_char s"

definition echo_answer :: "bytes \<Rightarrow> bytes" where
  "echo_answer buf = str_bytes ''done: '' @ buf"

definition hello :: "nat \<Rightarrow> bytes" where
  "hello i = str_bytes (''Hello message # '' @ itoa (int i))"

text \<open>One turn of the server's loop for a connection: the answer it wrote, or none when it ends.\<close>

definition server_turn ::
  "crypto \<Rightarrow> (nat \<Rightarrow> wenv) \<Rightarrow> (nat \<Rightarrow> nat) \<Rightarrow> conn \<Rightarrow> tru \<Rightarrow> (bytes option \<times> conn \<times> tru) option" where
  "server_turn L envs room c tru =
     (case io_ReadAll room [] c of
        None \<Rightarrow> None
      | Some ((buf, Some err), c) \<Rightarrow> Some (None, c, tru)
      | Some ((buf, None), c) \<Rightarrow>
          (let res = echo_answer buf in Some (Some res, c, snd (conn_Write L envs res c tru))))"

text \<open>The server's deferred \<open>Close\<close> when its loop has ended.\<close>

definition server_end :: "crypto \<Rightarrow> tenv \<Rightarrow> conn \<Rightarrow> tru \<Rightarrow> conn \<times> tru" where
  "server_end L env c tru = snd (conn_Close L env c tru)"

text \<open>The client's loop: the write of message \<open>i\<close>, and the read of an answer; an error ends it.\<close>

definition client_send :: "crypto \<Rightarrow> (nat \<Rightarrow> wenv) \<Rightarrow> nat \<Rightarrow> conn \<Rightarrow> tru \<Rightarrow> go_error option \<times> tru" where
  "client_send L envs i c tru = (let ((n, err), tru) = conn_Write L envs (hello i) c tru in (err, tru))"

definition client_receive :: "(nat \<Rightarrow> nat) \<Rightarrow> conn \<Rightarrow> ((go_error + bytes) \<times> conn) option" where
  "client_receive room c =
     map_option (\<lambda>((data, err), c). (case err of None \<Rightarrow> Inr data | Some e \<Rightarrow> Inl e, c)) (io_ReadAll room [] c)"

subsection \<open>The callbacks of examples/tru/main.go\<close>

text \<open>
  The other example works with callbacks: the server's reader of all channels answers each packet,
  the client's own reader takes its packets (processed), and \<open>sender_data\<close> is the client's message
  \<open>i\<close>, of \<open>sendlen\<close> random bytes when that is given.  \<open>sender_turn\<close> is a turn of its loop; an error
  makes it connect again.
\<close>

definition answer_to :: "bytes \<Rightarrow> bytes" where
  "answer_to d = str_bytes ''answer to '' @ d"

definition Reader :: "crypto \<Rightarrow> (nat \<Rightarrow> wenv) \<Rightarrow> nat \<Rightarrow> packet option \<Rightarrow> go_error option \<Rightarrow> tru \<Rightarrow> bool \<times> tru" where
  "Reader L envs r pac err tru =
     (case (err, pac) of
        (Some e, _) \<Rightarrow> (False, tru)
      | (None, None) \<Rightarrow> (False, tell [EvPanic] tru)
      | (None, Some p) \<Rightarrow> (False, snd (tru_channel_WriteTo L envs r (answer_to (packet_Data p)) [] tru)))"

definition client_reader :: "go_error option \<Rightarrow> bool" where
  "client_reader err \<longleftrightarrow> err = None"

definition sender_data :: "nat \<Rightarrow> (nat \<Rightarrow> u8) \<Rightarrow> nat \<Rightarrow> bytes" where
  "sender_data sendlen rnd i =
     (if sendlen = 0 then str_bytes (''data '' @ itoa (int i)) else map rnd [0..<sendlen])"

definition sender_turn ::
  "crypto \<Rightarrow> (nat \<Rightarrow> wenv) \<Rightarrow> nat \<Rightarrow> (nat \<Rightarrow> u8) \<Rightarrow> nat \<Rightarrow> nat \<Rightarrow> tru \<Rightarrow> go_error option \<times> tru" where
  "sender_turn L envs sendlen rnd i r tru =
     (let ((_, err), tru) = tru_channel_WriteTo L envs r (sender_data sendlen rnd i) [] tru in (err, tru))"

lemma Reader_answers:
  assumes "r < length (t_heap tru)" "\<And>k. env_ok (envs k)"
  shows "tru_act L (Wrote r (answer_to (p_data p)) True) tru (snd (Reader L envs r (Some p) None tru))"
  using step_write [OF assms(1), of L "answer_to (p_data p)" envs "[]"] assms(2)
  by (simp add: Reader_def delivery_ok_def packet_Data_def)

subsection \<open>Reading a message\<close>

lemma io_ReadAll_buf:
  assumes "\<And>k. 0 < room k" "cn_cont c"
  shows "io_ReadAll room acc c = Some ((acc @ cn_buf c, None), c\<lparr>cn_buf := [], cn_cont := False\<rparr>)"
  using assms(2)
proof (induction "length (cn_buf c)" arbitrary: acc c rule: less_induct)
  case less
  show ?case
  proof (cases "cn_buf c = []")
    case True
    then have "conn_Read (room (length acc)) c = Some (([], Some ErrEOF), c\<lparr>cn_buf := [], cn_cont := False\<rparr>)"
      using less.prems by (simp add: conn_Read_def)
    then show ?thesis using True by (subst io_ReadAll.simps) simp
  next
    case False
    let ?n = "room (length acc)"
    have read: "conn_Read ?n c = Some ((take ?n (cn_buf c), None), c\<lparr>cn_buf := drop ?n (cn_buf c)\<rparr>)"
      using False by (simp add: conn_Read_def)
    have "length (cn_buf (c\<lparr>cn_buf := drop ?n (cn_buf c)\<rparr>)) < length (cn_buf c)"
      using False assms(1) [of "length acc"] by simp
    from less.hyps [OF this, of "acc @ take ?n (cn_buf c)"] show ?thesis
      using less.prems by (subst io_ReadAll.simps) (simp add: read)
  qed
qed

lemma io_ReadAll_message:
  assumes "\<And>k. 0 < room k" "cn_buf c = []" "\<not> cn_cont c" "cn_queue c = m # ms"
  shows "io_ReadAll room [] c = Some ((m, None), c\<lparr>cn_queue := ms\<rparr>)"
proof -
  let ?c = "c\<lparr>cn_queue := ms, cn_buf := drop (room 0) m, cn_cont := True\<rparr>"
  have "conn_Read (room 0) c = Some ((take (room 0) m, None), ?c)"
    using assms(2-4) by (simp add: conn_Read_def Let_def)
  moreover have "?c\<lparr>cn_buf := [], cn_cont := False\<rparr> = c\<lparr>cn_queue := ms\<rparr>"
    using assms(2,3) by (intro conn.equality) simp_all
  ultimately show ?thesis
    using io_ReadAll_buf [of room ?c "take (room 0) m", OF assms(1)] by (subst io_ReadAll.simps) simp
qed

text \<open>A connection between two messages, and what reading from it can do.\<close>

definition between :: "nat \<Rightarrow> conn \<Rightarrow> bool" where
  "between r c \<longleftrightarrow> cn_ch c = Some r \<and> conn_ok c \<and> cn_buf c = [] \<and> \<not> cn_cont c"

lemma between_new: "between r (newConn a r t)"
  by (simp add: between_def newConn_def conn_ok_def)

lemma io_ReadAll_between:
  assumes "\<And>k. 0 < room k" "between r c"
  shows "io_ReadAll room [] c = (case cn_queue c of [] \<Rightarrow> None | m # ms \<Rightarrow> Some ((m, None), c\<lparr>cn_queue := ms\<rparr>))"
proof (cases "cn_queue c")
  case Nil
  then have "conn_Read (room 0) c = None"
    using assms(2) by (simp add: between_def conn_ok_def conn_Read_def)
  then show ?thesis using Nil by (subst io_ReadAll.simps) simp
next
  case (Cons m ms)
  then show ?thesis
    using io_ReadAll_message [OF assms(1)] assms(2) by (simp add: between_def)
qed

lemma between_queue: "between r c \<Longrightarrow> between r (c\<lparr>cn_queue := ms\<rparr>)"
  by (auto simp: between_def conn_ok_def)

lemma conn_reader_between:
  assumes "between r c"
  shows "conn_reader L env (Some p) None c t = (c\<lparr>cn_queue := cn_queue c @ [p_data p]\<rparr>, t)"
  using assms by (auto simp: conn_reader_def between_def conn_ok_def)


subsection \<open>Client and server on the network\<close>

text \<open>
  The two hosts with their \<open>Conn\<close>s; the number of messages the client has sent, whether it waits for
  an answer, and the answers it got.
\<close>

record echo =
  ec_client :: host
  ec_server :: host
  ec_cconn :: conn
  ec_sconn :: conn
  ec_sent :: nat
  ec_wait :: bool
  ec_got :: "bytes list"

text \<open>
  A step: of one of the connectors, away from the writes and reads of the two channels; of a reader
  goroutine, which gives a packet to the \<open>Conn\<close>; or a turn of one of the loops.  With \<open>nowait\<close> the
  client's answers are read by a goroutine of their own.
\<close>

inductive echo_step :: "crypto \<Rightarrow> bool \<Rightarrow> string \<Rightarrow> string \<Rightarrow> nat \<Rightarrow> nat \<Rightarrow> echo \<Rightarrow> echo \<Rightarrow> bool" for L nowait x y r s where
  echo_left: "tru_act L l (h_tru (ec_client E)) t \<Longrightarrow> allowed x y (h_tru (ec_server E)) l \<Longrightarrow> act_writes r l = [] \<Longrightarrow> act_takes r l = [] \<Longrightarrow>
    echo_step L nowait x y r s E (E\<lparr>ec_client := host_step (ec_client E) l t\<rparr>)"
| echo_right: "tru_act L l (h_tru (ec_server E)) t \<Longrightarrow> allowed y x (h_tru (ec_client E)) l \<Longrightarrow> act_writes s l = [] \<Longrightarrow> act_takes s l = [] \<Longrightarrow>
    echo_step L nowait x y r s E (E\<lparr>ec_server := host_step (ec_server E) l t\<rparr>)"
| echo_take_left: "tru_act L (Took (Some (r, p))) (h_tru (ec_client E)) t \<Longrightarrow> conn_reader L env (Some p) None (ec_cconn E) t = (c, t') \<Longrightarrow>
    echo_step L nowait x y r s E (E\<lparr>ec_client := host_step (ec_client E) (Took (Some (r, p))) t', ec_cconn := c\<rparr>)"
| echo_take_right: "tru_act L (Took (Some (s, p))) (h_tru (ec_server E)) t \<Longrightarrow> conn_reader L env (Some p) None (ec_sconn E) t = (c, t') \<Longrightarrow>
    echo_step L nowait x y r s E (E\<lparr>ec_server := host_step (ec_server E) (Took (Some (s, p))) t', ec_sconn := c\<rparr>)"
| echo_send: "\<not> ec_wait E \<Longrightarrow> (\<And>k. env_ok (envs k)) \<Longrightarrow> client_send L envs (ec_sent E) (ec_cconn E) (h_tru (ec_client E)) = (None, t) \<Longrightarrow>
    echo_step L nowait x y r s E
      (E\<lparr>ec_client := host_step (ec_client E) (Wrote r (hello (ec_sent E)) True) t, ec_sent := Suc (ec_sent E), ec_wait := \<not> nowait\<rparr>)"
| echo_receive: "nowait \<or> ec_wait E \<Longrightarrow> (\<And>k. 0 < room k) \<Longrightarrow> client_receive room (ec_cconn E) = Some (Inr m, c) \<Longrightarrow>
    echo_step L nowait x y r s E (E\<lparr>ec_cconn := c, ec_got := ec_got E @ [m], ec_wait := False\<rparr>)"
| echo_serve: "(\<And>k. env_ok (envs k)) \<Longrightarrow> (\<And>k. 0 < room k) \<Longrightarrow> server_turn L envs room (ec_sconn E) (h_tru (ec_server E)) = Some (Some res, c, t) \<Longrightarrow>
    echo_step L nowait x y r s E (E\<lparr>ec_server := host_step (ec_server E) (Wrote s res True) t, ec_sconn := c\<rparr>)"

definition echo_start :: "string \<Rightarrow> string \<Rightarrow> nat \<Rightarrow> nat \<Rightarrow> tru \<Rightarrow> tru \<Rightarrow> echo" where
  "echo_start a b r s A B =
     \<lparr>ec_client = host0 A, ec_server = host0 B, ec_cconn = newConn a r A, ec_sconn = newConn b s B, ec_sent = 0,
      ec_wait = False, ec_got = []\<rparr>"

text \<open>What all runs keep: \<open>served\<close> are the messages that the server has answered.\<close>

definition echo_inv :: "crypto \<Rightarrow> bool \<Rightarrow> string \<Rightarrow> string \<Rightarrow> nat \<Rightarrow> nat \<Rightarrow> tru \<Rightarrow> tru \<Rightarrow> echo \<Rightarrow> bytes list \<Rightarrow> bool" where
  "echo_inv L nowait x y r s A B E served \<longleftrightarrow>
     net_steps L x y (host0 A, host0 B) (ec_client E, ec_server E) \<and> between r (ec_cconn E) \<and> between s (ec_sconn E) \<and>
     written r (ec_client E) = map hello [0..<ec_sent E] \<and>
     map p_data (taken s (ec_server E)) = served @ cn_queue (ec_sconn E) \<and> written s (ec_server E) = map echo_answer served \<and>
     map p_data (taken r (ec_client E)) = ec_got E @ cn_queue (ec_cconn E) \<and>
     (nowait \<or> ec_sent E = length (ec_got E) + (if ec_wait E then 1 else 0))"

lemma client_receive_eq:
  assumes "\<And>k. 0 < room k" "between r c"
  shows "client_receive room c = (case cn_queue c of [] \<Rightarrow> None | m # ms \<Rightarrow> Some (Inr m, c\<lparr>cn_queue := ms\<rparr>))"
  using io_ReadAll_between [OF assms] by (simp add: client_receive_def split: list.split)

lemma server_turn_eq:
  assumes "\<And>k. 0 < room k" "between s c"
  shows "server_turn L envs room c t =
     (case cn_queue c of [] \<Rightarrow> None
      | m # ms \<Rightarrow> Some (Some (echo_answer m), c\<lparr>cn_queue := ms\<rparr>, snd (conn_Write L envs (echo_answer m) (c\<lparr>cn_queue := ms\<rparr>) t)))"
  using io_ReadAll_between [OF assms] by (simp add: server_turn_def Let_def split: list.split)

lemma conn_Write_act:
  assumes "cn_ch c = Some r" "r < length (t_heap t)" "\<And>k. env_ok (envs k)"
  shows "tru_act L (Wrote r b True) t (snd (conn_Write L envs b c t))"
proof -
  have "snd (conn_Write L envs b c t) = snd (tru_channel_WriteTo L envs r b [] t)"
    using assms(1) by (simp add: conn_Write_def split_def Let_def)
  then show ?thesis
    using step_write [OF assms(2), of L b envs "[]"] assms(3) by (simp add: delivery_ok_def)
qed


text \<open>The heaps only grow, and the invariant of the connectors holds.\<close>

lemma net_steps_evolves:
  assumes "net_steps L x y (A, B) (A', B')" "hash_laws L" "tru_ok (h_tru A)" "tru_ok (h_tru B)"
  shows "evolves (h_tru A) (h_tru A') \<and> evolves (h_tru B) (h_tru B')"
  using assms(1)
proof (induction rule: rtranclp_induct2)
  case refl
  then show ?case using assms(3,4) by (simp add: evolves_refl)
next
  case (step A1 B1 A2 B2)
  show ?case
    using step.hyps(2)
  proof cases
    case (net_left l t)
    then have "evolves (h_tru A1) (h_tru A2)"
      using tru_act_evolves [OF assms(2) evolvesD(1)] step.IH by auto
    then show ?thesis using step.IH net_left(1,2) evolves_trans by blast
  next
    case (net_right l t)
    then have "evolves (h_tru B1) (h_tru B2)"
      using tru_act_evolves [OF assms(2) evolvesD(1)] step.IH by auto
    then show ?thesis using step.IH net_right(1,2) evolves_trans by blast
  qed
qed

lemma echo_inv_heap:
  assumes "echo_inv L nowait x y r s A B E served" "crypto_laws L" "session_start L x y r s A B"
  shows "r < length (t_heap (h_tru (ec_client E)))" "s < length (t_heap (h_tru (ec_server E)))"
proof -
  have start: "tru_ok A" "tru_ok B" "r < length (t_heap A)" "s < length (t_heap B)"
    using assms(3) getChannel_ok by (auto simp: session_start_def)
  have "hash_laws L" using assms(2) by (simp add: crypto_laws_def)
  then have "evolves A (h_tru (ec_client E)) \<and> evolves B (h_tru (ec_server E))"
    using net_steps_evolves [of L x y "host0 A" "host0 B" "ec_client E" "ec_server E"] assms(1) start(1,2)
    by (simp add: echo_inv_def)
  then show "r < length (t_heap (h_tru (ec_client E)))" "s < length (t_heap (h_tru (ec_server E)))"
    using start(3,4) evolvesD(3) by blast+
qed

text \<open>A step of a connector takes the invariant along when it agrees on the reads and writes.\<close>

lemma echo_inv_left:
  assumes "echo_inv L nowait x y r s A B E served" "net_step L x y (ec_client E, ec_server E) (A', ec_server E)"
    and "between r c" "written r A' = map hello [0..<n]" "map p_data (taken r A') = got @ cn_queue c"
    and "nowait \<or> n = length got + (if w then 1 else 0)"
  shows "echo_inv L nowait x y r s A B
     (E\<lparr>ec_client := A', ec_cconn := c, ec_sent := n, ec_wait := w, ec_got := got\<rparr>) served"
  using assms unfolding echo_inv_def by (auto intro: rtranclp.rtrancl_into_rtrancl)

lemma echo_inv_right:
  assumes "echo_inv L nowait x y r s A B E served" "net_step L x y (ec_client E, ec_server E) (ec_client E, B')"
    and "between s c" "map p_data (taken s B') = served' @ cn_queue c" "written s B' = map echo_answer served'"
  shows "echo_inv L nowait x y r s A B (E\<lparr>ec_server := B', ec_sconn := c\<rparr>) served'"
  using assms unfolding echo_inv_def by (auto intro: rtranclp.rtrancl_into_rtrancl)

lemma echo_inv_take_left:
  assumes inv: "echo_inv L nowait x y r s A B E served"
    and take: "tru_act L (Took (Some (r, p))) (h_tru (ec_client E)) t" "conn_reader L env (Some p) None (ec_cconn E) t = (c, t')"
  shows "echo_inv L nowait x y r s A B (E\<lparr>ec_client := host_step (ec_client E) (Took (Some (r, p))) t', ec_cconn := c\<rparr>) served"
proof -
  have I: "between r (ec_cconn E)" "written r (ec_client E) = map hello [0..<ec_sent E]"
    "map p_data (taken r (ec_client E)) = ec_got E @ cn_queue (ec_cconn E)"
    "nowait \<or> ec_sent E = length (ec_got E) + (if ec_wait E then 1 else 0)"
    using inv by (simp_all add: echo_inv_def)
  have c: "c = (ec_cconn E)\<lparr>cn_queue := cn_queue (ec_cconn E) @ [p_data p]\<rparr>" "t' = t"
    using conn_reader_between [OF I(1), of L env p t] take(2) by simp_all
  have "net_step L x y (ec_client E, ec_server E) (host_step (ec_client E) (Took (Some (r, p))) t, ec_server E)"
    using take(1) by (intro net_left) simp_all
  from echo_inv_left [OF inv this between_queue [OF I(1)], of "ec_sent E" "ec_got E" "cn_queue (ec_cconn E) @ [p_data p]" "ec_wait E"]
  show ?thesis using I unfolding c by simp
qed

lemma echo_inv_take_right:
  assumes inv: "echo_inv L nowait x y r s A B E served"
    and take: "tru_act L (Took (Some (s, p))) (h_tru (ec_server E)) t" "conn_reader L env (Some p) None (ec_sconn E) t = (c, t')"
  shows "echo_inv L nowait x y r s A B (E\<lparr>ec_server := host_step (ec_server E) (Took (Some (s, p))) t', ec_sconn := c\<rparr>) served"
proof -
  have I: "between s (ec_sconn E)" "map p_data (taken s (ec_server E)) = served @ cn_queue (ec_sconn E)"
    "written s (ec_server E) = map echo_answer served"
    using inv by (simp_all add: echo_inv_def)
  have c: "c = (ec_sconn E)\<lparr>cn_queue := cn_queue (ec_sconn E) @ [p_data p]\<rparr>" "t' = t"
    using conn_reader_between [OF I(1), of L env p t] take(2) by simp_all
  have "net_step L x y (ec_client E, ec_server E) (ec_client E, host_step (ec_server E) (Took (Some (s, p))) t)"
    using take(1) by (intro net_right) simp_all
  from echo_inv_right [OF inv this between_queue [OF I(1)], of served "cn_queue (ec_sconn E) @ [p_data p]"]
  show ?thesis using I unfolding c by simp
qed

lemma echo_inv_serve:
  assumes inv: "echo_inv L nowait x y r s A B E served" and heap: "s < length (t_heap (h_tru (ec_server E)))"
    and envs: "\<And>k. env_ok (envs k)" "\<And>k. 0 < room k"
    and turn: "server_turn L envs room (ec_sconn E) (h_tru (ec_server E)) = Some (Some res, c, t)"
  shows "\<exists>m. echo_inv L nowait x y r s A B (E\<lparr>ec_server := host_step (ec_server E) (Wrote s res True) t, ec_sconn := c\<rparr>) (served @ [m])"
proof -
  have I: "between s (ec_sconn E)" "map p_data (taken s (ec_server E)) = served @ cn_queue (ec_sconn E)"
    "written s (ec_server E) = map echo_answer served"
    using inv by (simp_all add: echo_inv_def)
  obtain m ms where q: "cn_queue (ec_sconn E) = m # ms" "c = (ec_sconn E)\<lparr>cn_queue := ms\<rparr>" "res = echo_answer m"
    "t = snd (conn_Write L envs (echo_answer m) c (h_tru (ec_server E)))"
    using server_turn_eq [of room s "ec_sconn E" L envs, OF envs(2) I(1)] turn by (auto split: list.splits)
  have "net_step L x y (ec_client E, ec_server E) (ec_client E, host_step (ec_server E) (Wrote s res True) t)"
    unfolding q(3,4) using I(1) heap envs(1) by (intro net_right conn_Write_act) (simp_all add: between_def q(2))
  from echo_inv_right [OF inv this between_queue [OF I(1), of ms], of "served @ [m]"]
  show ?thesis using I q by auto
qed

lemma echo_step_inv:
  assumes inv: "echo_inv L nowait x y r s A B E served" and laws: "crypto_laws L" and start: "session_start L x y r s A B"
    and step: "echo_step L nowait x y r s E E'"
  shows "\<exists>served'. echo_inv L nowait x y r s A B E' served'"
proof -
  note heap = echo_inv_heap [OF inv laws start]
  have I: "between r (ec_cconn E)" "between s (ec_sconn E)" "written r (ec_client E) = map hello [0..<ec_sent E]"
    "map p_data (taken s (ec_server E)) = served @ cn_queue (ec_sconn E)" "written s (ec_server E) = map echo_answer served"
    "map p_data (taken r (ec_client E)) = ec_got E @ cn_queue (ec_cconn E)"
    "nowait \<or> ec_sent E = length (ec_got E) + (if ec_wait E then 1 else 0)"
    using inv by (simp_all add: echo_inv_def)
  show ?thesis
    using step
  proof cases
    case (echo_left l t)
    then show ?thesis
      using echo_inv_left [OF inv net_left [OF echo_left(2,3)] I(1), of "ec_sent E" "ec_got E" "ec_wait E"] I by auto
  next
    case (echo_right l t)
    then show ?thesis
      using echo_inv_right [OF inv net_right [OF echo_right(2,3)] I(2), of served] I by auto
  next
    case (echo_send envs t)
    have t: "t = snd (conn_Write L envs (hello (ec_sent E)) (ec_cconn E) (h_tru (ec_client E)))"
      using echo_send(4) by (simp add: client_send_def Let_def split_def)
    have "net_step L x y (ec_client E, ec_server E) (host_step (ec_client E) (Wrote r (hello (ec_sent E)) True) t, ec_server E)"
      unfolding t using I(1) heap(1) echo_send(3) by (intro net_left conn_Write_act) (simp_all add: between_def)
    from echo_inv_left [OF inv this I(1), of "Suc (ec_sent E)" "ec_got E" "\<not> nowait"]
    show ?thesis using I echo_send(2) unfolding echo_send(1) by (cases nowait) auto
  next
    case (echo_receive room m c)
    then obtain ms where q: "cn_queue (ec_cconn E) = m # ms" "c = (ec_cconn E)\<lparr>cn_queue := ms\<rparr>"
      using client_receive_eq [of room, OF echo_receive(3) I(1)] by (auto split: list.splits)
    have "echo_inv L nowait x y r s A B E' served"
      using inv echo_receive(2) q between_queue [OF I(1), of ms] unfolding echo_receive(1) echo_inv_def by auto
    then show ?thesis by blast
  qed (use echo_inv_take_left [OF inv] echo_inv_take_right [OF inv] echo_inv_serve [OF inv heap(2)] in blast)+
qed

lemma echo_steps_inv:
  assumes "(echo_step L nowait x y r s)\<^sup>*\<^sup>* (echo_start a b r s A B) E" "crypto_laws L" "session_start L x y r s A B"
  shows "\<exists>served. echo_inv L nowait x y r s A B E served"
  using assms(1)
proof (induction rule: rtranclp_induct)
  case base
  have "echo_inv L nowait x y r s A B (echo_start a b r s A B) []"
    by (simp add: echo_inv_def echo_start_def between_new host0_def written_def taken_def) (simp add: newConn_def)
  then show ?case ..
next
  case (step E E')
  then show ?case using echo_step_inv [OF _ assms(2,3) step.hyps(2)] by blast
qed

end
