(* ===== verification/Term.thy ===== *)
theory Term
  imports Go_Strings
begin

section \<open>Terminal sequences (term/term.go)\<close>

text \<open>
  The escape sequences and key codes; \<open>esc\<close> is the byte 27.  Reading the terminal and its modes
  are system calls and not modelled.
\<close>

abbreviation esc :: char where "esc \<equiv> CHR 0x1B"

datatype term_color =
    CNone | CBlack | CRed | CGreen | CBrown | CBlue | CMagenta | CCyan | CGrey
  | CDarkGrey | CLightRed | CLightGreen | CYellow | CLightBlue | CLightMagenta | CLightCyan | CWhite

text \<open>The methods of \<open>ColorFuncs\<close>, one for each color.\<close>

fun term_Color :: "term_color \<Rightarrow> string" where
  "term_Color CNone = esc # ''[0m''"
| "term_Color CBlack = esc # ''[22;30m''"
| "term_Color CRed = esc # ''[22;31m''"
| "term_Color CGreen = esc # ''[22;32m''"
| "term_Color CBrown = esc # ''[22;33m''"
| "term_Color CBlue = esc # ''[22;34m''"
| "term_Color CMagenta = esc # ''[22;35m''"
| "term_Color CCyan = esc # ''[22;36m''"
| "term_Color CGrey = esc # ''[22;37m''"
| "term_Color CDarkGrey = esc # ''[01;30m''"
| "term_Color CLightRed = esc # ''[01;31m''"
| "term_Color CLightGreen = esc # ''[01;32m''"
| "term_Color CYellow = esc # ''[01;33m''"
| "term_Color CLightBlue = esc # ''[01;34m''"
| "term_Color CLightMagenta = esc # ''[01;35m''"
| "term_Color CLightCyan = esc # ''[01;36m''"
| "term_Color CWhite = esc # ''[01;37m''"

definition SetColor :: "string \<Rightarrow> string \<Rightarrow> string" where
  "SetColor color txt = color @ txt @ term_Color CNone"

definition term_Clear :: string where "term_Clear = esc # ''[2J''"
definition term_WrapOn :: string where "term_WrapOn = esc # ''[?7h''"
definition term_WrapOff :: string where "term_WrapOff = esc # ''[?7l''"
definition term_SaveCursorPosition :: string where "term_SaveCursorPosition = esc # ''[s''"
definition term_RestoreCursorPosition :: string where "term_RestoreCursorPosition = esc # ''[u''"

definition term_SetCursorPosition :: "int \<Rightarrow> int \<Rightarrow> string" where
  "term_SetCursorPosition x y = esc # ''['' @ itoa y @ '';'' @ itoa x @ ''f''"

definition term_HideCursor :: string where "term_HideCursor = esc # ''[?25l''"
definition term_ShowCursor :: string where "term_ShowCursor = esc # ''[?25h''"
definition term_ClearLine :: string where "term_ClearLine = esc # ''[K''"

definition term_SetScrollRegion :: "int \<Rightarrow> int list \<Rightarrow> string" where
  "term_SetScrollRegion startRow numRows =
     (case numRows of
        [] \<Rightarrow> esc # ''['' @ itoa startRow @ '';r''
      | n # _ \<Rightarrow> if n = 0 then esc # ''['' @ itoa startRow @ '';r''
                 else esc # ''['' @ itoa startRow @ '';'' @ itoa n @ ''r'')"

definition term_ResetScrollRegion :: string where "term_ResetScrollRegion = esc # ''[r''"

definition key_CtrlC :: bytes where "key_CtrlC = [3]"
definition key_CtrlD :: bytes where "key_CtrlD = [4]"
definition key_Left :: bytes where "key_Left = [27, 91, 68]"

subsection \<open>Lemmas\<close>

lemma term_Color_inj: "term_Color c = term_Color d \<Longrightarrow> c = d"
  by (cases c; cases d) simp_all

text \<open>A terminal reads the position back from the sequence.\<close>

lemma itoa_no_semicolon: "CHR '';'' \<notin> set (itoa i)"
proof -
  have "c \<noteq> CHR '';''" if "c \<in> set (nat_digits n)" for c n
    using nat_digits_chars [OF that] by (auto simp: digit_val_def)
  then show ?thesis by (auto simp: itoa_def)
qed

lemma itoa_inj:
  assumes "- (2 ^ 63) \<le> i" "i < 2 ^ 63" "- (2 ^ 63) \<le> j" "j < 2 ^ 63" "itoa i = itoa j"
  shows "i = j"
  using atoi_itoa [OF assms(1,2)] atoi_itoa [OF assms(3,4)] unfolding assms(5) by (metis option.inject)

lemma separator_inj: "c \<notin> set xs \<Longrightarrow> c \<notin> set ys \<Longrightarrow> xs @ c # us = ys @ c # vs \<Longrightarrow> xs = ys \<and> us = vs"
proof (induction xs arbitrary: ys)
  case Nil
  then show ?case by (cases ys) auto
next
  case (Cons x xs)
  then show ?case by (cases ys) auto
qed

lemma SetCursorPosition_args:
  assumes "term_SetCursorPosition x y = term_SetCursorPosition x' y'"
  shows "itoa x = itoa x'" "itoa y = itoa y'"
  using assms separator_inj [OF itoa_no_semicolon itoa_no_semicolon, of y "itoa x @ ''f''" y' "itoa x' @ ''f''"]
  by (simp_all add: term_SetCursorPosition_def)

end
