(* ===== verification/Stat_View.thy ===== *)
theory Stat_View
  imports System Term "HOL-Library.Char_ord" "HOL-Library.List_Lexorder" "HOL-Library.Multiset"
begin

section \<open>The statistics on the screen (statistic.go, tru.go)\<close>

text \<open>
  What \<open>Statistic\<close> collects from the channels, and the frame that the 500 ms timer prints.  The
  third-party package \<open>stable\<close> that draws the table is an argument, \<open>draw\<close>, which is given the table's
  settings; so are the local address, the run time's text and the size of the terminal.  \<open>Statistic\<close> shares arrays
  between its loop and its goroutines, so its slices are kept with their arrays.  A trip time is in
  microseconds here.
\<close>

record channelStatistic =
  cs_Addr :: string
  cs_Send :: i64
  cs_Ssec :: int
  cs_Rsnd :: i64
  cs_Ack :: i64
  cs_AckD :: i64
  cs_Recv :: i64
  cs_Rsec :: int
  cs_Drop :: i64
  cs_SQ :: nat
  cs_RQ :: nat
  cs_RTA :: int
  cs_Delay :: int
  cs_TT :: int

text \<open>The element that the loop of \<open>Statistic\<close> appends, and what a goroutine adds to it later.\<close>

definition channel_statistic :: "channel \<Rightarrow> channelStatistic" where
  "channel_statistic ch =
     \<lparr>cs_Addr = c_addr ch, cs_Send = st_send (c_stat ch), cs_Ssec = sp_speed (st_sendSpeed (c_stat ch)),
      cs_Rsnd = st_retransmit (c_stat ch), cs_Ack = st_ackRecv (c_stat ch),
      cs_AckD = st_ackRecvDrop (c_stat ch), cs_Recv = st_recv (c_stat ch),
      cs_Rsec = sp_speed (st_recvSpeed (c_stat ch)), cs_Drop = st_drop (c_stat ch),
      cs_SQ = 0, cs_RQ = rq_len (c_recvQueue ch),
      cs_RTA = 0, cs_Delay = st_sendDelay (c_stat ch),
      cs_TT = go_div (st_tripTimeMidle (c_stat ch)) microsecond\<rparr>"

definition queue_statistic :: "channel \<Rightarrow> channelStatistic \<Rightarrow> channelStatistic" where
  "queue_statistic ch e =
     e\<lparr>cs_RTA := sq_getRetransmitAttempts (c_sendQueue ch), cs_SQ := sq_len (c_sendQueue ch)\<rparr>"

text \<open>
  Slices: the arrays that were allocated so far, each as the elements written to it, and a slice of
  one of them.  \<open>append\<close> writes in place while there is room and else copies to a new array, whose
  capacity, \<open>grow\<close> of the old length, is left to Go.
\<close>

record slice =
  s_arr :: nat
  s_len :: nat
  s_cap :: nat

definition nil_slice :: slice where
  "nil_slice = \<lparr>s_arr = 0, s_len = 0, s_cap = 0\<rparr>"

definition go_append :: "(nat \<Rightarrow> nat) \<Rightarrow> 'a \<Rightarrow> slice \<times> 'a list list \<Rightarrow> slice \<times> 'a list list" where
  "go_append grow x st =
     (case st of (s, m) \<Rightarrow>
        let old = take (s_len s) (m ! s_arr s) in
        if s_len s < s_cap s then (s\<lparr>s_len := Suc (s_len s)\<rparr>, m[s_arr s := old @ [x]])
        else (\<lparr>s_arr = length m, s_len = Suc (s_len s), s_cap = grow (s_len s)\<rparr>, m @ [old @ [x]]))"

text \<open>
  The loop over the map's channels, which also starts one goroutine for each.  A goroutine has the
  slice of its turn, the channel and the index, and waits for the lock that the loop holds.
\<close>

fun Statistic_loop ::
  "(nat \<Rightarrow> nat) \<Rightarrow> channel list \<Rightarrow> nat \<Rightarrow> slice \<times> channelStatistic list list \<Rightarrow> (slice \<times> channel \<times> nat) list \<Rightarrow>
   (slice \<times> channelStatistic list list) \<times> (slice \<times> channel \<times> nat) list" where
  "Statistic_loop grow [] i st gs = (st, gs)"
| "Statistic_loop grow (ch # chs) i st gs =
     (let st = go_append grow (channel_statistic ch) st
      in Statistic_loop grow chs (Suc i) st (gs @ [(fst st, ch, i)]))"

definition run_goroutine :: "slice \<times> channel \<times> nat \<Rightarrow> channelStatistic list list \<Rightarrow> channelStatistic list list" where
  "run_goroutine g m =
     (case g of (s, ch, i) \<Rightarrow> m[s_arr s := (m ! s_arr s)[i := queue_statistic ch (m ! s_arr s ! i)]])"

text \<open>The map is read in any order; here in the order of the list that represents it.\<close>

definition tru_Statistic :: "(nat \<Rightarrow> nat) \<Rightarrow> tru \<Rightarrow> channelStatistic list" where
  "tru_Statistic grow tru =
     (let ((s, m), gs) = Statistic_loop grow (map (\<lambda>(a, r). get_ch tru r) (t_channels tru)) 0 (nil_slice, [[]]) [];
          m = fold run_goroutine gs m
      in sort_key cs_Addr (take (s_len s) (m ! s_arr s)))"

subsection \<open>The table\<close>

text \<open>The settings of a \<open>stable.Stable\<close> with lines: formats and alignments by column, the columns of the totals row.\<close>

record table_settings =
  ts_formats :: "string list"
  ts_aligns :: "int list"
  ts_totals :: "int list option"
  ts_cleanLine :: bool

definition ChannelsStatistic_String ::
  "(table_settings \<Rightarrow> channelStatistic list \<Rightarrow> string) \<Rightarrow> bool list \<Rightarrow> channelStatistic list \<Rightarrow> string" where
  "ChannelsStatistic_String draw cleanLine cs =
     (let formats = (replicate 14 [])[2 := ''%5d'', 7 := ''%5d'', 9 := ''%3d'', 10 := ''%3d'', 13 := ''%.3f''];
          st = \<lparr>ts_formats = formats, ts_aligns = 0 # replicate 17 1, ts_totals = None, ts_cleanLine = False\<rparr>;
          st = (if length cs > 1 then st\<lparr>ts_totals := Some (0 # replicate 11 1)\<rparr> else st);
          st = (case cleanLine of c # _ \<Rightarrow> if c then st\<lparr>ts_cleanLine := True\<rparr> else st | [] \<Rightarrow> st)
      in draw st cs)"

text \<open>The parameter is not used: the table always clears its lines.\<close>

definition statToString ::
  "(nat \<Rightarrow> nat) \<Rightarrow> (table_settings \<Rightarrow> channelStatistic list \<Rightarrow> string) \<Rightarrow> bool \<Rightarrow> tru \<Rightarrow> string \<times> nat" where
  "statToString grow draw cleanLine tru =
     (let stat = tru_Statistic grow tru in (ChannelsStatistic_String draw [True] stat, stat_numRows (length stat)))"

subsection \<open>One frame\<close>

text \<open>\<open>rows\<close> is the terminal's height, \<open>None\<close> when it cannot be read.\<close>

definition getLog :: "int option \<Rightarrow> int \<Rightarrow> statistic_log \<Rightarrow> string \<times> int" where
  "getLog rows tableLen msgs =
     (let l = int (sl_len msgs);
          from = (case rows of
                    None \<Rightarrow> 0
                  | Some h \<Rightarrow> (let f = l - (h - tableLen) in if f < 0 then 0 else f))
      in (concat (map (\<lambda>i. term_ClearLine @ sl_get i msgs @ [CHR 0x0A]) [from..l - 1]), l - from))"

definition getStat ::
  "(nat \<Rightarrow> nat) \<Rightarrow> (table_settings \<Rightarrow> channelStatistic list \<Rightarrow> string) \<Rightarrow> int option \<Rightarrow> string \<Rightarrow> string \<Rightarrow> tru \<Rightarrow> string" where
  "getStat grow draw rows localAddr runTime tru =
     (let (table, numRows) = statToString grow draw True tru; numRows = int numRows;
          str = term_SaveCursorPosition @ term_SetCursorPosition 1 1 @ term_WrapOff;
          str = str @ term_ClearLine @ ''TRU '' @ localAddr @ '', RCH: '' @ itoa (int (length (t_readerCh tru))) @
                '', SCH: '' @ itoa (int (length (t_senderCh tru))) @ '', run time: '' @ runTime @ [CHR 0x0A] @
                term_ClearLine @ table @ [CHR 0x0A] @ term_ClearLine;
          (str, n) = (if sl_showit (t_statMsgs tru) then
                        (let (msglog, n) = getLog rows (numRows + 4) (t_statMsgs tru)
                         in (str @ term_ClearLine @ [CHR 0x0A] @ msglog, n + 1))
                      else (str, 0))
      in str @ term_ClearLine @ [CHR 0x0A] @ term_SetScrollRegion (numRows + 3 + n) [] @
         term_RestoreCursorPosition @ term_WrapOn)"

text \<open>The statistic timer: draws a frame, prints it if \<open>prnt\<close>, and arms itself again.\<close>

definition statistic_timer ::
  "(nat \<Rightarrow> nat) \<Rightarrow> (table_settings \<Rightarrow> channelStatistic list \<Rightarrow> string) \<Rightarrow> bool \<Rightarrow> time \<Rightarrow> int option \<Rightarrow> string \<Rightarrow> string \<Rightarrow> tru \<Rightarrow> string \<times> tru" where
  "statistic_timer grow draw prnt now rows localAddr runTime tru =
     (let str = getStat grow draw rows localAddr runTime tru in (if prnt then str else [], StatisticPrint now tru))"

text \<open>What \<open>StatisticPrintStop\<close> prints.\<close>

definition print_stop :: "tru \<Rightarrow> string" where
  "print_stop tru = (if t_statTimer tru \<noteq> NoTimer then term_ResetScrollRegion @ term_RestoreCursorPosition else [])"

subsection \<open>Logo\<close>

abbreviation truName :: string where "truName \<equiv> ''Teonet Reliable UDP (TRU v5)''"
abbreviation truVersion :: string where "truVersion \<equiv> ''0.0.18''"

definition logo_lines :: "string list" where
  "logo_lines =
     ['''',
      '' _____ ____  _   _  '',
      ''|_   _|  _ '' @ [CHR 0x5C] @ ''| | | | v5'',
      ''  | | | |_) | | | |'',
      ''  | | |  _ <| |_| |'',
      ''  |_| |_| '' @ [CHR 0x5C] @ ''_'' @ [CHR 0x5C, CHR 0x5C] @ ''___/ '',
      '''']"

definition Logo :: "string \<Rightarrow> string \<Rightarrow> string" where
  "Logo appName appVersion =
     (let appName = (if length appName = 0 then ''Sample application'' else appName);
          appVersion = (if length appVersion = 0 then ''0.0.1'' else appVersion)
      in strings_Join logo_lines [CHR 0x0A] @ [CHR 0x0A] @ appName @ '' ver '' @ appVersion @
         '', based on '' @ truName @ '' ver '' @ truVersion @ [CHR 0x0A])"

subsection \<open>Lemmas\<close>

text \<open>
  After \<open>n\<close> appends: the number of allocations, the index whose append made the last one, and the
  capacity.
\<close>

fun allocs :: "(nat \<Rightarrow> nat) \<Rightarrow> nat \<Rightarrow> nat \<times> nat \<times> nat" where
  "allocs grow 0 = (0, 0, 0)"
| "allocs grow (Suc n) =
     (case allocs grow n of (a, b, c) \<Rightarrow> if n < c then (a, b, c) else (Suc a, n, grow n))"

abbreviation array_of :: "(nat \<Rightarrow> nat) \<Rightarrow> nat \<Rightarrow> nat" where "array_of grow n \<equiv> fst (allocs grow n)"
abbreviation last_alloc :: "(nat \<Rightarrow> nat) \<Rightarrow> nat \<Rightarrow> nat" where "last_alloc grow n \<equiv> fst (snd (allocs grow n))"

lemma array_of_mono: "m \<le> n \<Longrightarrow> array_of grow m \<le> array_of grow n"
  by (induction n rule: dec_induct) (auto simp: split_def)

lemma last_alloc_le: "last_alloc grow n \<le> n"
  by (induction n) (auto simp: split_def)

lemma array_of_last: "i < n \<Longrightarrow> array_of grow (Suc i) = array_of grow n \<longleftrightarrow> last_alloc grow n \<le> i"
proof (induction n)
  case (Suc n)
  then show ?case
    using array_of_mono [of "Suc i" n grow] last_alloc_le [of grow n] by (cases "i = n") (auto simp: split_def)
qed simp

lemma last_alloc_first: "grow 0 = 1 \<Longrightarrow> 1 < n \<Longrightarrow> 0 < last_alloc grow n"
proof (induction n)
  case (Suc n)
  then show ?case by (cases "n = 1") (auto simp: split_def)
qed simp

definition slice_after :: "(nat \<Rightarrow> nat) \<Rightarrow> nat \<Rightarrow> slice" where
  "slice_after grow n = \<lparr>s_arr = array_of grow n, s_len = n, s_cap = snd (snd (allocs grow n))\<rparr>"

text \<open>What the loop leaves: the newest array has all the elements, and each goroutine the slice of its turn.\<close>

definition loop_state :: "(nat \<Rightarrow> nat) \<Rightarrow> channel list \<Rightarrow> slice \<times> channelStatistic list list \<Rightarrow> bool" where
  "loop_state grow chs st \<longleftrightarrow> fst st = slice_after grow (length chs) \<and>
     length (snd st) = Suc (array_of grow (length chs)) \<and> snd st ! array_of grow (length chs) = map channel_statistic chs"

lemma loop_state_append:
  "loop_state grow chs st \<Longrightarrow> loop_state grow (chs @ [ch]) (go_append grow (channel_statistic ch) st)"
  by (auto simp: loop_state_def go_append_def slice_after_def Let_def split_def nth_append)

lemma Statistic_loop_state:
  assumes "loop_state grow done' st" "gs = map (\<lambda>i. (slice_after grow (Suc i), done' ! i, i)) [0..<length done']"
    and "Statistic_loop grow chs (length done') st gs = (st', gs')"
  shows "loop_state grow (done' @ chs) st' \<and>
     gs' = map (\<lambda>i. (slice_after grow (Suc i), (done' @ chs) ! i, i)) [0..<length (done' @ chs)]"
  using assms
proof (induction chs arbitrary: done' st gs)
  case (Cons ch chs)
  let ?st = "go_append grow (channel_statistic ch) st"
  have st: "loop_state grow (done' @ [ch]) ?st" by (rule loop_state_append [OF Cons.prems(1)])
  then have "gs @ [(fst ?st, ch, length done')] =
      map (\<lambda>i. (slice_after grow (Suc i), (done' @ [ch]) ! i, i)) [0..<length (done' @ [ch])]"
    using Cons.prems(2) by (simp add: loop_state_def nth_append)
  from Cons.IH [OF st this] Cons.prems(3) show ?case by (simp add: Let_def)
qed simp

text \<open>What the goroutines write to one array, which is not the newest for all of them.\<close>

lemma run_goroutine_nth:
  assumes "a < length m"
  shows "run_goroutine (s, ch, i) m ! a = (if s_arr s = a then (m ! a)[i := queue_statistic ch (m ! a ! i)] else m ! a)"
    "length (run_goroutine g m) = length m"
  using assms by (auto simp: run_goroutine_def split_def)

lemma goroutines_write:
  assumes "a < length m" "k \<le> length (m ! a)"
  shows "fold run_goroutine (map (\<lambda>i. (sl i, f i, i)) [0..<k]) m ! a =
     map (\<lambda>i. if i < k \<and> s_arr (sl i) = a then queue_statistic (f i) (m ! a ! i) else m ! a ! i) [0..<length (m ! a)] \<and>
     length (fold run_goroutine (map (\<lambda>i. (sl i, f i, i)) [0..<k]) m) = length m"
  using assms(2)
proof (induction k)
  case 0
  then show ?case by (simp add: map_nth)
next
  case (Suc k)
  define m' where "m' = fold run_goroutine (map (\<lambda>i. (sl i, f i, i)) [0..<k]) m"
  have IH: "m' ! a = map (\<lambda>i. if i < k \<and> s_arr (sl i) = a then queue_statistic (f i) (m ! a ! i) else m ! a ! i) [0..<length (m ! a)]"
    "length m' = length m"
    using Suc by (simp_all add: m'_def)
  have "fold run_goroutine (map (\<lambda>i. (sl i, f i, i)) [0..<Suc k]) m = run_goroutine (sl k, f k, k) m'"
    by (simp add: m'_def)
  moreover have "run_goroutine (sl k, f k, k) m' ! a =
      map (\<lambda>i. if i < Suc k \<and> s_arr (sl i) = a then queue_statistic (f i) (m ! a ! i) else m ! a ! i) [0..<length (m ! a)]"
    using assms(1) Suc.prems IH(2) by (auto simp: run_goroutine_nth IH(1) nth_list_update less_Suc_eq intro!: nth_equalityI)
  ultimately show ?case
    using IH(2) assms(1) by (simp only: run_goroutine_nth(2))
qed

text \<open>They write different cells, so their order does not matter.\<close>

lemma run_goroutine_commute:
  assumes "snd (snd g) \<noteq> snd (snd h) \<or> g = h"
  shows "run_goroutine g (run_goroutine h m) = run_goroutine h (run_goroutine g m)"
proof -
  have beyond: "run_goroutine g m = m" if "length m \<le> s_arr (fst g)" for g m
    using that by (simp add: run_goroutine_def split_def list_update_beyond)
  have len: "length (run_goroutine g m) = length m" for g m
    by (simp add: run_goroutine_def split_def)
  consider "length m \<le> s_arr (fst g)" | "length m \<le> s_arr (fst h)"
    | "s_arr (fst g) < length m" "s_arr (fst h) < length m" by linarith
  then show ?thesis
  proof cases
    case 3
    then show ?thesis
      using assms by (cases "s_arr (fst g) = s_arr (fst h)") (auto simp: run_goroutine_def split_def list_update_swap nth_list_update)
  qed (simp_all add: beyond len)
qed

lemma goroutines_any_order:
  assumes "mset gs' = mset (map (\<lambda>i. (sl i, f i, i)) [0..<k])"
  shows "fold run_goroutine gs' m = fold run_goroutine (map (\<lambda>i. (sl i, f i, i)) [0..<k]) m"
proof (rule sym, rule fun_cong [OF fold_multiset_equiv])
  fix x y :: "slice \<times> channel \<times> nat"
  assume "x \<in> set (map (\<lambda>i. (sl i, f i, i)) [0..<k])" "y \<in> set (map (\<lambda>i. (sl i, f i, i)) [0..<k])"
  then have "snd (snd x) \<noteq> snd (snd y) \<or> x = y" by auto
  then show "run_goroutine x \<circ> run_goroutine y = run_goroutine y \<circ> run_goroutine x"
    using run_goroutine_commute [of x y] by (auto simp: fun_eq_iff)
qed (simp add: assms)

text \<open>
  The listing in closed form: the elements written before the last allocation do not get the values
  of the send queue.
\<close>

definition listed :: "(nat \<Rightarrow> nat) \<Rightarrow> channel list \<Rightarrow> nat \<Rightarrow> channelStatistic" where
  "listed grow chs i =
     (if last_alloc grow (length chs) \<le> i then queue_statistic (chs ! i) (channel_statistic (chs ! i)) else channel_statistic (chs ! i))"

lemma tru_Statistic_eq:
  fixes tru :: tru
  defines "chs \<equiv> map (\<lambda>(a, r). get_ch tru r) (t_channels tru)"
  shows "tru_Statistic grow tru = sort_key cs_Addr (map (listed grow chs) [0..<length chs])"
proof -
  let ?a = "array_of grow (length chs)"
  obtain s m gs where run: "Statistic_loop grow chs 0 (nil_slice, [[]]) [] = ((s, m), gs)"
    by (metis prod.collapse)
  have "loop_state grow [] (nil_slice, [[]])"
    by (simp add: loop_state_def nil_slice_def slice_after_def)
  from Statistic_loop_state [OF this _, of "[]" chs] run
  have st: "loop_state grow chs (s, m)" and gs: "gs = map (\<lambda>i. (slice_after grow (Suc i), chs ! i, i)) [0..<length chs]"
    by simp_all
  then have m: "s = slice_after grow (length chs)" "?a < length m" "m ! ?a = map channel_statistic chs"
    by (simp_all add: loop_state_def)
  have "fold run_goroutine gs m ! ?a = map (listed grow chs) [0..<length chs]"
    using goroutines_write [of ?a m "length chs" "\<lambda>i. slice_after grow (Suc i)" "(!) chs"] m(2,3)
    by (auto simp: gs listed_def slice_after_def array_of_last simp del: allocs.simps(2))
  then show ?thesis
    by (simp add: tru_Statistic_def run m(1) slice_after_def flip: chs_def)
qed

lemma Statistic_addresses:
  assumes "tru_ok tru"
  shows "map cs_Addr (map (\<lambda>(a, r). channel_statistic (get_ch tru r)) (t_channels tru)) = map fst (t_channels tru)"
proof -
  have "c_addr (get_ch tru r) = a" if "(a, r) \<in> set (t_channels tru)" for a r
  proof -
    have "gm_get (t_channels tru) a = Some r"
      using that tru_okD(2) [OF assms] by (simp add: gm_ok_def)
    then show ?thesis using tru_okD(3) [OF assms] by blast
  qed
  then show ?thesis by (auto simp: channel_statistic_def)
qed

lemma listed_addresses: "map cs_Addr (map (listed grow chs) [0..<length chs]) = map cs_Addr (map channel_statistic chs)"
  by (auto simp: listed_def queue_statistic_def intro!: nth_equalityI)

text \<open>Without the two values of the send queue, the listing does not depend on the order of the map.\<close>

definition forget_queue :: "channelStatistic \<Rightarrow> channelStatistic" where
  "forget_queue e = e\<lparr>cs_SQ := 0, cs_RTA := 0\<rparr>"

lemma forget_listing:
  "map forget_queue (tru_Statistic grow tru) = sort_key cs_Addr (map (\<lambda>(a, r). channel_statistic (get_ch tru r)) (t_channels tru))"
proof -
  let ?chs = "map (\<lambda>(a, r). get_ch tru r) (t_channels tru)"
  have "map forget_queue (sort_key cs_Addr xs) = sort_key cs_Addr (map forget_queue xs)" for xs
  proof (induction xs)
    case (Cons x xs)
    have "map forget_queue (insort_key cs_Addr x ys) = insort_key cs_Addr (forget_queue x) (map forget_queue ys)" for ys
      by (induction ys) (simp_all add: forget_queue_def)
    with Cons show ?case by simp
  qed simp
  moreover have "map forget_queue (map (listed grow ?chs) [0..<length ?chs]) = map channel_statistic ?chs"
    by (auto simp: listed_def forget_queue_def queue_statistic_def channel_statistic_def intro!: nth_equalityI)
  ultimately show ?thesis
    by (simp add: tru_Statistic_eq case_prod_unfold comp_def)
qed

lemma Statistic_order:
  assumes ok: "tru_ok tru" and m: "mset m = mset (t_channels tru)"
  shows "map forget_queue (tru_Statistic grow (tru\<lparr>t_channels := m\<rparr>)) = map forget_queue (tru_Statistic grow tru)"
proof -
  let ?f = "\<lambda>(a, r). channel_statistic (get_ch tru r)"
  have "distinct (map cs_Addr (map ?f (t_channels tru)))"
    unfolding Statistic_addresses [OF ok] using tru_okD(2) [OF ok] by (simp add: gm_ok_def)
  then have "inj_on cs_Addr (set (map ?f (t_channels tru)))"
    using distinct_map by blast
  moreover have "mset (map ?f m) = mset (map ?f (t_channels tru))"
    unfolding mset_map m ..
  moreover from this have "set (map ?f m) = set (map ?f (t_channels tru))"
    by (metis set_mset_mset)
  ultimately have "sort_key cs_Addr (map ?f m) = sort_key cs_Addr (map ?f (t_channels tru))"
    by (intro sort_key_inj_key_eq) simp_all
  then show ?thesis by (simp add: forget_listing)
qed

lemma Statistic_sorted:
  assumes "tru_ok tru"
  shows "sorted (map cs_Addr (tru_Statistic grow tru))" "distinct (map cs_Addr (tru_Statistic grow tru))"
    "set (map cs_Addr (tru_Statistic grow tru)) = dom (gm_get (t_channels tru))"
proof -
  show "sorted (map cs_Addr (tru_Statistic grow tru))"
    by (simp add: tru_Statistic_eq)
  let ?chs = "map (\<lambda>(a, r). get_ch tru r) (t_channels tru)"
  have addresses: "map cs_Addr (map (listed grow ?chs) [0..<length ?chs]) = map fst (t_channels tru)"
    using Statistic_addresses [OF assms] by (simp only: listed_addresses) (simp add: case_prod_unfold comp_def)
  have m: "mset (map cs_Addr (tru_Statistic grow tru)) = mset (map fst (t_channels tru))"
    unfolding tru_Statistic_eq mset_map mset_sort by (simp only: addresses flip: mset_map)
  then show "distinct (map cs_Addr (tru_Statistic grow tru))"
    using tru_okD(2) [OF assms] unfolding gm_ok_def by (metis mset_eq_imp_distinct_iff)
  show "set (map cs_Addr (tru_Statistic grow tru)) = dom (gm_get (t_channels tru))"
    using arg_cong [OF m, of set_mset] by (simp only: set_mset_mset dom_map_of_conv_image_fst set_map)
qed

text \<open>The log's part of the frame fits the terminal, and the frame has the last messages.\<close>

lemma getLog_rows:
  assumes "0 \<le> tableLen" "tableLen \<le> h"
  shows "snd (getLog (Some h) tableLen msgs) = min (int (sl_len msgs)) (h - tableLen)"
  using assms by (auto simp: getLog_def Let_def)

text \<open>
  The scroll region starts on the row that the cursor is on after the frame, when the table has
  \<open>stat_numRows\<close> rows and no text in the frame has a line break of its own.
\<close>

definition newlines :: "string \<Rightarrow> nat" where
  "newlines s = length (filter (\<lambda>c. c = CHR 0x0A) s)"

lemma newlines_simps [simp]:
  "newlines [] = 0" "newlines (c # s) = (if c = CHR 0x0A then 1 else 0) + newlines s"
  "newlines (s @ t) = newlines s + newlines t"
  by (simp_all add: newlines_def)

lemma newlines_none: "CHR 0x0A \<notin> set s \<Longrightarrow> newlines s = 0"
  by (auto simp: newlines_def filter_empty_conv)

lemma itoa_newlines [simp]: "newlines (itoa i) = 0"
proof -
  have "CHR 0x0A \<notin> set (nat_digits n)" for n
    using nat_digits_chars [of "CHR 0x0A" n] by (auto simp: digit_val_def)
  then have "CHR 0x0A \<notin> set (itoa i)" by (auto simp: itoa_def)
  then show ?thesis by (rule newlines_none)
qed

lemma newlines_concat: "newlines (concat ss) = sum_list (map newlines ss)"
  by (induction ss) simp_all

lemma getLog_newlines:
  assumes "\<And>i. 0 \<le> i \<Longrightarrow> i < int (sl_len msgs) \<Longrightarrow> newlines (sl_get i msgs) = 0" "getLog rows len msgs = (str, n)" "0 \<le> n"
  shows "int (newlines str) = n"
proof -
  define k where "k = (case rows of None \<Rightarrow> 0 | Some h \<Rightarrow> (let f = int (sl_len msgs) - (h - len) in if f < 0 then 0 else f))"
  have f: "str = concat (map (\<lambda>i. term_ClearLine @ sl_get i msgs @ [CHR 0x0A]) [k..int (sl_len msgs) - 1])" "n = int (sl_len msgs) - k"
    using assms(2) unfolding getLog_def Let_def k_def by simp_all
  have "0 \<le> k" by (simp add: k_def Let_def split: option.split)
  then have "newlines (term_ClearLine @ sl_get i msgs @ [CHR 0x0A]) = 1" if "i \<in> set [k..int (sl_len msgs) - 1]" for i
    using that assms(1) by (simp add: term_ClearLine_def)
  then have "map (newlines \<circ> (\<lambda>i. term_ClearLine @ sl_get i msgs @ [CHR 0x0A])) [k..int (sl_len msgs) - 1] = map (\<lambda>i. 1) [k..int (sl_len msgs) - 1]"
    by (intro map_cong refl) simp
  then have "newlines str = length [k..int (sl_len msgs) - 1]"
    unfolding f(1) newlines_concat map_map by (simp only: sum_list_triv) simp
  then show ?thesis
    using assms(3) f(2) by simp
qed

lemma frame_rows:
  assumes "newlines localAddr = 0" "newlines runTime = 0" "0 < length (tru_Statistic grow tru)"
    and "\<And>st. Suc (newlines (draw st (tru_Statistic grow tru))) = stat_numRows (length (tru_Statistic grow tru))"
    and "\<And>i. 0 \<le> i \<Longrightarrow> i < int (sl_len (t_statMsgs tru)) \<Longrightarrow> newlines (sl_get i (t_statMsgs tru)) = 0"
    and "\<And>h. rows = Some h \<Longrightarrow> int (stat_numRows (length (tru_Statistic grow tru))) + 4 \<le> h"
  shows "\<exists>body. getStat grow draw rows localAddr runTime tru =
     body @ term_SetScrollRegion (int (Suc (newlines body))) [] @ term_RestoreCursorPosition @ term_WrapOn"
proof -
  let ?n = "stat_numRows (length (tru_Statistic grow tru))" and ?m = "t_statMsgs tru"
  obtain log k where log: "getLog rows (int ?n + 4) ?m = (log, k)" by fastforce
  have "0 \<le> k" using log assms(6) by (auto simp: getLog_def Let_def split: option.splits if_splits)
  then have k: "int (newlines log) = k" using getLog_newlines [OF assms(5) log] by simp
  let ?t = "ChannelsStatistic_String draw [True] (tru_Statistic grow tru)"
  have table: "Suc (newlines ?t) = ?n"
    using assms(4) by (simp add: ChannelsStatistic_String_def Let_def)
  define start where "start = term_SaveCursorPosition @ term_SetCursorPosition 1 1 @ term_WrapOff @ term_ClearLine @ ''TRU '' @ localAddr @
    '', RCH: '' @ itoa (int (length (t_readerCh tru))) @ '', SCH: '' @ itoa (int (length (t_senderCh tru))) @ '', run time: '' @ runTime @
    [CHR 0x0A] @ term_ClearLine @ ?t @ [CHR 0x0A] @ term_ClearLine"
  have "newlines start = Suc ?n"
    using assms(1,2) table
    by (simp add: start_def term_SaveCursorPosition_def term_SetCursorPosition_def term_WrapOff_def term_ClearLine_def)
  moreover define body where "body = start @ (if sl_showit ?m then term_ClearLine @ [CHR 0x0A] @ log else []) @ term_ClearLine @ [CHR 0x0A]"
  moreover have "getStat grow draw rows localAddr runTime tru = body @
      term_SetScrollRegion (int ?n + 3 + (if sl_showit ?m then k + 1 else 0)) [] @ term_RestoreCursorPosition @ term_WrapOn"
    using log by (simp add: getStat_def statToString_def Let_def body_def start_def)
  ultimately show ?thesis
    using k by (intro exI [of _ body]) (simp add: term_ClearLine_def add.commute)
qed

subsection \<open>Properties\<close>

text \<open>A connector with channels to \<open>a\<close> and \<open>b\<close>, and a packet to \<open>a\<close> that waits for its acknowledgement.\<close>

definition two_channels :: tru where
  "two_channels =
     snd (newChannel sample_tenv ''b'' False
       (snd (tru_channel_WriteTo plain_crypto (\<lambda>_. sample_wenv) 0 [1] [] sample_tru1)))"

lemma two_channels_ok: "tru_ok two_channels"
proof -
  let ?t = "snd (tru_channel_WriteTo plain_crypto (\<lambda>_. sample_wenv) 0 [1] [] sample_tru1)"
  have "tru_ok ?t"
    using tru_channel_WriteTo_ok [OF sample_tru1_ok(1), of 0] evolvesD(1) by (simp add: sample_tru1_ok(2)) blast
  moreover obtain res where "newChannel sample_tenv ''b'' False ?t = (res, two_channels)"
    unfolding two_channels_def by (metis prod.collapse)
  ultimately show ?thesis
    using evolvesD(1) [OF evolves_new [OF evolves_refl]] by blast
qed

text \<open>
  C40: The statistics of a well-formed connector. They list each connected address exactly once,
  in increasing order of the addresses. Each goroutine that adds the values of a send queue has
  the slice of its turn, so it reaches the listing only when no later append has moved the
  elements: the listing is that of the closed form, in which the channels before the last
  allocation have no queue length and no attempts. Where the first array has room for one
  element, which is Go's, that is the first of any two or more channels, whatever waits in its
  queue. All other values do not depend on the order in which the map is read.
\<close>

lemma statistic_listing:
  fixes tru :: tru and grow :: "nat \<Rightarrow> nat"
  assumes "tru_ok tru" "mset m = mset (t_channels tru)"
  defines "chs \<equiv> map (\<lambda>(a, r). get_ch tru r) (t_channels tru)" and "stat \<equiv> tru_Statistic grow tru"
  shows "stat = sort_key cs_Addr (map (listed grow chs) [0..<length chs]) \<and>
     (grow 0 = 1 \<and> 1 < length chs \<longrightarrow> (\<exists>e\<in>set stat. cs_Addr e = fst (hd (t_channels tru)) \<and> cs_SQ e = 0 \<and> cs_RTA e = 0)) \<and>
     sorted (map cs_Addr stat) \<and> distinct (map cs_Addr stat) \<and> set (map cs_Addr stat) = dom (gm_get (t_channels tru)) \<and>
     map forget_queue (tru_Statistic grow (tru\<lparr>t_channels := m\<rparr>)) = map forget_queue stat"
proof -
  have "\<exists>e\<in>set stat. cs_Addr e = fst (hd (t_channels tru)) \<and> cs_SQ e = 0 \<and> cs_RTA e = 0" if "grow 0 = 1" "1 < length chs"
  proof (intro bexI conjI)
    have "listed grow chs 0 = channel_statistic (chs ! 0)"
      using last_alloc_first [of grow "length chs"] that by (simp add: listed_def)
    moreover have "map cs_Addr (map channel_statistic chs) = map fst (t_channels tru)"
      using Statistic_addresses [OF assms(1)] by (simp add: chs_def case_prod_unfold comp_def)
    then have "c_addr (chs ! 0) = fst (hd (t_channels tru))"
      using that(2) by (cases "t_channels tru") (simp_all add: chs_def channel_statistic_def)
    ultimately show "cs_Addr (listed grow chs 0) = fst (hd (t_channels tru))" "cs_SQ (listed grow chs 0) = 0" "cs_RTA (listed grow chs 0) = 0"
      by (simp_all add: channel_statistic_def)
    show "listed grow chs 0 \<in> set stat"
      unfolding stat_def tru_Statistic_eq chs_def [symmetric] using that(2) by (simp add: image_iff) (intro bexI [of _ 0]; auto)
  qed
  then show ?thesis
    using Statistic_order [OF assms(1,2)] Statistic_sorted [OF assms(1)] tru_Statistic_eq [of grow tru]
    unfolding stat_def chs_def by blast
qed

lemma statistic_listing_witness:
  "(\<exists>e\<in>set (tru_Statistic (\<lambda>n. if n = 0 then 1 else 2 * n) two_channels). cs_Addr e = ''a'' \<and> cs_SQ e = 0) \<and>
   sq_len (c_sendQueue (get_ch two_channels 0)) = 1"
proof -
  let ?grow = "\<lambda>n :: nat. if n = 0 then 1 else 2 * n"
  have "fst (hd (t_channels two_channels)) = ''a''" "1 < length (t_channels two_channels)"
    "sq_len (c_sendQueue (get_ch two_channels 0)) = 1"
    by code_simp+
  then show ?thesis
    using statistic_listing [OF two_channels_ok refl, of ?grow] by auto
qed

end
