(* ===== verification/Teolog.thy ===== *)
theory Teolog
  imports Go_Strings
begin

section \<open>The levelled logger (teolog/teolog.go)\<close>

text \<open>
  The logger has eight standard loggers, one for each level above \<open>None\<close>; setting the level
  connects the first ones to the filtering writer and the others to nothing.  A log level is an
  \<open>int\<close>, as in the program, and may be any value.
\<close>

type_synonym LogLevel = int

abbreviation LNone :: LogLevel where "LNone \<equiv> 0"
abbreviation LError :: LogLevel where "LError \<equiv> 1"
abbreviation LUser :: LogLevel where "LUser \<equiv> 2"
abbreviation LInfo :: LogLevel where "LInfo \<equiv> 3"
abbreviation LConnect :: LogLevel where "LConnect \<equiv> 4"
abbreviation LDebug :: LogLevel where "LDebug \<equiv> 5"
abbreviation LDebugv :: LogLevel where "LDebugv \<equiv> 6"
abbreviation LDebugvv :: LogLevel where "LDebugvv \<equiv> 7"
abbreviation LDebugvvv :: LogLevel where "LDebugvvv \<equiv> 8"
abbreviation numLevels :: LogLevel where "numLevels \<equiv> 9"

record teolog =
  tl_outputs :: "bool list"
  tl_flags :: "int list"
  tl_level :: LogLevel
  tl_filter :: "string list"

text \<open>\<open>LstdFlags | Lmsgprefix | Lshortfile | Lmicroseconds\<close>, and everything discarded.\<close>

definition teolog_New :: teolog where
  "teolog_New =
     \<lparr>tl_outputs = replicate 8 False, tl_flags = replicate 8 87, tl_level = 0, tl_filter = []\<rparr>"

definition tl_SetFlags :: "int \<Rightarrow> teolog \<Rightarrow> teolog" where
  "tl_SetFlags flag l = l\<lparr>tl_flags := map (\<lambda>_. flag OR 64) (tl_flags l)\<rparr>"

subsection \<open>Levels\<close>

definition levelFromStr :: "string \<Rightarrow> LogLevel" where
  "levelFromStr level =
     (let s = strings_ToLower (strings_TrimSpace level) in
      if s = ''none'' then LNone
      else if s = ''error'' then LError
      else if s = ''user'' then LUser
      else if s = ''info'' then LInfo
      else if s = ''connect'' then LConnect
      else if s = ''debug'' then LDebug
      else if s = ''debugv'' then LDebugv
      else if s = ''debugvv'' then LDebugvv
      else if s = ''debugvvv'' \<or> s = ''all'' then LDebugvvv
      else LNone)"

definition levelToStr :: "LogLevel \<Rightarrow> string" where
  "levelToStr level =
     (if level = LNone then ''None''
      else if level = LError then ''Error''
      else if level = LUser then ''User''
      else if level = LInfo then ''Info''
      else if level = LConnect then ''Connect''
      else if level = LDebug then ''Debug''
      else if level = LDebugv then ''DebugV''
      else if level = LDebugvv then ''DebugVV''
      else if level = LDebugvvv then ''DebugVVV''
      else ''Wrong level'')"

text \<open>\<open>%-10s\<close>, and the list of the levels.\<close>

definition pad_right :: "nat \<Rightarrow> string \<Rightarrow> string" where
  "pad_right n s = s @ replicate (n - length s) CHR '' ''"

definition levelsToStr :: string where
  "levelsToStr =
     [CHR 0x0A] @ '' List of available logger levels:'' @ [CHR 0x0A, CHR 0x0A] @
     concat (map (\<lambda>(n, d). '' '' @ pad_right 10 n @ '' '' @ d @ [CHR 0x0A])
       [(''None'', ''No logs''), (''Error'', ''Errors log''), (''User'', ''User level log''),
        (''Info'', ''Info level''), (''Connect'', ''Connect''), (''Debug'', ''Debug level''),
        (''Debugv'', ''Debugv level''), (''Debugvv'', ''Debugvv level''), (''Debugvvv'', ''Debugvvv level'')])"

text \<open>The argument of \<open>SetLevel\<close> by type; another type sets level \<open>None\<close>.\<close>

datatype level_arg = LvInt int | LvLevel LogLevel | LvString string | LvOther

definition level_of :: "level_arg \<Rightarrow> LogLevel" where
  "level_of v = (case v of LvInt i \<Rightarrow> i | LvLevel l \<Rightarrow> l | LvString s \<Rightarrow> levelFromStr s | LvOther \<Rightarrow> 0)"

definition tl_SetLevel :: "level_arg \<Rightarrow> teolog \<Rightarrow> teolog" where
  "tl_SetLevel v l =
     (let level = level_of v
      in l\<lparr>tl_level := level, tl_outputs := map (\<lambda>i. int i < level) [0..<length (tl_outputs l)]\<rparr>)"

definition tl_Level :: "teolog \<Rightarrow> LogLevel" where
  "tl_Level l = tl_level l"

definition tl_String :: "teolog \<Rightarrow> string" where
  "tl_String l = levelToStr (tl_level l)"

definition tl_SwitchLevel :: "teolog \<Rightarrow> LogLevel \<times> teolog" where
  "tl_SwitchLevel l =
     (let level = tl_level l + 1; level = (if level \<ge> numLevels then 0 else level);
          l = tl_SetLevel (LvLevel level) l
      in (tl_level l, l))"

subsection \<open>Filters and the writer\<close>

definition Logfilter :: "string \<Rightarrow> string list" where
  "Logfilter s = map strings_TrimSpace (strings_Split s ''||'')"

text \<open>The argument of \<open>SetFilter\<close>: another type panics.\<close>

datatype filter_arg = FFilter "string list" | FString string | FOther

definition tl_SetFilter :: "filter_arg \<Rightarrow> teolog \<Rightarrow> go_error + teolog" where
  "tl_SetFilter f l =
     (case f of
        FFilter v \<Rightarrow> Inr (l\<lparr>tl_filter := v\<rparr>)
      | FString v \<Rightarrow> Inr (l\<lparr>tl_filter := Logfilter v\<rparr>)
      | FOther \<Rightarrow> Inl ErrPanic)"

definition tl_ClearFilter :: "teolog \<Rightarrow> teolog" where
  "tl_ClearFilter l = l\<lparr>tl_filter := []\<rparr>"

definition tl_Filter :: "teolog \<Rightarrow> string" where
  "tl_Filter l =
     fold (\<lambda>i str. (if i > 0 then str @ '' || '' else str) @ tl_filter l ! i) [0..<length (tl_filter l)] []"

text \<open>\<open>Write\<close>: the number it returns and what goes to the standard output.\<close>

definition tl_Write :: "teolog \<Rightarrow> string \<Rightarrow> nat \<times> string" where
  "tl_Write l p =
     (let valid = list_ex (\<lambda>f. strings_Contains p f) (tl_filter l)
      in if length (tl_filter l) > 0 \<and> \<not> valid then (0, []) else (length p, p))"

text \<open>A line of the \<open>i\<close>-th logger, from \<open>Error\<close> up.\<close>

definition tl_Output :: "teolog \<Rightarrow> nat \<Rightarrow> string \<Rightarrow> string" where
  "tl_Output l i line = (if tl_outputs l ! i then snd (tl_Write l line) else [])"

subsection \<open>Lemmas\<close>

definition teolog_ok :: "teolog \<Rightarrow> bool" where
  "teolog_ok l \<longleftrightarrow> length (tl_outputs l) = 8 \<and> (\<forall>i<8. tl_outputs l ! i \<longleftrightarrow> int i < tl_level l)"

lemma teolog_ok_New: "teolog_ok teolog_New"
  by (simp add: teolog_ok_def teolog_New_def)

lemma teolog_ok_SetLevel: "length (tl_outputs l) = 8 \<Longrightarrow> teolog_ok (tl_SetLevel v l)"
  by (simp add: teolog_ok_def tl_SetLevel_def Let_def)

lemma tl_level_SetLevel [simp]: "tl_level (tl_SetLevel v l) = level_of v"
  by (simp add: tl_SetLevel_def Let_def)

lemma tl_filter_SetLevel [simp]: "tl_filter (tl_SetLevel v l) = tl_filter l"
  by (simp add: tl_SetLevel_def Let_def)

definition next_level :: "LogLevel \<Rightarrow> LogLevel" where
  "next_level l = (if l + 1 \<ge> numLevels then 0 else l + 1)"

lemma SwitchLevel_level: "tl_level (snd (tl_SwitchLevel l)) = next_level (tl_level l)"
  by (simp add: tl_SwitchLevel_def Let_def next_level_def level_of_def)

lemma levels_range: "0 \<le> l \<Longrightarrow> l < numLevels \<Longrightarrow> l \<in> set [0, 1, 2, 3, 4, 5, 6, 7, 8]"
  by auto

lemma levels_roundtrip: "list_all (\<lambda>l. levelFromStr (levelToStr l) = l) [0, 1, 2, 3, 4, 5, 6, 7, 8]"
  by code_simp

lemma levelFromStr_toStr: "0 \<le> l \<Longrightarrow> l < numLevels \<Longrightarrow> levelFromStr (levelToStr l) = l"
  using levels_roundtrip levels_range unfolding list_all_iff by blast

lemma levelFromStr_range: "0 \<le> levelFromStr s \<and> levelFromStr s < numLevels"
  by (simp add: levelFromStr_def Let_def)

lemma trim_space_front: "strings_TrimSpace ('' '' @ s) = strings_TrimSpace s"
  by (simp add: strings_TrimSpace_def is_space_def)

lemma trim_space_back: "strings_TrimSpace (s @ '' '') = strings_TrimSpace s"
proof (cases "\<forall>c\<in>set s. is_space c")
  case True
  moreover have "is_space CHR '' ''" by (simp add: is_space_def)
  ultimately have d: "dropWhile is_space s = []" "dropWhile is_space (s @ '' '') = []"
    unfolding dropWhile_eq_Nil_conv by simp_all
  show ?thesis unfolding strings_TrimSpace_def d by simp
next
  case False
  then have "dropWhile is_space (s @ '' '') = dropWhile is_space s @ '' ''"
    by (auto simp: dropWhile_append)
  then show ?thesis by (simp add: strings_TrimSpace_def is_space_def)
qed

lemma no_bars_run:
  assumes "\<not> sublist ''||'' x" "i < length x" "last x \<noteq> CHR ''|'' \<or> t = []"
  shows "\<not> prefix ''||'' (drop i x @ t)"
proof
  assume p: "prefix ''||'' (drop i x @ t)"
  show False
  proof (cases "length (drop i x) \<ge> 2")
    case True
    then obtain a b r where "drop i x = a # b # r"
      by (metis One_nat_def Suc_1 Suc_le_length_iff)
    then have "prefix ''||'' (drop i x)"
      using p by auto
    then have "sublist ''||'' x"
      by (meson prefix_imp_sublist sublist_drop sublist_order.order_trans)
    with assms(1) show False by simp
  next
    case False
    then have "Suc i = length x" using assms(2) by simp
    then have "drop i x = [last x]"
      by (metis assms(2) append_butlast_last_id append_eq_conv_conj diff_Suc_1 length_butlast list.size(3) not_less_zero)
    with p assms(3) show False by auto
  qed
qed

lemma split_bars:
  assumes "\<not> sublist ''||'' x" "\<forall>y\<in>set ys. \<not> sublist ''||'' y"
  shows "map strings_TrimSpace (strings_Split (x @ concat (map (\<lambda>y. '' || '' @ y) ys)) ''||'') =
     map strings_TrimSpace (x # ys)"
  using assms
proof (induction ys arbitrary: x)
  case Nil
  have "split_go ''||'' [] (x @ []) = split_go ''||'' ([] @ x) []"
    using no_bars_run [OF Nil.prems(1), of _ "[]"] by (intro split_go_run) simp_all
  then show ?case by (simp add: split_go.simps)
next
  case (Cons y ys)
  let ?rest = "('' '' @ y) @ concat (map (\<lambda>y. '' || '' @ y) ys)"
  have no: "\<not> sublist ''||'' (x @ '' '')" "\<not> sublist ''||'' ('' '' @ y)"
    using Cons.prems by (auto simp: sublist_append Cons_eq_append_conv suffix_def sublist_Cons_right)
  have "split_go ''||'' [] ((x @ '' '') @ ''||'' @ ?rest) = split_go ''||'' ([] @ (x @ '' '')) (''||'' @ ?rest)"
    using no_bars_run [OF no(1)] by (intro split_go_run) auto
  also have "\<dots> = (x @ '' '') # split_go ''||'' [] ?rest"
    using split_go_sep [of "''||''" "x @ '' ''" ?rest] by simp
  finally have "strings_Split (x @ concat (map (\<lambda>y. '' || '' @ y) (y # ys))) ''||'' = (x @ '' '') # split_go ''||'' [] ?rest"
    by simp
  moreover have "map strings_TrimSpace (split_go ''||'' [] ?rest) = map strings_TrimSpace (('' '' @ y) # ys)"
    using Cons.prems no(2) by (intro Cons.IH) simp_all
  ultimately show ?case
    using trim_space_back [of x] trim_space_front [of y] by simp
qed

lemma fold_join:
  "fold (\<lambda>i str. (if i > 0 then str @ sep else str) @ f ! i) [0..<length f] [] =
     (case f of [] \<Rightarrow> [] | x # xs \<Rightarrow> x @ concat (map (\<lambda>y. sep @ y) xs))"
proof (induction f rule: rev_induct)
  case (snoc y ys)
  have "fold (\<lambda>i str. (if i > 0 then str @ sep else str) @ (ys @ [y]) ! i) [0..<length ys] [] =
      fold (\<lambda>i str. (if i > 0 then str @ sep else str) @ ys ! i) [0..<length ys] []"
    by (rule fold_cong) (auto simp: nth_append)
  then show ?case
    using snoc by (cases ys) simp_all
qed simp

lemma Filter_Logfilter:
  assumes "f \<noteq> []" "\<forall>x\<in>set f. trimmed x \<and> \<not> sublist ''||'' x"
  shows "Logfilter (tl_Filter (l\<lparr>tl_filter := f\<rparr>)) = f"
proof -
  obtain x xs where f: "f = x # xs" using assms(1) by (cases f) auto
  have "map strings_TrimSpace f = f"
    using assms(2) by (intro map_idI) simp
  moreover have "tl_Filter (l\<lparr>tl_filter := f\<rparr>) = x @ concat (map (\<lambda>y. '' || '' @ y) xs)"
  proof -
    have tl: "tl_filter (l\<lparr>tl_filter := f\<rparr>) = f" by simp
    show ?thesis
      unfolding tl_Filter_def tl using fold_join [where f = f and sep = "'' || ''"] by (simp only: f list.case)
  qed
  moreover have "map strings_TrimSpace (strings_Split (x @ concat (map (\<lambda>y. '' || '' @ y) xs)) ''||'') = map strings_TrimSpace f"
    unfolding f using assms(2) by (intro split_bars) (simp_all add: f)
  ultimately show ?thesis
    unfolding Logfilter_def by metis
qed

subsection \<open>Properties\<close>

text \<open>
  The log levels. After the level is set, the i-th logger writes a line exactly when i is below
  the level and the filter is empty or one of its texts is contained in the line; each level's
  name, in any of the spellings printed, parses back to the level; and switching goes through
  the nine levels in a circle.
\<close>

lemma log_levels:
  assumes "length (tl_outputs l) = 8" "i < 8" "0 \<le> lev" "lev < numLevels"
  shows "tl_Output (tl_SetLevel (LvString (levelToStr lev)) l) i line =
       (if int i < lev \<and> (tl_filter l = [] \<or> (\<exists>f\<in>set (tl_filter l). sublist f line)) then line else []) \<and>
     tl_level (snd (tl_SwitchLevel (tl_SetLevel (LvLevel lev) l))) = (lev + 1) mod numLevels"
proof -
  have lev: "levelFromStr (levelToStr lev) = lev"
    by (rule levelFromStr_toStr [OF assms(3,4)])
  have "tl_outputs (tl_SetLevel (LvString (levelToStr lev)) l) ! i \<longleftrightarrow> int i < lev"
    using teolog_ok_SetLevel [OF assms(1), of "LvString (levelToStr lev)"] assms(2) lev
    by (simp add: teolog_ok_def level_of_def)
  moreover have "next_level lev = (lev + 1) mod numLevels"
    using assms(3,4) by (cases "lev + 1 = numLevels") (auto simp: next_level_def)
  ultimately show ?thesis
    by (auto simp: tl_Output_def tl_Write_def Let_def list_ex_iff strings_Contains_iff SwitchLevel_level level_of_def)
qed

text \<open>
  The log filter. A filter of texts without surrounding spaces and without the separator is
  parsed back from the text that shows it, in order.
\<close>

lemma filter_text:
  assumes "f \<noteq> []" "\<forall>x\<in>set f. trimmed x \<and> \<not> sublist ''||'' x"
  shows "tl_SetFilter (FString (tl_Filter (l\<lparr>tl_filter := f\<rparr>))) l = Inr (l\<lparr>tl_filter := f\<rparr>)"
  using Filter_Logfilter [OF assms] by (simp add: tl_SetFilter_def)


end
