(* ===== verification/Hotkey.thy ===== *)
theory Hotkey
  imports System Teolog Term "HOL-Library.Char_ord" "HOL-Library.List_Lexorder" "HOL-Library.Multiset"
begin

section \<open>Hotkey menus (hotkey/hotkey.go, hotkey.go)\<close>

text \<open>
  A menu maps key codes to shared entries (a reference is an index into the list of the entries
  added), and calls back into the application.  A callback is a token of type \<open>'a\<close>; what it does to
  the menu and to the application's state is an argument of \<open>run_key\<close>.  The second part is the
  connector's own menu, whose callbacks are written out.
\<close>

record keyCode =
  kc_Code :: string
  kc_Name :: string

definition kc_name :: "keyCode \<Rightarrow> string" where
  "kc_name k = (if length (kc_Name k) > 0 then kc_Name k else kc_Code k)"

record 'a hotkeyData =
  hd_keys :: "keyCode list"
  hd_description :: string
  hd_action :: "'a option"

datatype 'a unknown = DefUnknownKey | UserUnknown 'a

record 'a hotkey =
  hk_data :: "'a hotkeyData list"
  hk_hotkeys :: "(string, nat) gomap"
  hk_unknownKey :: "'a unknown option"
  hk_nextKeyAction :: "'a option"
  hk_stop :: bool
  hk_stopactions :: "'a list"

definition hotkey_New :: "'a hotkey" where
  "hotkey_New =
     \<lparr>hk_data = [], hk_hotkeys = [], hk_unknownKey = Some DefUnknownKey, hk_nextKeyAction = None,
      hk_stop = False, hk_stopactions = []\<rparr>"

definition hk_NextKeyAction :: "'a option \<Rightarrow> 'a hotkey \<Rightarrow> 'a hotkey" where
  "hk_NextKeyAction f h = h\<lparr>hk_nextKeyAction := f\<rparr>"

text \<open>The key argument of \<open>Add\<close> by type; any other type panics.\<close>

datatype keys_arg =
    KBytes string | KString string | KStrings "string list" | KCode keyCode | KCodes "keyCode list" | KOther

definition hk_Add :: "keys_arg \<Rightarrow> string \<Rightarrow> 'a option \<Rightarrow> 'a hotkey \<Rightarrow> go_error + 'a hotkey" where
  "hk_Add keys description action h =
     (case (case keys of
              KBytes v \<Rightarrow> Some [\<lparr>kc_Code = v, kc_Name = []\<rparr>]
            | KString v \<Rightarrow> Some [\<lparr>kc_Code = v, kc_Name = []\<rparr>]
            | KStrings vs \<Rightarrow> Some (map (\<lambda>v. \<lparr>kc_Code = v, kc_Name = []\<rparr>) vs)
            | KCode v \<Rightarrow> Some [v]
            | KCodes vs \<Rightarrow> Some vs
            | KOther \<Rightarrow> None) of
        None \<Rightarrow> Inl ErrPanic
      | Some keysAr \<Rightarrow>
          (let r = length (hk_data h);
               e = \<lparr>hd_keys = keysAr, hd_description = description, hd_action = action\<rparr>
           in Inr (h\<lparr>hk_data := hk_data h @ [e],
                     hk_hotkeys := fold (\<lambda>l m. gm_set (kc_Code l) r m) keysAr (hk_hotkeys h)\<rparr>)))"

definition hk_AddUnknown :: "'a option \<Rightarrow> 'a hotkey \<Rightarrow> 'a hotkey" where
  "hk_AddUnknown f h = h\<lparr>hk_unknownKey := map_option UserUnknown f\<rparr>"

definition hk_SetStopAction :: "'a \<Rightarrow> 'a hotkey \<Rightarrow> 'a hotkey" where
  "hk_SetStopAction f h = h\<lparr>hk_stopactions := hk_stopactions h @ [f]\<rparr>"

subsection \<open>The help text\<close>

text \<open>\<open>add\<close> of the entries in the map's iteration order, the sort by first name, and the lines.\<close>

definition hk_entries :: "'a hotkey \<Rightarrow> nat list" where
  "hk_entries h = fold (\<lambda>i ar. if snd i \<in> set ar then ar else ar @ [snd i]) (hk_hotkeys h) []"

definition hk_first_name :: "'a hotkey \<Rightarrow> nat \<Rightarrow> string" where
  "hk_first_name h r = kc_name (hd_keys (hk_data h ! r) ! 0)"

definition hk_line :: "'a hotkeyData \<Rightarrow> string" where
  "hk_line e =
     (let keys = (if length (hd_keys e) > 1
                  then ''['' @ strings_Join (map kc_name (hd_keys e)) '' '' @ '']''
                  else kc_name (hd_keys e ! 0))
      in ''   '' @ pad_right 10 keys @ '' '' @ hd_description e @ [CHR 0x0A])"

definition hk_String :: "'a hotkey \<Rightarrow> string" where
  "hk_String h = concat (map (\<lambda>r. hk_line (hk_data h ! r)) (sort_key (hk_first_name h) (hk_entries h)))"

subsection \<open>Running a menu\<close>

text \<open>\<open>act f key\<close> is the effect of the callback \<open>f\<close> on the menu and the application's state.\<close>

type_synonym ('a, 'w) actions = "'a \<Rightarrow> string \<Rightarrow> 'a hotkey \<times> 'w \<Rightarrow> 'a hotkey \<times> 'w"

definition hk_Stop :: "('a, 'w) actions \<Rightarrow> 'a hotkey \<times> 'w \<Rightarrow> 'a hotkey \<times> 'w" where
  "hk_Stop act st =
     (let (h, w) = fold (\<lambda>f st. act f [] st) (hk_stopactions (fst st)) st in (h\<lparr>hk_stop := True\<rparr>, w))"

text \<open>One turn of the loop of \<open>run\<close>, on the key that \<open>Getch\<close> gave.\<close>

definition run_key :: "('a, 'w) actions \<Rightarrow> string \<Rightarrow> 'a hotkey \<times> 'w \<Rightarrow> 'a hotkey \<times> 'w" where
  "run_key act ch st =
     (let st = (case hk_nextKeyAction (fst st) of
                  None \<Rightarrow> st
                | Some f \<Rightarrow> (let (h, w) = act f ch st in (h\<lparr>hk_nextKeyAction := None\<rparr>, w)))
      in case gm_get (hk_hotkeys (fst st)) ch of
           None \<Rightarrow> (case hk_unknownKey (fst st) of Some (UserUnknown f) \<Rightarrow> act f ch st | _ \<Rightarrow> st)
         | Some r \<Rightarrow> (case hd_action (hk_data (fst st) ! r) of None \<Rightarrow> st | Some f \<Rightarrow> act f ch st))"

text \<open>The loop over the keys pressed; the flag says that it has ended.\<close>

fun run_keys :: "('a, 'w) actions \<Rightarrow> string list \<Rightarrow> 'a hotkey \<times> 'w \<Rightarrow> bool \<times> 'a hotkey \<times> 'w" where
  "run_keys act chs st =
     (if hk_stop (fst st) then (True, (fst st)\<lparr>hk_stop := False\<rparr>, snd st)
      else case chs of [] \<Rightarrow> (False, st) | ch # chs \<Rightarrow> run_keys act chs (run_key act ch st))"

declare run_keys.simps [simp del]

subsection \<open>The connector's menu (hotkey.go)\<close>

datatype menu_action =
    MUnknown | MEnter | MHelp | MStat | MMinilog | MSwitch | MLevel | MSetLevel | MSetFilter
  | MStop | MQuit | MRestore

text \<open>
  The application's state under the menu: the logger, the saved level, the connector, the lines
  still to be typed on the standard input, and whether the process has exited.
\<close>

record menu =
  mn_log :: teolog
  mn_level :: LogLevel
  mn_tru :: tru
  mn_input :: "string list"
  mn_exit :: bool

type_synonym menu_state = "menu_action hotkey \<times> menu"

definition stopLog :: "menu_state \<Rightarrow> menu_state" where
  "stopLog st =
     (case st of (h, w) \<Rightarrow>
       (hk_NextKeyAction (Some MRestore) h,
        w\<lparr>mn_level := tl_Level (mn_log w), mn_log := tl_SetLevel (LvInt 0) (mn_log w)\<rparr>))"

definition restoreLog :: "menu_state \<Rightarrow> menu_state" where
  "restoreLog st = (case st of (h, w) \<Rightarrow> (h, w\<lparr>mn_log := tl_SetLevel (LvLevel (mn_level w)) (mn_log w)\<rparr>))"

definition continueLog :: "menu_state \<Rightarrow> menu_state" where
  "continueLog st = (case st of (h, w) \<Rightarrow> (hk_NextKeyAction None h, w))"

text \<open>\<open>reader.ReadString\<close> on the standard input.\<close>

definition read_line :: "menu_state \<Rightarrow> string \<times> menu_state" where
  "read_line st =
     (case st of (h, w) \<Rightarrow>
       (case mn_input w of [] \<Rightarrow> ([], st) | l # ls \<Rightarrow> (l, h, w\<lparr>mn_input := ls\<rparr>)))"

text \<open>The callbacks; what they print is left out.\<close>

definition menu_act :: "crypto \<Rightarrow> tenv \<Rightarrow> (menu_action, menu) actions" where
  "menu_act L env a ch st =
     (case a of
        MUnknown \<Rightarrow> st
      | MEnter \<Rightarrow> st
      | MHelp \<Rightarrow> stopLog st
      | MStat \<Rightarrow>
          (case st of (h, w) \<Rightarrow>
            (h, w\<lparr>mn_tru := (if \<not> StatisticPrintRunning (mn_tru w) then StatisticPrint (te_now env) (mn_tru w)
                              else StatisticPrintStop (mn_tru w))\<rparr>))
      | MMinilog \<Rightarrow> (case st of (h, w) \<Rightarrow> (h, w\<lparr>mn_tru := snd (StatisticMinilog (mn_tru w))\<rparr>))
      | MSwitch \<Rightarrow> (case st of (h, w) \<Rightarrow> (h, w\<lparr>mn_log := snd (tl_SwitchLevel (mn_log w))\<rparr>))
      | MLevel \<Rightarrow> stopLog st
      | MSetLevel \<Rightarrow>
          (case read_line (stopLog st) of
             (text, h, w) \<Rightarrow> continueLog (h, w\<lparr>mn_log := tl_SetLevel (LvString text) (mn_log w)\<rparr>))
      | MSetFilter \<Rightarrow>
          (case read_line (stopLog st) of
             (text, h, w) \<Rightarrow>
               restoreLog (h, case tl_SetFilter (FString text) (mn_log w) of
                                Inl e \<Rightarrow> w | Inr l \<Rightarrow> w\<lparr>mn_log := l\<rparr>))
      | MStop \<Rightarrow> (case st of (h, w) \<Rightarrow> (h\<lparr>hk_stop := True\<rparr>, w))
      | MQuit \<Rightarrow>
          (case st of (h, w) \<Rightarrow>
            (h\<lparr>hk_stop := True\<rparr>, w\<lparr>mn_tru := tru_Close L env (mn_tru w), mn_exit := True\<rparr>))
      | MRestore \<Rightarrow> restoreLog st)"

definition menu_items :: "(keys_arg \<times> string \<times> menu_action) list" where
  "menu_items =
     [(KBytes [CHR 0x0D], [], MEnter),
      (KStrings [''h'', ''?''], ''show this help screen'', MHelp),
      (KString ''u'', ''show/hide tru statistic'', MStat),
      (KString ''U'', ''show/hide tru statistic minilog'', MMinilog),
      (KString ''l'', ''switch logger level'', MSwitch),
      (KString ''L'', ''print current logger level'', MLevel),
      (KCode \<lparr>kc_Code = [CHR 0x0C], kc_Name = ''Ctrl+L''\<rparr>, ''set new logger level'', MSetLevel),
      (KString ''f'', ''set logger filter'', MSetFilter),
      (KCode \<lparr>kc_Code = map (\<lambda>b. char_of (unat b)) key_CtrlC, kc_Name = ''Ctrl+C''\<rparr>, ''stop this hotkey menu'', MStop),
      (KString ''q'', ''quit from application'', MQuit)]"

definition newHotkey :: "go_error + menu_action hotkey" where
  "newHotkey =
     fold (\<lambda>(k, d, a) r. case r of Inl e \<Rightarrow> Inl e | Inr h \<Rightarrow> hk_Add k d (Some a) h) menu_items
       (Inr (hk_AddUnknown (Some MUnknown) hotkey_New))"

subsection \<open>Lemmas\<close>

text \<open>\<open>Add\<close> binds its keys to the new entry and leaves the others.\<close>

lemma fold_gm_set:
  "gm_get (fold (\<lambda>l m. gm_set (f l) r m) ks m) x = (if x \<in> f ` set ks then Some r else gm_get m x)"
  by (induction ks arbitrary: m) auto

definition keys_of :: "keys_arg \<Rightarrow> keyCode list" where
  "keys_of keys =
     (case keys of
        KBytes v \<Rightarrow> [\<lparr>kc_Code = v, kc_Name = []\<rparr>] | KString v \<Rightarrow> [\<lparr>kc_Code = v, kc_Name = []\<rparr>]
      | KStrings vs \<Rightarrow> map (\<lambda>v. \<lparr>kc_Code = v, kc_Name = []\<rparr>) vs | KCode v \<Rightarrow> [v] | KCodes vs \<Rightarrow> vs | KOther \<Rightarrow> [])"

definition hk_ok :: "'a hotkey \<Rightarrow> bool" where
  "hk_ok h \<longleftrightarrow> (\<forall>k r. gm_get (hk_hotkeys h) k = Some r \<longrightarrow>
     r < length (hk_data h) \<and> k \<in> kc_Code ` set (hd_keys (hk_data h ! r)))"

lemma hk_ok_New: "hk_ok hotkey_New"
  by (simp add: hk_ok_def hotkey_New_def)

lemma hk_Add_ok:
  assumes "hk_ok h" "hk_Add keys d a h = Inr h'"
  shows "hk_ok h'"
    "gm_get (hk_hotkeys h') k =
       (if k \<in> kc_Code ` set (keys_of keys) then Some (length (hk_data h)) else gm_get (hk_hotkeys h) k)"
    "hk_data h' = hk_data h @ [\<lparr>hd_keys = keys_of keys, hd_description = d, hd_action = a\<rparr>]"
proof -
  have h': "h' = h\<lparr>hk_data := hk_data h @ [\<lparr>hd_keys = keys_of keys, hd_description = d, hd_action = a\<rparr>],
      hk_hotkeys := fold (\<lambda>l m. gm_set (kc_Code l) (length (hk_data h)) m) (keys_of keys) (hk_hotkeys h)\<rparr>"
    using assms(2) by (cases keys) (auto simp: hk_Add_def keys_of_def Let_def)
  show "hk_ok h'"
    using assms(1) by (auto simp: h' hk_ok_def fold_gm_set nth_append intro: less_SucI)
  show "gm_get (hk_hotkeys h') k =
      (if k \<in> kc_Code ` set (keys_of keys) then Some (length (hk_data h)) else gm_get (hk_hotkeys h) k)"
    by (simp add: h' fold_gm_set)
  show "hk_data h' = hk_data h @ [\<lparr>hd_keys = keys_of keys, hd_description = d, hd_action = a\<rparr>]"
    by (simp add: h')
qed

text \<open>The help text does not depend on the order in which the map is read.\<close>

lemma hk_entries_fold:
  "distinct ar \<Longrightarrow>
   distinct (fold (\<lambda>i ar. if snd i \<in> set ar then ar else ar @ [snd i]) m ar) \<and>
   set (fold (\<lambda>i ar. if snd i \<in> set ar then ar else ar @ [snd i]) m ar) = set ar \<union> snd ` set m"
proof (induction m arbitrary: ar)
  case (Cons x m)
  then show ?case
    using Cons.IH [of "if snd x \<in> set ar then ar else ar @ [snd x]"] by (auto split: if_splits)
qed simp

lemma hk_entries_set: "distinct (hk_entries h)" "set (hk_entries h) = snd ` set (hk_hotkeys h)"
  using hk_entries_fold [of "[]" "hk_hotkeys h"] by (simp_all add: hk_entries_def)

lemma hk_String_order:
  assumes "set (hk_hotkeys h') = set (hk_hotkeys h)" "hk_data h' = hk_data h"
    and inj: "inj_on (hk_first_name h) (snd ` set (hk_hotkeys h))"
  shows "hk_String h' = hk_String h"
proof -
  have name: "hk_first_name h' = hk_first_name h"
    by (simp add: hk_first_name_def [abs_def] assms(2))
  have "mset (hk_entries h') = mset (hk_entries h)"
    using hk_entries_set [of h] hk_entries_set [of h'] assms(1)
    by (simp add: set_eq_iff_mset_eq_distinct [symmetric])
  then have "sort_key (hk_first_name h) (hk_entries h') = sort_key (hk_first_name h) (hk_entries h)"
    using inj hk_entries_set [of h] hk_entries_set [of h'] assms(1)
    by (intro sort_key_inj_key_eq) simp_all
  then show ?thesis
    by (simp add: hk_String_def name assms(2))
qed

subsection \<open>The log level under the menu\<close>

text \<open>
  The level that counts: while the log is stopped it is the saved one.  On it the menu is a small
  machine: \<open>l\<close> switches it, Ctrl+L sets it, and every other key leaves it alone, however the keys
  that stop and restore the log interleave.
\<close>

definition effective :: "menu_state \<Rightarrow> LogLevel" where
  "effective st =
     (if hk_nextKeyAction (fst st) = Some MRestore then mn_level (snd st) else tl_level (mn_log (snd st)))"

definition level_step :: "menu_action option \<Rightarrow> string \<Rightarrow> LogLevel \<Rightarrow> LogLevel" where
  "level_step a text l =
     (case a of Some MSwitch \<Rightarrow> next_level l | Some MSetLevel \<Rightarrow> levelFromStr text | _ \<Rightarrow> l)"

definition bound_action :: "menu_action hotkey \<Rightarrow> string \<Rightarrow> menu_action option" where
  "bound_action h ch =
     (case gm_get (hk_hotkeys h) ch of
        None \<Rightarrow> (case hk_unknownKey h of Some (UserUnknown f) \<Rightarrow> Some f | _ \<Rightarrow> None)
      | Some r \<Rightarrow> hd_action (hk_data h ! r))"

definition typed :: "menu \<Rightarrow> string" where
  "typed w = (case mn_input w of [] \<Rightarrow> [] | l # _ \<Rightarrow> l)"

definition menu_ready :: "menu_action hotkey \<Rightarrow> bool" where
  "menu_ready h \<longleftrightarrow> (hk_nextKeyAction h = None \<or> hk_nextKeyAction h = Some MRestore) \<and>
     (\<forall>ch. bound_action h ch \<noteq> Some MRestore)"

lemmas menu_simps = menu_act_def stopLog_def restoreLog_def continueLog_def read_line_def hk_NextKeyAction_def
  effective_def level_step_def typed_def menu_ready_def level_of_def tl_Level_def tl_SetFilter_def

lemma menu_act_effective:
  assumes "hk_nextKeyAction h = None" "a \<noteq> MRestore"
  shows "effective (menu_act L env a ch (h, w)) = level_step (Some a) (typed w) (tl_level (mn_log w))"
  using assms by (cases a; cases "mn_input w") (simp_all add: menu_simps SwitchLevel_level)

lemma bound_action_frame [simp, frame_simps]:
  "bound_action (h\<lparr>hk_nextKeyAction := n\<rparr>) = bound_action h" "bound_action (h\<lparr>hk_stop := b\<rparr>) = bound_action h"
  by (rule ext, simp add: bound_action_def split: option.split)+

lemma menu_act_frame:
  assumes "hk_nextKeyAction h = None" "a \<noteq> MRestore"
  shows "hk_nextKeyAction (fst (menu_act L env a ch (h, w))) \<in> {None, Some MRestore}"
    "bound_action (fst (menu_act L env a ch (h, w))) = bound_action h"
  using assms by (cases a; cases "mn_input w"; simp add: menu_simps)+

text \<open>The pending action is carried out first, and then the key's own.\<close>

definition resume :: "menu_state \<Rightarrow> menu_state" where
  "resume st =
     (case st of (h, w) \<Rightarrow>
       (h\<lparr>hk_nextKeyAction := None\<rparr>,
        if hk_nextKeyAction h = None then w else w\<lparr>mn_log := tl_SetLevel (LvLevel (mn_level w)) (mn_log w)\<rparr>))"

lemma run_key_resume:
  assumes "menu_ready h"
  shows "run_key (menu_act L env) ch (h, w) =
     (case bound_action h ch of None \<Rightarrow> resume (h, w) | Some a \<Rightarrow> menu_act L env a ch (resume (h, w)))"
proof -
  have restore: "menu_act L env MRestore ch st = restoreLog st" for st
    by (simp add: menu_act_def)
  have id: "h\<lparr>hk_nextKeyAction := None\<rparr> = h" if "hk_nextKeyAction h = None"
    using that by (intro hotkey.equality) simp_all
  have "run_key (menu_act L env) ch (h, w) =
     (case bound_action (fst (resume (h, w))) ch of None \<Rightarrow> resume (h, w) | Some a \<Rightarrow> menu_act L env a ch (resume (h, w)))"
    using assms unfolding menu_ready_def
    by (cases "hk_nextKeyAction h")
      (simp_all add: run_key_def resume_def id restore restoreLog_def bound_action_def Let_def split: option.split unknown.split)
  then show ?thesis by (simp add: resume_def)
qed

lemma run_key_effective:
  assumes "menu_ready h"
  shows "effective (run_key (menu_act L env) ch (h, w)) = level_step (bound_action h ch) (typed w) (effective (h, w))"
    and "menu_ready (fst (run_key (menu_act L env) ch (h, w)))"
    and "bound_action (fst (run_key (menu_act L env) ch (h, w))) = bound_action h"
proof -
  obtain h1 w1 where r: "resume (h, w) = (h1, w1)" by fastforce
  have 1: "hk_nextKeyAction h1 = None" "typed w1 = typed w" "tl_level (mn_log w1) = effective (h, w)"
    "bound_action h1 = bound_action h"
    using r assms by (auto simp: resume_def typed_def effective_def menu_ready_def level_of_def)
  have a: "a \<noteq> MRestore" if "bound_action h ch = Some a" for a
    using that assms by (auto simp: menu_ready_def)
  show "effective (run_key (menu_act L env) ch (h, w)) = level_step (bound_action h ch) (typed w) (effective (h, w))"
    using 1 menu_act_effective [OF 1(1) a]
    by (cases "bound_action h ch") (simp_all add: run_key_resume [OF assms] r, simp_all add: effective_def level_step_def)
  show b: "bound_action (fst (run_key (menu_act L env) ch (h, w))) = bound_action h"
    using menu_act_frame(2) [OF 1(1) a] 1(4)
    by (cases "bound_action h ch") (simp_all add: run_key_resume [OF assms] r)
  show "menu_ready (fst (run_key (menu_act L env) ch (h, w)))"
    using menu_act_frame(1) [OF 1(1) a] 1(1) b assms
    by (cases "bound_action h ch") (auto simp: run_key_resume [OF assms] r menu_ready_def)
qed

text \<open>A run of keys: the effective level is that of the small machine, which reads the same lines.\<close>

definition reads_line :: "menu_action option \<Rightarrow> bool" where
  "reads_line a \<longleftrightarrow> a = Some MSetLevel \<or> a = Some MSetFilter"

fun level_run :: "(string \<Rightarrow> menu_action option) \<Rightarrow> string list \<Rightarrow> string list \<Rightarrow> LogLevel \<Rightarrow> LogLevel" where
  "level_run b [] ls l = l"
| "level_run b (ch # chs) ls l =
     level_run b chs (if reads_line (b ch) then tl ls else ls)
       (level_step (b ch) (case ls of [] \<Rightarrow> [] | t # _ \<Rightarrow> t) l)"

lemma menu_act_input:
  "mn_input (snd (menu_act L env a ch (h, w))) = (if reads_line (Some a) then tl (mn_input w) else mn_input w)"
  by (cases a; cases "mn_input w") (simp_all add: menu_simps reads_line_def)

lemma menu_act_stop:
  "a \<noteq> MStop \<Longrightarrow> a \<noteq> MQuit \<Longrightarrow> hk_stop (fst (menu_act L env a ch (h, w))) = hk_stop h"
  by (cases a; cases "mn_input w") (simp_all add: menu_simps)

lemma run_key_input:
  assumes "menu_ready h"
  shows "mn_input (snd (run_key (menu_act L env) ch (h, w))) =
      (if reads_line (bound_action h ch) then tl (mn_input w) else mn_input w)"
    and "bound_action h ch \<noteq> Some MStop \<Longrightarrow> bound_action h ch \<noteq> Some MQuit \<Longrightarrow>
      hk_stop (fst (run_key (menu_act L env) ch (h, w))) = hk_stop h"
proof -
  obtain h1 w1 where r: "resume (h, w) = (h1, w1)" "mn_input w1 = mn_input w" "hk_stop h1 = hk_stop h"
    by (fastforce simp: resume_def)
  show "mn_input (snd (run_key (menu_act L env) ch (h, w))) =
      (if reads_line (bound_action h ch) then tl (mn_input w) else mn_input w)"
    using r by (cases "bound_action h ch") (simp_all add: run_key_resume [OF assms] menu_act_input, simp add: reads_line_def)
  show "hk_stop (fst (run_key (menu_act L env) ch (h, w))) = hk_stop h"
    if "bound_action h ch \<noteq> Some MStop" "bound_action h ch \<noteq> Some MQuit"
    using r that by (cases "bound_action h ch") (simp_all add: run_key_resume [OF assms] menu_act_stop)
qed

lemma run_keys_level:
  assumes "menu_ready h" "\<not> hk_stop h" "\<forall>ch\<in>set chs. bound_action h ch \<noteq> Some MStop \<and> bound_action h ch \<noteq> Some MQuit"
  shows "effective (snd (run_keys (menu_act L env) chs (h, w))) =
     level_run (bound_action h) chs (mn_input w) (effective (h, w))"
  using assms
proof (induction chs arbitrary: h w)
  case Nil
  then show ?case by (simp add: run_keys.simps)
next
  case (Cons ch chs)
  obtain h1 w1 where r: "run_key (menu_act L env) ch (h, w) = (h1, w1)" by fastforce
  have 1: "effective (h1, w1) = level_step (bound_action h ch) (typed w) (effective (h, w))" "menu_ready h1"
    "bound_action h1 = bound_action h" "\<not> hk_stop h1"
    "mn_input w1 = (if reads_line (bound_action h ch) then tl (mn_input w) else mn_input w)"
    using run_key_effective [where L = L and env = env and ch = ch and w = w, OF Cons.prems(1)]
      run_key_input [where L = L and env = env and ch = ch and w = w, OF Cons.prems(1)] Cons.prems(2,3) r
    by simp_all
  have "effective (snd (run_keys (menu_act L env) chs (h1, w1))) =
      level_run (bound_action h1) chs (mn_input w1) (effective (h1, w1))"
    using Cons.prems(3) 1 by (intro Cons.IH) simp_all
  then show ?case
    using Cons.prems(2) 1 by (subst run_keys.simps) (simp add: r typed_def)
qed

text \<open>The menu that \<open>newHotkey\<close> makes.\<close>

definition the_menu :: "menu_action hotkey" where
  "the_menu = (case newHotkey of Inr h \<Rightarrow> h | Inl e \<Rightarrow> hotkey_New)"

lemma newHotkey_menu: "newHotkey = Inr the_menu"
proof -
  obtain h where "newHotkey = Inr h"
    by (simp add: newHotkey_def menu_items_def hk_Add_def Let_def)
  then show ?thesis unfolding the_menu_def by (metis sum.case(2))
qed

definition menu_table :: "(string \<times> menu_action) list" where
  "menu_table =
     [([CHR 0x0D], MEnter), (''h'', MHelp), (''?'', MHelp), (''u'', MStat), (''U'', MMinilog), (''l'', MSwitch),
      (''L'', MLevel), ([CHR 0x0C], MSetLevel), (''f'', MSetFilter), ([CHR 0x03], MStop), (''q'', MQuit)]"

lemma the_menu_state:
  "map (\<lambda>(k, r). (k, hd_action (hk_data the_menu ! r))) (hk_hotkeys the_menu) = map (\<lambda>(k, a). (k, Some a)) menu_table"
  "hk_nextKeyAction the_menu = None" "hk_stop the_menu = False" "hk_unknownKey the_menu = Some (UserUnknown MUnknown)"
  by code_simp+

lemma bound_action_menu:
  "bound_action the_menu ch = (case map_of menu_table ch of None \<Rightarrow> Some MUnknown | Some a \<Rightarrow> Some a)"
proof -
  have "map_option (\<lambda>r. hd_action (hk_data the_menu ! r)) (gm_get (hk_hotkeys the_menu) ch) = map_option Some (map_of menu_table ch)"
    using arg_cong [OF the_menu_state(1), of "\<lambda>xs. map_of xs ch"] by (simp only: map_of_map o_def)
  then show ?thesis
    using the_menu_state(4) by (auto simp: bound_action_def split: option.splits)
qed

lemma the_menu_ready: "menu_ready the_menu"
proof -
  have "a \<noteq> MRestore" if "map_of menu_table ch = Some a" for ch a
    using map_of_SomeD [OF that] by (auto simp: menu_table_def)
  then show ?thesis
    using the_menu_state(2) by (auto simp: menu_ready_def bound_action_menu split: option.splits)
qed

subsection \<open>Properties\<close>

text \<open>
  The hotkey menu and the log level. Keys that show something stop the log until the next key;
  over any sequence of keys without the two that end the menu, the level that counts (the saved
  one while the log is stopped) is that of a machine on which only l (next level) and Ctrl+L
  (the level typed) act.
\<close>

lemma menu_level:
  assumes "newHotkey = Inr h" "\<forall>ch\<in>set chs. ch \<noteq> [CHR 0x03] \<and> ch \<noteq> ''q''"
  shows "effective (snd (run_keys (menu_act L env) chs (h, w))) =
     level_run (\<lambda>ch. case map_of menu_table ch of None \<Rightarrow> Some MUnknown | Some a \<Rightarrow> Some a) chs (mn_input w) (tl_level (mn_log w))"
proof -
  have h: "h = the_menu" using assms(1) newHotkey_menu by (metis sum.inject(2))
  have "map_of menu_table ch \<noteq> Some MStop \<and> map_of menu_table ch \<noteq> Some MQuit" if "ch \<in> set chs" for ch
    using assms(2) that by (auto simp: menu_table_def split: if_splits)
  then have "\<forall>ch\<in>set chs. bound_action the_menu ch \<noteq> Some MStop \<and> bound_action the_menu ch \<noteq> Some MQuit"
    by (auto simp: bound_action_menu split: option.splits)
  then have "effective (snd (run_keys (menu_act L env) chs (h, w))) =
      level_run (bound_action the_menu) chs (mn_input w) (effective (the_menu, w))"
    unfolding h using the_menu_state(3) by (intro run_keys_level [OF the_menu_ready]) simp_all
  moreover have "effective (the_menu, w) = tl_level (mn_log w)"
    using the_menu_state(2) by (simp add: effective_def)
  moreover have "bound_action the_menu = (\<lambda>ch. case map_of menu_table ch of None \<Rightarrow> Some MUnknown | Some a \<Rightarrow> Some a)"
    by (rule ext) (rule bound_action_menu)
  ultimately show ?thesis by simp
qed


end
