(* ===== verification/Tty.thy ===== *)
theory Tty
  imports Term "HOL-Library.Word"
begin

section \<open>Access to the terminal (term/term.go and the files of the platforms)\<close>

text \<open>
  The modes and the size of the terminal on the Unix and Windows platforms, and \<open>Getch\<close>, which waits
  for a key with echo, line editing and signals switched off and puts the terminal back.  The system
  calls of the package \<open>x/sys\<close> are the record \<open>console\<close> over a state of the operating system, and the
  platform's constants are the records \<open>unix_consts\<close> and \<open>windows_consts\<close>.
\<close>

unbundle bit_operations_syntax

subsection \<open>The platform's interface\<close>

text \<open>The terminal's mode as the calls pass it, and what reading the size gives.\<close>

record ('m, 's, 'os, 'e) console =
  con_get :: "int \<Rightarrow> 'os \<Rightarrow> 'e + 'm"
  con_set :: "int \<Rightarrow> 'm \<Rightarrow> 'os \<Rightarrow> 'e option \<times> 'os"
  con_size :: "int \<Rightarrow> 'os \<Rightarrow> 'e + 's"
  con_read :: "nat \<Rightarrow> 'os \<Rightarrow> ('e + bytes) \<times> 'os"

text \<open>The fields of \<open>unix.Termios\<close> that the code sets, and the others.\<close>

record termios =
  tm_Lflag :: u32
  tm_Cc :: "u8 list"
  tm_other :: "u32 list"

record unix_consts =
  ux_ECHO :: u32
  ux_ICANON :: u32
  ux_ISIG :: u32
  ux_VMIN :: nat
  ux_VTIME :: nat

record windows_consts =
  wc_ECHO_INPUT :: u32
  wc_PROCESSED_INPUT :: u32
  wc_LINE_INPUT :: u32
  wc_PROCESSED_OUTPUT :: u32

record winsize =
  ws_Col :: "16 word"
  ws_Row :: "16 word"

record window_rect =
  wr_Left :: "16 word"
  wr_Top :: "16 word"
  wr_Right :: "16 word"
  wr_Bottom :: "16 word"

subsection \<open>term\_unix.go\<close>

definition unix_isTerminal :: "(termios, winsize, 'os, 'e) console \<Rightarrow> int \<Rightarrow> 'os \<Rightarrow> bool" where
  "unix_isTerminal C fd os = (case con_get C fd os of Inl e \<Rightarrow> False | Inr t \<Rightarrow> True)"

definition unix_getSize :: "(termios, winsize, 'os, 'e) console \<Rightarrow> int \<Rightarrow> 'os \<Rightarrow> int \<times> int \<times> 'e option" where
  "unix_getSize C fd os =
     (case con_size C fd os of
        Inl e \<Rightarrow> (-1, -1, Some e)
      | Inr ws \<Rightarrow> (uint (ws_Col ws), uint (ws_Row ws), None))"

definition unix_raw :: "unix_consts \<Rightarrow> termios \<Rightarrow> termios" where
  "unix_raw k t =
     t\<lparr>tm_Lflag := tm_Lflag t AND NOT (ux_ECHO k OR ux_ICANON k OR ux_ISIG k),
       tm_Cc := (tm_Cc t)[ux_VMIN k := 1, ux_VTIME k := 0]\<rparr>"

definition unix_makeNonBlock ::
  "unix_consts \<Rightarrow> (termios, winsize, 'os, 'e) console \<Rightarrow> int \<Rightarrow> 'os \<Rightarrow> ('e + termios) \<times> 'os" where
  "unix_makeNonBlock k C fd os =
     (case con_get C fd os of
        Inl e \<Rightarrow> (Inl e, os)
      | Inr oldState \<Rightarrow>
          (case con_set C fd (unix_raw k oldState) os of
             (Some e, os) \<Rightarrow> (Inl e, os)
           | (None, os) \<Rightarrow> (Inr oldState, os)))"

definition unix_getState :: "(termios, winsize, 'os, 'e) console \<Rightarrow> int \<Rightarrow> 'os \<Rightarrow> 'e + termios" where
  "unix_getState C fd os = con_get C fd os"

definition unix_restoreState :: "(termios, winsize, 'os, 'e) console \<Rightarrow> int \<Rightarrow> termios \<Rightarrow> 'os \<Rightarrow> 'e option \<times> 'os" where
  "unix_restoreState C fd st os = con_set C fd st os"

subsection \<open>term\_windows.go\<close>

definition windows_isTerminal :: "(u32, window_rect, 'os, 'e) console \<Rightarrow> int \<Rightarrow> 'os \<Rightarrow> bool" where
  "windows_isTerminal C fd os = (case con_get C fd os of Inl e \<Rightarrow> False | Inr st \<Rightarrow> True)"

text \<open>The differences are taken in 16 bits and then converted.\<close>

definition windows_getSize :: "(u32, window_rect, 'os, 'e) console \<Rightarrow> int \<Rightarrow> 'os \<Rightarrow> int \<times> int \<times> 'e option" where
  "windows_getSize C fd os =
     (case con_size C fd os of
        Inl e \<Rightarrow> (0, 0, Some e)
      | Inr w \<Rightarrow> (sint (wr_Right w - wr_Left w + 1), sint (wr_Bottom w - wr_Top w + 1), None))"

definition windows_raw :: "windows_consts \<Rightarrow> u32 \<Rightarrow> u32" where
  "windows_raw k st =
     st AND NOT (wc_ECHO_INPUT k OR wc_PROCESSED_INPUT k OR wc_LINE_INPUT k OR wc_PROCESSED_OUTPUT k)"

definition windows_makeNonBlock ::
  "windows_consts \<Rightarrow> (u32, window_rect, 'os, 'e) console \<Rightarrow> int \<Rightarrow> 'os \<Rightarrow> ('e + u32) \<times> 'os" where
  "windows_makeNonBlock k C fd os =
     (case con_get C fd os of
        Inl e \<Rightarrow> (Inl e, os)
      | Inr st \<Rightarrow>
          (case con_set C fd (windows_raw k st) os of
             (Some e, os) \<Rightarrow> (Inl e, os)
           | (None, os) \<Rightarrow> (Inr st, os)))"

definition windows_getState :: "(u32, window_rect, 'os, 'e) console \<Rightarrow> int \<Rightarrow> 'os \<Rightarrow> 'e + u32" where
  "windows_getState C fd os = con_get C fd os"

definition windows_restoreState :: "(u32, window_rect, 'os, 'e) console \<Rightarrow> int \<Rightarrow> u32 \<Rightarrow> 'os \<Rightarrow> 'e option \<times> 'os" where
  "windows_restoreState C fd st os = con_set C fd st os"

subsection \<open>term\_unsupported.go, term\_plan9.go\<close>

text \<open>\<open>arch\<close> is \<open>runtime.GOOS\<close>, a slash and \<open>runtime.GOARCH\<close>; \<open>Fd2path\<close> is the call of the package \<open>plan9\<close>.\<close>

definition not_implemented :: "string \<Rightarrow> string \<Rightarrow> string" where
  "not_implemented f arch = ''terminal: '' @ f @ '' not implemented on '' @ arch"

definition unsupported_isTerminal :: "int \<Rightarrow> bool" where
  "unsupported_isTerminal fd \<longleftrightarrow> False"

definition plan9_isTerminal :: "(int \<Rightarrow> 'e + string) \<Rightarrow> int \<Rightarrow> bool" where
  "plan9_isTerminal Fd2path fd =
     (case Fd2path fd of Inl e \<Rightarrow> False | Inr path \<Rightarrow> path = ''/dev/cons'' \<or> path = ''/mnt/term/dev/cons'')"

definition unsupported_getSize :: "string \<Rightarrow> int \<Rightarrow> int \<times> int \<times> string option" where
  "unsupported_getSize arch fd = (0, 0, Some (not_implemented ''GetSize'' arch))"

definition unsupported_makeNonBlock :: "string \<Rightarrow> int \<Rightarrow> 'os \<Rightarrow> (string + unit) \<times> 'os" where
  "unsupported_makeNonBlock arch fd os = (Inl (not_implemented ''MakeRaw'' arch), os)"

definition unsupported_getState :: "string \<Rightarrow> int \<Rightarrow> 'os \<Rightarrow> string + unit" where
  "unsupported_getState arch fd os = Inl (not_implemented ''GetState'' arch)"

definition unsupported_restoreState :: "string \<Rightarrow> int \<Rightarrow> unit \<Rightarrow> 'os \<Rightarrow> string option \<times> 'os" where
  "unsupported_restoreState arch fd st os = (Some (not_implemented ''Restore'' arch), os)"

text \<open>Plan 9 has no implementation either of what follows its \<open>isTerminal\<close>.\<close>

definition plan9_getSize :: "string \<Rightarrow> int \<Rightarrow> int \<times> int \<times> string option" where
  "plan9_getSize arch fd = (0, 0, Some (not_implemented ''GetSize'' arch))"

definition plan9_makeNonBlock :: "string \<Rightarrow> int \<Rightarrow> 'os \<Rightarrow> (string + unit) \<times> 'os" where
  "plan9_makeNonBlock arch fd os = (Inl (not_implemented ''MakeRaw'' arch), os)"

definition plan9_getState :: "string \<Rightarrow> int \<Rightarrow> 'os \<Rightarrow> string + unit" where
  "plan9_getState arch fd os = Inl (not_implemented ''GetState'' arch)"

definition plan9_restoreState :: "string \<Rightarrow> int \<Rightarrow> unit \<Rightarrow> 'os \<Rightarrow> string option \<times> 'os" where
  "plan9_restoreState arch fd st os = (Some (not_implemented ''Restore'' arch), os)"

subsection \<open>term.go\<close>

datatype getch = GetchPanic | GetchNil | GetchKeys bytes

text \<open>
  \<open>Getch\<close> over the platform's \<open>makeNonBlock\<close> and \<open>restoreState\<close>, on the standard input, descriptor 0.
  The deferred \<open>RestoreState\<close> runs on both returns, and its error is ignored.
\<close>

definition Getch ::
  "(int \<Rightarrow> 'os \<Rightarrow> ('e + 'm) \<times> 'os) \<Rightarrow> (int \<Rightarrow> 'm \<Rightarrow> 'os \<Rightarrow> 'e option \<times> 'os) \<Rightarrow> (nat \<Rightarrow> 'os \<Rightarrow> ('e + bytes) \<times> 'os) \<Rightarrow>
   'os \<Rightarrow> getch \<times> 'os" where
  "Getch makeNonBlock restoreState readStdin os =
     (case makeNonBlock 0 os of
        (Inl e, os) \<Rightarrow> (GetchPanic, os)
      | (Inr oldState, os) \<Rightarrow>
          (let (r, os) = readStdin 3 os
           in (case r of Inl e \<Rightarrow> GetchNil | Inr bs \<Rightarrow> GetchKeys bs, snd (restoreState 0 oldState os))))"

definition Anykey ::
  "(int \<Rightarrow> 'os \<Rightarrow> ('e + 'm) \<times> 'os) \<Rightarrow> (int \<Rightarrow> 'm \<Rightarrow> 'os \<Rightarrow> 'e option \<times> 'os) \<Rightarrow> (nat \<Rightarrow> 'os \<Rightarrow> ('e + bytes) \<times> 'os) \<Rightarrow>
   'os \<Rightarrow> 'os" where
  "Anykey makeNonBlock restoreState readStdin os = snd (Getch makeNonBlock restoreState readStdin os)"

subsection \<open>Lemmas\<close>

text \<open>Without a way to switch the mode \<open>Getch\<close> panics, and so does the key loop of the menu.\<close>

lemma Getch_unsupported:
  "Getch (unsupported_makeNonBlock arch) restore read os = (GetchPanic, os)"
  "Getch (plan9_makeNonBlock arch) restore read os = (GetchPanic, os)"
  by (simp_all add: Getch_def unsupported_makeNonBlock_def plan9_makeNonBlock_def)

text \<open>
  What the system documents: \<open>mode\<close> is the mode of the terminal at a descriptor, if there is one; it is
  what the call to read it gives, the call to set it sets it and nothing of the input, and reading
  leaves it.
\<close>

definition console_laws :: "('m, 's, 'os, 'e) console \<Rightarrow> ('os \<Rightarrow> int \<Rightarrow> 'm option) \<Rightarrow> bool" where
  "console_laws C mode \<longleftrightarrow>
     (\<forall>os fd m. mode os fd = Some m \<longrightarrow> con_get C fd os = Inr m) \<and>
     (\<forall>os fd m m'. mode os fd = Some m \<longrightarrow>
        fst (con_set C fd m' os) = None \<and> mode (snd (con_set C fd m' os)) = (mode os)(fd \<mapsto> m')) \<and>
     (\<forall>os n. mode (snd (con_read C n os)) = mode os)"

lemma and_not_clears: "(x AND NOT m) AND m = 0" for x :: "'a :: len word"
  by (rule bit_word_eqI) (simp add: bit_simps)

lemma and_not_keeps: "k AND m = 0 \<Longrightarrow> (x AND NOT m) AND k = x AND k" for x :: "'a :: len word"
proof (rule bit_word_eqI)
  fix n assume k: "k AND m = 0" "n < LENGTH('a)"
  then have "\<not> (bit k n \<and> bit m n)" by (metis bit_and_iff bit_0_eq bot_apply bot_bool_def)
  then show "bit ((x AND NOT m) AND k) n = bit (x AND k) n"
    using k(2) by (auto simp: bit_simps)
qed

lemma raw_eq:
  "tm_Lflag (unix_raw k t) = tm_Lflag t AND NOT (ux_ECHO k OR ux_ICANON k OR ux_ISIG k)"
  "windows_raw w st = st AND NOT (wc_ECHO_INPUT w OR wc_PROCESSED_INPUT w OR wc_LINE_INPUT w OR wc_PROCESSED_OUTPUT w)"
  by (simp_all add: unix_raw_def windows_raw_def)

text \<open>What a key press does with the terminal, for any way to switch the mode.\<close>

lemma Getch_restores:
  assumes laws: "console_laws C mode" and m: "mode os 0 = Some m"
    and make: "makeNonBlock 0 os = (Inr m, snd (con_set C 0 (raw m) os))"
  shows "Getch makeNonBlock (con_set C) (con_read C) os =
       (case con_read C 3 (snd (con_set C 0 (raw m) os)) of (r, os') \<Rightarrow>
          (case r of Inl e \<Rightarrow> GetchNil | Inr bs \<Rightarrow> GetchKeys bs, snd (con_set C 0 m os')))"
    and "mode (snd (Getch makeNonBlock (con_set C) (con_read C) os)) = mode os"
    and "mode (snd (con_set C 0 (raw m) os)) 0 = Some (raw m)"
proof -
  let ?os1 = "snd (con_set C 0 (raw m) os)"
  obtain r os2 where r: "con_read C 3 ?os1 = (r, os2)" by fastforce
  show run: "Getch makeNonBlock (con_set C) (con_read C) os =
       (case con_read C 3 ?os1 of (r, os') \<Rightarrow>
          (case r of Inl e \<Rightarrow> GetchNil | Inr bs \<Rightarrow> GetchKeys bs, snd (con_set C 0 m os')))"
    by (simp add: Getch_def make r)
  have 1: "mode ?os1 = (mode os)(0 \<mapsto> raw m)" using laws m by (simp add: console_laws_def)
  then show "mode ?os1 0 = Some (raw m)" by simp
  have "mode os2 = mode ?os1" using laws r by (metis console_laws_def snd_conv)
  then have "mode os2 = (mode os)(0 \<mapsto> raw m)" using 1 by simp
  then have "mode (snd (con_set C 0 m os2)) = (mode os)(0 \<mapsto> m)"
    using laws by (simp add: console_laws_def)
  then show "mode (snd (Getch makeNonBlock (con_set C) (con_read C) os)) = mode os"
    unfolding run by (simp add: r m fun_upd_idem)
qed

lemma makeNonBlock_eq:
  assumes "console_laws C mode" "mode os 0 = Some t" "console_laws D wmode" "wmode ws 0 = Some st"
  shows "unix_makeNonBlock k C 0 os = (Inr t, snd (con_set C 0 (unix_raw k t) os))"
    and "windows_makeNonBlock w D 0 ws = (Inr st, snd (con_set D 0 (windows_raw w st) ws))"
proof -
  have "con_get C 0 os = Inr t" "fst (con_set C 0 (unix_raw k t) os) = None"
    "con_get D 0 ws = Inr st" "fst (con_set D 0 (windows_raw w st) ws) = None"
    using assms by (simp_all add: console_laws_def)
  then show "unix_makeNonBlock k C 0 os = (Inr t, snd (con_set C 0 (unix_raw k t) os))"
    "windows_makeNonBlock w D 0 ws = (Inr st, snd (con_set D 0 (windows_raw w st) ws))"
    by (auto simp: unix_makeNonBlock_def windows_makeNonBlock_def split: prod.split option.split)
qed

lemma restoreState_eq: "unix_restoreState C = con_set C" "windows_restoreState D = con_set D"
  by (intro ext, simp add: unix_restoreState_def windows_restoreState_def)+

text \<open>The outcome of a key press: the keys that \<open>read\<close> gives in the state \<open>u\<close>.\<close>

definition keys_read :: "('m, 's, 'os, 'e) console \<Rightarrow> 'os \<Rightarrow> getch" where
  "keys_read C u = (case fst (con_read C 3 u) of Inl e \<Rightarrow> GetchNil | Inr bs \<Rightarrow> GetchKeys bs)"

subsection \<open>Properties\<close>

text \<open>A console with one terminal, at descriptor 0, and its input.\<close>

definition plain_console :: "('m, 's, 'm \<times> bytes, unit) console" where
  "plain_console =
     \<lparr>con_get = \<lambda>fd os. if fd = 0 then Inr (fst os) else Inl (),
      con_set = \<lambda>fd m os. if fd = 0 then (None, (m, snd os)) else (Some (), os),
      con_size = \<lambda>fd os. Inl (),
      con_read = \<lambda>n os. (Inr (take n (snd os)), (fst os, drop n (snd os)))\<rparr>"

definition plain_mode :: "'m \<times> bytes \<Rightarrow> int \<Rightarrow> 'm option" where
  "plain_mode os fd = (if fd = 0 then Some (fst os) else None)"

definition sample_windows :: "(u32, window_rect, u32 \<times> bytes, unit) console" where
  "sample_windows = plain_console"

definition sample_unix :: "(termios, winsize, termios \<times> bytes, unit) console" where
  "sample_unix = plain_console"

lemma plain_console_laws: "console_laws plain_console plain_mode"
  by (auto simp: console_laws_def plain_console_def plain_mode_def fun_eq_iff)

text \<open>
  C37: Waiting for a key, on Unix and on Windows, where standard input is a terminal whose mode
  can be read and set. While Getch reads, exactly the echo, line and signal flags of the
  terminal are off, the other flags are as they were; on Unix a read waits for at least one byte
  and has no time limit (VMIN 1, VTIME 0), and every other control character and every other
  field of the mode is as it was. Getch returns what was read, and after it the terminal has the
  mode it had before, also when the read has failed.
\<close>

lemma getch_restores:
  assumes "console_laws C mode" "mode os 0 = Some t" "console_laws D wmode" "wmode ws 0 = Some st"
  shows "(case Getch (unix_makeNonBlock k C) (unix_restoreState C) (con_read C) os of (key, os') \<Rightarrow>
       mode os' = mode os \<and> (\<exists>u. mode u 0 = Some (unix_raw k t) \<and> key = keys_read C u)) \<and>
     (case Getch (windows_makeNonBlock w D) (windows_restoreState D) (con_read D) ws of (key, ws') \<Rightarrow>
       wmode ws' = wmode ws \<and> (\<exists>u. wmode u 0 = Some (windows_raw w st) \<and> key = keys_read D u)) \<and>
     (let off = ux_ECHO k OR ux_ICANON k OR ux_ISIG k in
       tm_Lflag (unix_raw k t) AND off = 0 \<and> (\<forall>f. f AND off = 0 \<longrightarrow> tm_Lflag (unix_raw k t) AND f = tm_Lflag t AND f)) \<and>
     tm_other (unix_raw k t) = tm_other t \<and> length (tm_Cc (unix_raw k t)) = length (tm_Cc t) \<and>
     (\<forall>n < length (tm_Cc t). tm_Cc (unix_raw k t) ! n =
        (if n = ux_VTIME k then 0 else if n = ux_VMIN k then 1 else tm_Cc t ! n)) \<and>
     (let off = wc_ECHO_INPUT w OR wc_PROCESSED_INPUT w OR wc_LINE_INPUT w OR wc_PROCESSED_OUTPUT w in
       windows_raw w st AND off = 0 \<and> (\<forall>f. f AND off = 0 \<longrightarrow> windows_raw w st AND f = st AND f))"
proof -
  note make = makeNonBlock_eq [OF assms]
  note U = Getch_restores [where raw = "unix_raw k" and makeNonBlock = "unix_makeNonBlock k C", OF assms(1,2) make(1)]
  note W = Getch_restores [where raw = "windows_raw w" and makeNonBlock = "windows_makeNonBlock w D", OF assms(3,4) make(2)]
  have unix: "fst (Getch (unix_makeNonBlock k C) (con_set C) (con_read C) os) = keys_read C (snd (con_set C 0 (unix_raw k t) os))"
    unfolding U(1) keys_read_def by (simp add: split_def)
  have windows: "fst (Getch (windows_makeNonBlock w D) (con_set D) (con_read D) ws) = keys_read D (snd (con_set D 0 (windows_raw w st) ws))"
    unfolding W(1) keys_read_def by (simp add: split_def)
  have flags: "tm_Lflag (unix_raw k t) AND (ux_ECHO k OR ux_ICANON k OR ux_ISIG k) = 0"
    "f AND (ux_ECHO k OR ux_ICANON k OR ux_ISIG k) = 0 \<Longrightarrow> tm_Lflag (unix_raw k t) AND f = tm_Lflag t AND f"
    "windows_raw w st AND (wc_ECHO_INPUT w OR wc_PROCESSED_INPUT w OR wc_LINE_INPUT w OR wc_PROCESSED_OUTPUT w) = 0"
    "f AND (wc_ECHO_INPUT w OR wc_PROCESSED_INPUT w OR wc_LINE_INPUT w OR wc_PROCESSED_OUTPUT w) = 0 \<Longrightarrow>
       windows_raw w st AND f = st AND f" for f
    unfolding raw_eq by - (rule and_not_clears, erule and_not_keeps, rule and_not_clears, erule and_not_keeps)
  have fields: "tm_other (unix_raw k t) = tm_other t" "length (tm_Cc (unix_raw k t)) = length (tm_Cc t)"
    "\<forall>n < length (tm_Cc t). tm_Cc (unix_raw k t) ! n =
       (if n = ux_VTIME k then 0 else if n = ux_VMIN k then 1 else tm_Cc t ! n)"
    by (simp_all add: unix_raw_def nth_list_update)
  show ?thesis
    unfolding restoreState_eq case_prod_unfold Let_def unix windows
    using U(2,3) W(2,3) flags fields by blast
qed

lemma getch_restores_witness:
  "snd (Getch (windows_makeNonBlock \<lparr>wc_ECHO_INPUT = 4, wc_PROCESSED_INPUT = 1, wc_LINE_INPUT = 2, wc_PROCESSED_OUTPUT = 1\<rparr> sample_windows)
     (windows_restoreState sample_windows) (con_read sample_windows) (0x1F7, [27, 91, 68])) = (0x1F7, [])"
proof -
  let ?w = "\<lparr>wc_ECHO_INPUT = 4, wc_PROCESSED_INPUT = 1, wc_LINE_INPUT = 2, wc_PROCESSED_OUTPUT = 1\<rparr>"
  let ?g = "Getch (windows_makeNonBlock ?w sample_windows) (windows_restoreState sample_windows) (con_read sample_windows) (0x1F7, [27, 91, 68])"
  have laws: "console_laws sample_windows plain_mode" "console_laws sample_unix plain_mode"
    by (simp_all add: sample_windows_def sample_unix_def plain_console_laws)
  have mode: "plain_mode (0x1F7 :: u32, [27, 91, 68]) 0 = Some 0x1F7" "plain_mode (t, []) 0 = Some t" for t :: termios
    by (simp_all add: plain_mode_def)
  have "plain_mode (snd ?g) = plain_mode (0x1F7, [27, 91, 68])"
    using getch_restores [OF laws(2) mode(2) laws(1) mode(1), where w = ?w] unfolding case_prod_unfold by blast
  then have "fst (snd ?g) = 0x1F7" by (simp add: plain_mode_def fun_eq_iff split: if_splits)
  moreover have "snd (snd ?g) = []"
    by (simp add: Getch_def windows_makeNonBlock_def windows_restoreState_def sample_windows_def plain_console_def)
  ultimately show ?thesis by (simp add: prod_eq_iff)
qed

end
