(* ===== verification/Menu_Loop.thy ===== *)
theory Menu_Loop
  imports Hotkey Tty
begin

section \<open>The key loop of a menu on a terminal (hotkey/hotkey.go over term/term.go)\<close>

text \<open>
  The goroutine of \<open>Run\<close>: a loop around \<open>Getch\<close> that ends when a callback has set the stop flag, and
  may run for ever.  The state \<open>'w\<close> holds the terminal and its input too, so a callback may read from
  it or change its mode.  Where \<open>Getch\<close> panics so does the loop; a failed read is the key of no bytes.
\<close>

definition key_string :: "getch \<Rightarrow> string" where
  "key_string k = (case k of GetchKeys bs \<Rightarrow> map (\<lambda>b. char_of (unat b)) bs | _ \<Rightarrow> [])"

partial_function (option) hk_run ::
  "('w \<Rightarrow> getch \<times> 'w) \<Rightarrow> ('a, 'w) actions \<Rightarrow> 'a hotkey \<times> 'w \<Rightarrow> (go_error option \<times> 'a hotkey \<times> 'w) option" where
  "hk_run getch act st =
     (if hk_stop (fst st) then Some (None, (fst st)\<lparr>hk_stop := False\<rparr>, snd st)
      else (case getch (snd st) of
              (k, w) \<Rightarrow>
                if k = GetchPanic then Some (Some ErrPanic, fst st, w)
                else hk_run getch act (run_key act (key_string k) (fst st, w))))"

text \<open>
  The connector's menu with its terminal: \<open>Ctrl+L\<close> and \<open>f\<close> read a line from the same standard input,
  through a \<open>bufio.Reader\<close> of their own, whose \<open>ReadString\<close> is the argument \<open>readLine\<close> (it may take more
  than the line).
\<close>

definition on_terminal ::
  "('os \<Rightarrow> string \<times> 'os) \<Rightarrow> (menu_action, menu) actions \<Rightarrow> (menu_action, menu \<times> 'os) actions" where
  "on_terminal readLine act a ch st =
     (case st of (h, m, os) \<Rightarrow>
        (case (if a = MSetLevel \<or> a = MSetFilter
               then (case readLine os of (l, os) \<Rightarrow> (m\<lparr>mn_input := [l]\<rparr>, os)) else (m, os)) of
           (m, os) \<Rightarrow> (case act a ch (h, m) of (h, m) \<Rightarrow> (h, m, os))))"

definition world_getch :: "('os \<Rightarrow> getch \<times> 'os) \<Rightarrow> 'm \<times> 'os \<Rightarrow> getch \<times> 'm \<times> 'os" where
  "world_getch getch w = (case getch (snd w) of (k, os) \<Rightarrow> (k, fst w, os))"

subsection \<open>Lemmas\<close>

text \<open>A turn of the loop, the states in which it makes no more, and its outcome there.\<close>

definition hk_turn :: "('w \<Rightarrow> getch \<times> 'w) \<Rightarrow> ('a, 'w) actions \<Rightarrow> 'a hotkey \<times> 'w \<Rightarrow> 'a hotkey \<times> 'w" where
  "hk_turn getch act st =
     (case getch (snd st) of (k, w) \<Rightarrow> run_key act (key_string k) (fst st, w))"

definition hk_ends :: "('w \<Rightarrow> getch \<times> 'w) \<Rightarrow> 'a hotkey \<times> 'w \<Rightarrow> bool" where
  "hk_ends getch st \<longleftrightarrow> hk_stop (fst st) \<or> fst (getch (snd st)) = GetchPanic"

definition hk_outcome :: "('w \<Rightarrow> getch \<times> 'w) \<Rightarrow> 'a hotkey \<times> 'w \<Rightarrow> go_error option \<times> 'a hotkey \<times> 'w" where
  "hk_outcome getch st =
     (if hk_stop (fst st) then (None, (fst st)\<lparr>hk_stop := False\<rparr>, snd st)
      else (Some ErrPanic, fst st, snd (getch (snd st))))"

lemma hk_run_step:
  "hk_run getch act st = (if hk_ends getch st then Some (hk_outcome getch st) else hk_run getch act (hk_turn getch act st))"
  by (subst hk_run.simps) (simp add: hk_ends_def hk_outcome_def hk_turn_def split_def)

lemma hk_run_stops:
  assumes "hk_ends getch ((hk_turn getch act ^^ n) st)" "\<forall>m<n. \<not> hk_ends getch ((hk_turn getch act ^^ m) st)"
  shows "hk_run getch act st = Some (hk_outcome getch ((hk_turn getch act ^^ n) st))"
  using assms
proof (induction n arbitrary: st)
  case 0
  then show ?case by (simp add: hk_run_step)
next
  case (Suc n)
  have pow: "(hk_turn getch act ^^ m) (hk_turn getch act st) = (hk_turn getch act ^^ Suc m) st" for m
    by (simp add: funpow_swap1)
  have "\<not> hk_ends getch st" using Suc.prems(2) by (metis funpow_0 zero_less_Suc)
  moreover have "hk_run getch act (hk_turn getch act st) = Some (hk_outcome getch ((hk_turn getch act ^^ Suc n) st))"
    using Suc.IH [of "hk_turn getch act st"] Suc.prems unfolding pow by (metis Suc_mono)
  ultimately show ?case by (subst hk_run_step) simp
qed

lemma hk_run_returns:
  assumes "hk_run getch act st = Some r"
  shows "\<exists>n. hk_ends getch ((hk_turn getch act ^^ n) st)"
proof (rule hk_run.raw_induct [where P = "\<lambda>getch act st r. \<exists>n. hk_ends getch ((hk_turn getch act ^^ n) st)", OF _ assms])
  fix run getch act st r
  assume IH: "\<And>getch act st r. run getch act st = Some r \<Longrightarrow> \<exists>n. hk_ends getch ((hk_turn getch act ^^ n) st)"
    and eq: "(if hk_stop (fst st) then Some (None, (fst st)\<lparr>hk_stop := False\<rparr>, snd st)
      else case getch (snd st) of (k, w) \<Rightarrow>
        if k = GetchPanic then Some (Some ErrPanic, fst st, w) else run getch act (run_key act (key_string k) (fst st, w))) = Some r"
  show "\<exists>n. hk_ends getch ((hk_turn getch act ^^ n) st)"
  proof (cases "hk_ends getch st")
    case True
    then have "hk_ends getch ((hk_turn getch act ^^ 0) st)" by simp
    then show ?thesis ..
  next
    case False
    then have "run getch act (hk_turn getch act st) = Some r"
      using eq by (auto simp: hk_ends_def hk_turn_def split_def split: if_splits)
    then obtain n where "hk_ends getch ((hk_turn getch act ^^ n) (hk_turn getch act st))" using IH by blast
    then have "hk_ends getch ((hk_turn getch act ^^ Suc n) st)" by (simp add: funpow_swap1)
    then show ?thesis ..
  qed
qed

text \<open>The loop is its turns, up to the first state in which it ends.\<close>

lemma hk_run_turns:
  "hk_run getch act st =
     (let at = \<lambda>n. (hk_turn getch act ^^ n) st
      in if \<exists>n. hk_ends getch (at n) then Some (hk_outcome getch (at (LEAST n. hk_ends getch (at n)))) else None)"
proof (cases "\<exists>n. hk_ends getch ((hk_turn getch act ^^ n) st)")
  case True
  then have "hk_run getch act st = Some (hk_outcome getch ((hk_turn getch act ^^ (LEAST n. hk_ends getch ((hk_turn getch act ^^ n) st))) st))"
    by (intro hk_run_stops) (rule LeastI_ex, auto dest: not_less_Least)
  with True show ?thesis by (simp add: Let_def)
next
  case False
  then have "hk_run getch act st = None"
    using hk_run_returns [of getch act st] by (cases "hk_run getch act st") blast+
  with False show ?thesis by (simp add: Let_def)
qed

text \<open>A way to wait for keys that never panics while \<open>I\<close> holds of the system, and keeps \<open>I\<close>.\<close>

definition getch_ok :: "('os \<Rightarrow> bool) \<Rightarrow> ('os \<Rightarrow> getch \<times> 'os) \<Rightarrow> bool" where
  "getch_ok I getch \<longleftrightarrow> (\<forall>os. I os \<longrightarrow> fst (getch os) \<noteq> GetchPanic \<and> I (snd (getch os)))"

text \<open>Waiting for a key on a terminal that obeys its documentation never panics and keeps the modes.\<close>

lemma getch_ok_console:
  assumes "console_laws C mode" "md 0 = Some t"
  shows "getch_ok (\<lambda>os. mode os = md) (Getch (unix_makeNonBlock k C) (unix_restoreState C) (con_read C))"
  unfolding getch_ok_def
proof (intro allI impI)
  fix os assume "mode os = md"
  then have m: "mode os 0 = Some t" using assms(2) by simp
  note make = makeNonBlock_eq(1) [OF assms(1) m plain_console_laws, of "(undefined, [])"]
  note G = Getch_restores [where raw = "unix_raw k" and makeNonBlock = "unix_makeNonBlock k C", OF assms(1) m]
  have "unix_makeNonBlock k C 0 os = (Inr t, snd (con_set C 0 (unix_raw k t) os))"
    using make by (simp add: plain_mode_def)
  note G = G [OF this]
  show "fst (Getch (unix_makeNonBlock k C) (unix_restoreState C) (con_read C) os) \<noteq> GetchPanic \<and>
      mode (snd (Getch (unix_makeNonBlock k C) (unix_restoreState C) (con_read C) os)) = md"
    unfolding restoreState_eq using G(1,2) \<open>mode os = md\<close> by (auto simp: split_def split: sum.split)
qed

text \<open>Where the mode of the standard input cannot be read, because it is no terminal, \<open>Getch\<close> panics.\<close>

lemma Getch_no_terminal:
  "con_get C 0 os = Inl e \<Longrightarrow> Getch (unix_makeNonBlock k C) restore input os = (GetchPanic, os)"
  "con_get D 0 ws = Inl e' \<Longrightarrow> Getch (windows_makeNonBlock w D) restore' input' ws = (GetchPanic, ws)"
  by (simp_all add: Getch_def unix_makeNonBlock_def windows_makeNonBlock_def)

lemma hk_run_panics:
  "\<not> hk_stop h \<Longrightarrow> getch os = (GetchPanic, os) \<Longrightarrow>
   hk_run (world_getch getch) act (h, w, os) = Some (Some ErrPanic, h, w, os)"
  by (subst hk_run.simps) (simp add: world_getch_def)

subsection \<open>The connector's menu on its terminal\<close>

lemma on_terminal_act:
  "\<exists>m' os'. on_terminal readLine act a ch (h, m, os) = (fst (act a ch (h, m')), snd (act a ch (h, m')), os') \<and>
     (os' = os \<or> os' = snd (readLine os))"
  unfolding on_terminal_def by (auto simp: split_def)

lemma menu_act_stops:
  "hk_stop (fst (menu_act L env a ch (h, w))) \<longleftrightarrow> hk_stop h \<or> a = MStop \<or> a = MQuit"
  using menu_act_stop [of a L env ch h w] by (cases "a = MStop \<or> a = MQuit") (auto simp: menu_act_def)

text \<open>A key that the connector's menu is given: the pending action, and then the key's own.\<close>

lemma run_key_terminal:
  assumes "menu_ready h"
  shows "run_key (on_terminal readLine (menu_act L env)) ch (h, m, os) =
     (let st = (fst (resume (h, m)), snd (resume (h, m)), os) in
      case bound_action h ch of None \<Rightarrow> st | Some a \<Rightarrow> on_terminal readLine (menu_act L env) a ch st)"
proof -
  have restore: "on_terminal readLine (menu_act L env) MRestore ch (h, m, os) = (h, snd (restoreLog (h, m)), os)" for h m
    by (simp add: on_terminal_def menu_act_def restoreLog_def)
  have id: "h\<lparr>hk_nextKeyAction := None\<rparr> = h" if "hk_nextKeyAction h = None"
    using that by (intro hotkey.equality) simp_all
  have "run_key (on_terminal readLine (menu_act L env)) ch (h, m, os) =
     (let st = (fst (resume (h, m)), snd (resume (h, m)), os) in
      case bound_action (fst (resume (h, m))) ch of None \<Rightarrow> st | Some a \<Rightarrow> on_terminal readLine (menu_act L env) a ch st)"
    using assms unfolding menu_ready_def
    by (cases "hk_nextKeyAction h")
      (simp_all add: run_key_def resume_def id restore restoreLog_def bound_action_def Let_def split: option.split unknown.split)
  then show ?thesis by (simp add: resume_def)
qed

lemma run_key_terminal_keeps:
  assumes ready: "menu_ready h" and run: "run_key (on_terminal readLine (menu_act L env)) ch (h, m, os) = (h', m', os')"
  shows "menu_ready h'" "bound_action h' = bound_action h"
    "hk_stop h' \<longleftrightarrow> hk_stop h \<or> bound_action h ch = Some MStop \<or> bound_action h ch = Some MQuit"
    "os' = os \<or> os' = snd (readLine os)"
proof -
  obtain h1 m1 where r: "resume (h, m) = (h1, m1)" by fastforce
  have 1: "hk_nextKeyAction h1 = None" "bound_action h1 = bound_action h" "hk_stop h1 = hk_stop h"
    using r by (auto simp: resume_def)
  have a: "a \<noteq> MRestore" if "bound_action h ch = Some a" for a
    using that ready by (auto simp: menu_ready_def)
  have *: "menu_ready h' \<and> bound_action h' = bound_action h \<and>
    (hk_stop h' \<longleftrightarrow> hk_stop h \<or> bound_action h ch = Some MStop \<or> bound_action h ch = Some MQuit) \<and>
    (os' = os \<or> os' = snd (readLine os))"
  proof (cases "bound_action h ch")
    case None
    then have "h' = h1" "os' = os" using run by (simp_all add: run_key_terminal [OF ready] r)
    then show ?thesis using 1 None ready by (auto simp: menu_ready_def)
  next
    case (Some b)
    have on: "on_terminal readLine (menu_act L env) b ch (h1, m1, os) = (h', m', os')"
      using run Some by (simp add: run_key_terminal [OF ready] r)
    obtain m2 os2 where "on_terminal readLine (menu_act L env) b ch (h1, m1, os) =
        (fst (menu_act L env b ch (h1, m2)), snd (menu_act L env b ch (h1, m2)), os2)" "os2 = os \<or> os2 = snd (readLine os)"
      using on_terminal_act [of readLine "menu_act L env" b ch h1 m1 os] by (elim exE conjE)
    then have m2: "h' = fst (menu_act L env b ch (h1, m2))" "os' = os \<or> os' = snd (readLine os)"
      unfolding on by simp_all
    show ?thesis
      using menu_act_frame [OF 1(1) a [OF Some], of L env ch m2] menu_act_stops [of L env b ch h1 m2] m2 1 Some ready
      by (auto simp: menu_ready_def)
  qed
  from * show "menu_ready h'" by blast
  from * show "bound_action h' = bound_action h" by blast
  from * show "hk_stop h' \<longleftrightarrow> hk_stop h \<or> bound_action h ch = Some MStop \<or> bound_action h ch = Some MQuit" by blast
  from * show "os' = os \<or> os' = snd (readLine os)" by blast
qed

lemma menu_stop_keys:
  "bound_action the_menu ch = Some MStop \<or> bound_action the_menu ch = Some MQuit \<longleftrightarrow> ch = [CHR 0x03] \<or> ch = ''q''"
  by (auto simp: bound_action_menu menu_table_def key_CtrlC_def split: option.splits if_splits)

text \<open>The menu after \<open>n\<close> keys: it is to stop when one of them was a stop key, and the terminal is as it was.\<close>

lemma menu_turns:
  fixes L :: crypto and env :: tenv and m :: menu
  assumes ok: "getch_ok I getch" and line: "\<And>os. I os \<Longrightarrow> I (snd (readLine os))" and os: "I os"
  defines "at \<equiv> \<lambda>n. (hk_turn (world_getch getch) (on_terminal readLine (menu_act L env)) ^^ n) (the_menu, m, os)"
  defines "key \<equiv> \<lambda>n. key_string (fst (getch (snd (snd (at n)))))"
  shows "menu_ready (fst (at n)) \<and> bound_action (fst (at n)) = bound_action the_menu \<and> I (snd (snd (at n))) \<and>
     (hk_stop (fst (at n)) \<longleftrightarrow> (\<exists>j<n. key j = [CHR 0x03] \<or> key j = ''q''))"
proof (induction n)
  case 0
  then show ?case using the_menu_ready the_menu_state(3) os by (simp add: at_def)
next
  case (Suc n)
  obtain h w os1 where n: "at n = (h, w, os1)" by (metis prod.collapse)
  obtain k os2 where g: "getch os1 = (k, os2)" by fastforce
  obtain h' w' os' where t: "run_key (on_terminal readLine (menu_act L env)) (key_string k) (h, w, os2) = (h', w', os')"
    by (metis prod.collapse)
  have at: "at (Suc n) = (h', w', os')"
    using n g t by (simp add: at_def hk_turn_def world_getch_def)
  have "I os2" using ok Suc.IH g n unfolding getch_ok_def by (metis snd_conv)
  moreover have "key n = key_string k" using n g by (simp add: key_def)
  moreover have ready: "menu_ready h" "bound_action h = bound_action the_menu" using Suc.IH n by simp_all
  note keeps = run_key_terminal_keeps [OF ready(1) t]
  have "I os'" using keeps(4) line \<open>I os2\<close> by blast
  moreover have "hk_stop h' \<longleftrightarrow> hk_stop h \<or> key n = [CHR 0x03] \<or> key n = ''q''"
    using keeps(3) unfolding ready(2) menu_stop_keys \<open>key n = key_string k\<close> .
  moreover have "hk_stop h \<longleftrightarrow> (\<exists>j<n. key j = [CHR 0x03] \<or> key j = ''q'')" using Suc.IH n by simp
  ultimately have "hk_stop h' \<longleftrightarrow> (\<exists>j<Suc n. key j = [CHR 0x03] \<or> key j = ''q'')"
    unfolding Ex_less_Suc by (metis (no_types))
  then show ?case
    using keeps(1,2) ready(2) \<open>I os'\<close> by (simp add: at del: Ex_less_Suc)
qed

subsection \<open>Properties\<close>

text \<open>A terminal with its input: the calls of the reads, one after the other, and then the end of the file.\<close>

definition line_console :: "(termios, winsize, termios \<times> bytes list, unit) console" where
  "line_console =
     \<lparr>con_get = \<lambda>fd os. if fd = 0 then Inr (fst os) else Inl (),
      con_set = \<lambda>fd m os. if fd = 0 then (None, (m, snd os)) else (Some (), os),
      con_size = \<lambda>fd os. Inl (),
      con_read = \<lambda>n os. case snd os of [] \<Rightarrow> (Inl (), os) | b # bs \<Rightarrow> (Inr (take n b), (fst os, bs))\<rparr>"

definition line_mode :: "termios \<times> bytes list \<Rightarrow> int \<Rightarrow> termios option" where
  "line_mode os fd = (if fd = 0 then Some (fst os) else None)"

lemma line_console_laws: "console_laws line_console line_mode"
  by (auto simp: console_laws_def line_console_def line_mode_def fun_eq_iff split: list.split)

text \<open>A line read from it: what one read gives.\<close>

definition line_read :: "termios \<times> bytes list \<Rightarrow> string \<times> termios \<times> bytes list" where
  "line_read os = (case snd os of [] \<Rightarrow> ([], os) | b # bs \<Rightarrow> (map (\<lambda>x. char_of (unat x)) b, fst os, bs))"

definition sample_menu :: menu where
  "sample_menu = \<lparr>mn_log = teolog_New, mn_level = 0, mn_tru = sample_tru, mn_input = [], mn_exit = False\<rparr>"

definition sample_consts :: unix_consts where
  "sample_consts = \<lparr>ux_ECHO = 8, ux_ICANON = 2, ux_ISIG = 1, ux_VMIN = 6, ux_VTIME = 5\<rparr>"

definition sample_termios :: termios where
  "sample_termios = \<lparr>tm_Lflag = 0x8A3B, tm_Cc = replicate 20 0, tm_other = []\<rparr>"

text \<open>
  C38: The key loop of a menu. For any callbacks, also ones that read from the terminal or
  change its mode, it is the turns (a wait for a key, then its callbacks) up to the first state
  in which the stop flag is set or Getch panics. On a terminal that obeys its documentation the
  connector's menu, whose Ctrl+L and f read a line from the same input, returns exactly at the
  first key read that is Ctrl+C or q (which also ends the process), with the stop flag cleared,
  and otherwise runs for ever; a failed read or any other key goes on; and after any number of
  keys the terminal has the mode it had. Where the standard input is no terminal the first wait
  panics, for every menu, and so it does where the platform has none.
\<close>

lemma menu_loop:
  fixes L :: crypto and env :: tenv and m :: menu and k :: unix_consts
  assumes "console_laws C mode" "mode os 0 = Some t" "newHotkey = Inr h" "\<forall>os. mode (snd (readLine os)) = mode os"
  defines "wait \<equiv> world_getch (Getch (unix_makeNonBlock k C) (unix_restoreState C) (con_read C))"
    and "callbacks \<equiv> on_terminal readLine (menu_act L env)"
  defines "at \<equiv> \<lambda>n. (hk_turn wait callbacks ^^ n) (h, m, os)"
  defines "stops \<equiv> \<lambda>n. key_string (fst (wait (snd (at n)))) \<in> {[CHR 0x03], ''q''}"
  shows "hk_run getch act st =
       (let at = \<lambda>n. (hk_turn getch act ^^ n) st
        in if \<exists>n. hk_ends getch (at n) then Some (hk_outcome getch (at (LEAST n. hk_ends getch (at n)))) else None) \<and>
     hk_run wait callbacks (h, m, os) =
       (if \<exists>n. stops n
        then (case at (Suc (LEAST n. stops n)) of (h', w) \<Rightarrow> Some (None, h'\<lparr>hk_stop := False\<rparr>, w))
        else None) \<and>
     (\<forall>n. mode (snd (snd (at n))) = mode os) \<and>
     (con_get C 0 sys = Inl e \<and> \<not> hk_stop hk \<longrightarrow>
        hk_run wait any_act (hk, w, sys) = Some (Some ErrPanic, hk, w, sys)) \<and>
     (\<not> hk_stop hk \<longrightarrow>
        hk_run (world_getch (Getch (unsupported_makeNonBlock arch) restore input)) any_act (hk, w, sys) =
          Some (Some ErrPanic, hk, w, sys))"
proof -
  have h: "h = the_menu" using assms(3) newHotkey_menu by (metis sum.inject(2))
  let ?I = "\<lambda>u. mode u = mode os"
  note ok = getch_ok_console [where md = "mode os" and k = k, OF assms(1,2)]
  have turns: "?I (snd (snd (at n)))" "hk_stop (fst (at n)) \<longleftrightarrow> (\<exists>j<n. stops j)" for n
    using menu_turns [where n = n and m = m and L = L and env = env, OF ok _ refl, of readLine] assms(4)
    by (simp_all add: at_def stops_def wait_def callbacks_def h world_getch_def split_def)
  have ends: "hk_ends wait (at n) \<longleftrightarrow> (\<exists>j<n. stops j)" for n
    using turns ok by (simp add: hk_ends_def getch_ok_def wait_def world_getch_def split_def)
  have "hk_run wait callbacks (h, m, os) =
      (if \<exists>n. stops n then (case at (Suc (LEAST n. stops n)) of (h', w) \<Rightarrow> Some (None, h'\<lparr>hk_stop := False\<rparr>, w)) else None)"
  proof (cases "\<exists>n. stops n")
    case True
    let ?n = "LEAST n. stops n"
    have first: "stops ?n" "\<And>j. j < ?n \<Longrightarrow> \<not> stops j"
      by (rule LeastI_ex [OF True], erule not_less_Least)
    have "hk_ends wait (at (Suc ?n))" "\<forall>j<Suc ?n. \<not> hk_ends wait (at j)"
      unfolding ends using first(1) lessI first(2) less_trans_Suc by (blast, metis less_Suc_eq_le less_le_trans)
    then have "hk_run wait callbacks (h, m, os) = Some (hk_outcome wait (at (Suc ?n)))"
      unfolding at_def by (rule hk_run_stops)
    moreover have "hk_stop (fst (at (Suc ?n)))" using first(1) unfolding turns(2) by blast
    ultimately show ?thesis using True by (simp add: hk_outcome_def split_def)
  next
    case False
    then show ?thesis using ends by (simp add: hk_run_turns at_def Let_def)
  qed
  moreover have "hk_run wait any_act (hk, w, sys) = Some (Some ErrPanic, hk, w, sys)" if "con_get C 0 sys = Inl e" "\<not> hk_stop hk"
    unfolding wait_def using that by (intro hk_run_panics Getch_no_terminal(1))
  moreover have "hk_run (world_getch (Getch (unsupported_makeNonBlock arch) restore input)) any_act (hk, w, sys) =
      Some (Some ErrPanic, hk, w, sys)" if "\<not> hk_stop hk"
    using that by (intro hk_run_panics Getch_unsupported(1))
  ultimately show ?thesis
    using turns(1) hk_run_turns [of getch act st] by blast
qed

lemma menu_loop_witness:
  "map_option (\<lambda>r. (fst r, snd (snd (snd r))))
     (hk_run (world_getch (Getch (unix_makeNonBlock sample_consts line_console) (unix_restoreState line_console) (con_read line_console)))
        (on_terminal line_read (menu_act plain_crypto sample_tenv))
        (the_menu, sample_menu, sample_termios, [[12], [104, 10], [108], [3], [104]])) =
   Some (None, sample_termios, [[104]])"
proof -
  let ?wait = "world_getch (Getch (unix_makeNonBlock sample_consts line_console) (unix_restoreState line_console) (con_read line_console))"
  let ?act = "on_terminal line_read (menu_act plain_crypto sample_tenv)"
  let ?os = "(sample_termios, [[12], [104, 10], [108], [3], [104]])"
  let ?at = "\<lambda>n. (hk_turn ?wait ?act ^^ n) (the_menu, sample_menu, ?os)"
  let ?stops = "\<lambda>n. key_string (fst (?wait (snd (?at n)))) \<in> {[CHR 0x03], ''q''}"
  have mode: "line_mode ?os 0 = Some sample_termios" by (simp add: line_mode_def)
  have line: "\<forall>os. line_mode (snd (line_read os)) = line_mode os"
    by (simp add: line_read_def line_mode_def fun_eq_iff split: list.split)
  note loop = menu_loop [OF line_console_laws mode newHotkey_menu line, where k = sample_consts and L = plain_crypto
      and env = sample_tenv and m = sample_menu, THEN conjunct2, THEN conjunct1]
  let ?T = "hk_turn ?wait ?act" and ?s = "(the_menu, sample_menu, ?os)"
  let ?key = "\<lambda>st. key_string (fst (?wait (snd st)))"
  have "?key ?s = [CHR 0x0C]" "?key (?T ?s) = ''l''" "?key (?T (?T ?s)) = [CHR 0x03]"
    "snd (snd (?T (?T (?T ?s)))) = (sample_termios, [[104]])"
    by code_simp+
  then have run: "\<not> ?stops 0" "\<not> ?stops 1" "?stops 2" "snd (snd (?at 3)) = (sample_termios, [[104]])"
    by (simp_all add: eval_nat_numeral)
  have least: "(LEAST n. ?stops n) = 2"
  proof (rule Least_equality)
    show "?stops 2" by (rule run(3))
    fix n assume "?stops n"
    then have "n \<noteq> 0" "n \<noteq> 1" using run(1,2) by metis+
    then show "2 \<le> n" by simp
  qed
  have "hk_run ?wait ?act (the_menu, sample_menu, ?os) =
      (case ?at (Suc (LEAST n. ?stops n)) of (h', w) \<Rightarrow> Some (None, h'\<lparr>hk_stop := False\<rparr>, w))"
    by (rule trans [OF loop], rule if_P, rule exI, rule run(3))
  then have eq: "hk_run ?wait ?act (the_menu, sample_menu, ?os) =
      (case ?at 3 of (h', w) \<Rightarrow> Some (None, h'\<lparr>hk_stop := False\<rparr>, w))"
    unfolding least by (simp only: numeral_3_eq_3 numeral_2_eq_2)
  show ?thesis
    unfolding eq using run(4) by (cases "?at 3") (simp only: prod.case option.map fst_conv snd_conv)
qed

end
