(* ===== verification/Spec2Isabelle.thy ===== *)
theory Spec2Isabelle
  imports Progress Writers Retransmission Wire_Types Lost_Ack Echo Stat_View Menu_Loop Blocking
begin

text \<open>
  Tru, a reliable connection over UDP: a model of the Go library \<open>tru\<close> (\<open>src/*.go\<close>, \<open>src/teolog\<close>,
  \<open>src/hotkey\<close>, \<open>src/term\<close>) and what makes it correct.  The library gives its user ordered, encrypted, acknowledged messages over UDP.  A
  connector (\<open>Tru\<close>) owns a socket and a map from peer addresses to channels.  A four message
  handshake with RSA makes a channel on each side and one session key.  A message written on a
  channel is split into packets, each numbered with the next of \<open>2^20\<close> identifiers, encrypted under
  the session key, queued, and sent by the sender goroutine; it is sent again by a timer until the
  acknowledgement of its identifier comes, at most a hundred times, then the channel is destroyed.
  The receiver acknowledges each packet, keeps those that are ahead of the one it expects, combines
  the fragments, and hands the messages to the reader goroutine.  Timers ping an idle server and
  destroy a silent channel.

  \<^bold>\<open>How the theories correspond to the code.\<close>

  \<^item> \<open>Tru_Prelude\<close>: bytes, little endian words, Go maps, integer division, time and timers, and the
    interface \<open>codec\<close>.  \<open>Go_Strings\<close>: the functions of \<open>strings\<close> and \<open>strconv\<close> that the code calls.
  \<^item> \<open>Packet\<close>, \<open>Split\<close>, \<open>Crypt\<close>: \<open>packet.go\<close>, \<open>split.go\<close>, \<open>crypt.go\<close>.
  \<^item> \<open>Packet_Store\<close>: the interfaces \<open>packet_store\<close>, \<open>fifo_store\<close> and \<open>serial\<close>, which the proofs about
    the receiver, the sender and the circle of identifiers are made in; \<open>Receive_Queue\<close>
    (\<open>receive_queue.go\<close>), \<open>Send_Queue\<close> (\<open>send_queue.go\<close>) and \<open>Channel\<close> interpret them.
  \<^item> \<open>Statistic\<close>: \<open>speed.go\<close>, the counters of \<open>statistic.go\<close>, \<open>statistic_log.go\<close>; \<open>Stat_View\<close>: the listing
    of \<open>statistic.go\<close> and the frame around its table.
  \<^item> \<open>Channel\<close>: \<open>channel.go\<close> on the state of one channel.  An operation takes the channel and gives the
    new channel and its outputs (packets to send or to read, datagrams, delivery calls, panics).
  \<^item> \<open>Tru_State\<close>: the record of the connector, with its channels in a heap; \<open>newChannel\<close>, \<open>destroy\<close>,
    \<open>Close\<close> of \<open>channel.go\<close> and the timers.  \<open>Connect\<close>: \<open>connect.go\<close>.  \<open>Tru\<close>: \<open>serve\<close>, \<open>listen\<close>, the two
    goroutines, the parameters and \<open>Close\<close> of \<open>tru.go\<close>.  \<open>Tru_Net\<close>: \<open>tru_net.go\<close>.
    It also has the \<open>destroy\<close> of a channel whose reader is a \<open>Conn\<close> (\<open>conn_destroy\<close>), which calls back
    into the connector; elsewhere a reader is only told.
    The build switches are the record \<open>build\<close>.
  \<^item> \<open>Blocking\<close>: the bounded channel of the reader goroutine (\<open>tru.go\<close>) and the two callbacks of \<open>tru_net.go\<close>
    that wait for the application.
  \<^item> \<open>Writers\<close>: \<open>WriteTo\<close> of several goroutines on one channel, the loop of \<open>splitPacket\<close> turn by turn.
  \<^item> \<open>Teolog\<close>, \<open>Term\<close>, \<open>Hotkey\<close>: \<open>teolog/teolog.go\<close>, \<open>term/term.go\<close>, \<open>hotkey/hotkey.go\<close> with the menu of
    \<open>hotkey.go\<close>.  \<open>Tty\<close>: the files of \<open>term\<close> for each platform, and \<open>Getch\<close>.  \<open>Menu_Loop\<close>: the key loop of
    a menu on such a terminal.
  \<^item> \<open>Echo\<close>: the example programs \<open>examples/trunet\<close> (client and server over \<open>net.Conn\<close>) and \<open>examples/tru\<close>
    (callbacks).

  \<^bold>\<open>What the lemmas show.\<close>

  \<^item> Components: the codecs, encryption, splitting and the connect packet round trip; both queues keep
    their invariants and their contracts; the retransmission pass sends the due packets and gives up
    exactly after the limit; the bounds of the delays; the speed meter is a window of ten slots.
  \<^item> \<open>Delivery\<close>: a channel that has received the packets \<open>A\<close> of a stream (\<open>received\<close>) expects the first
    one missing from \<open>A\<close>, holds the later ones, and has passed on the ones before; every packet that
    arrives keeps this.
  \<^item> \<open>Invariants\<close>, \<open>System\<close>: the relation \<open>tru_step\<close> has one rule for each datagram, turn of a goroutine,
    timer and call of the application; \<open>tru_ok\<close> holds in every reachable state, a destroyed channel
    stays destroyed, and serving a datagram panics in one case only, which is stated exactly.
  \<^item> \<open>Retransmission\<close>: a connector that goes on while the oldest packet of a channel is not acknowledged
    (\<open>unanswered\<close>): how long that can last.
  \<^item> \<open>Wire_Types\<close>: the packets that a connector makes have the identifiers and statuses of the protocol,
    in all reachable states (\<open>reachable_typed\<close>).
  \<^item> \<open>Writers\<close>: any schedule of calls leaves on the wire an interleaving of their fragments, each with
    its own identifier (\<open>interleave\<close>); a call ends within the turns its data needs; calls of one
    fragment each arrive unbroken, and longer ones may be torn.
  \<^item> \<open>Link\<close>: two channels with one session key and the network between them as a step relation
    (\<open>link_step\<close>) with writes, arrivals of any packet ever sent, and every timer interleaved.  The
    invariant \<open>flows\<close> relates it to a pair of reliable streams; the session can always be completed.
  \<^item> \<open>Lost_Ack\<close>: in such a session, an acknowledgement of a packet that has not arrived, forged or left over
    from an earlier session, stops the stream for good (\<open>stalled\<close>).
  \<^item> \<open>Handshake\<close>: the four messages between two connectors leave two fresh channels with one key.
  \<^item> \<open>Network\<close>: two whole connectors, each with other channels, peers, timers, goroutines and calls of
    its application.  A step of a connector that leaves a session alone is \<open>quiet\<close>; every other step
    is a step of the session's link (\<open>host_step_link\<close>), so every run that leaves the session intact is
    a run of \<open>Link\<close> (\<open>session_run\<close>) and its streams are reliable.  The handshake starts such a session
    (\<open>handshake_session\<close>).  This theory puts the two together.
  \<^item> \<open>Progress\<close>: such a session can always be completed, by turns of the goroutines, the retransmission
    timer and the listeners alone (\<open>session_drains\<close>).

  \<^item> \<open>Echo\<close>: the two loops, interleaved with all the steps of \<open>Network\<close>, keep an invariant (\<open>echo_inv\<close>).
  \<^item> \<open>Blocking\<close>: the steps of \<open>System\<close> with a listener and a reader goroutine that wait: what stands still
    while the application does not accept or read, and that all goes on when it does.  Every run is
    one of \<open>System\<close> (\<open>go_run_steps\<close>), so what is shown of those holds.
  \<^item> \<open>Stat_View\<close>, \<open>Tty\<close>, \<open>Menu_Loop\<close>: the listing in closed form, with the values that its goroutines write to an
    array it has left (\<open>tru_Statistic_eq\<close>); the others do not depend on the order of the map; the frame around
    the table ends where its scroll region starts, a key press leaves the terminal as it was, and the key loop returns exactly
    when a key stops it.

  \<^bold>\<open>Bounds.\<close>  The identifiers are a circle of \<open>2^20\<close>; the receiver tells the packets ahead from those
  behind only within half of it.  The statements on streams say this as a window around the expected
  packet (\<open>window_ok\<close>), or let a run carry at most \<open>2^19\<close> packets in each direction (\<open>short_link\<close>),
  where it holds for every network.  The functions are total: the drain recurs on the size of the
  receive queue, the splitting loop on the data left, and the loop of the send delay on a counter
  that stops at twenty rounds.  Two loops may run for ever, the key loop (\<open>hk_run\<close>) and \<open>io_ReadAll\<close>; they
  are \<open>partial_function\<close>s, and when they return is stated.  Fuel is used only in the reads of a \<open>Conn\<close>,
  where the number that is enough is stated.

  \<^bold>\<open>Abstractions.\<close>  A step is one critical section; steps interleave freely.  In \<open>System\<close>,
  \<open>Link\<close> and \<open>Network\<close> a write of a message is one step; the code takes no lock over its fragments, and
  what two goroutines do to each other's messages is in \<open>Writers\<close>.  The clock, random draws,
  nonces, seeds and what the delay loop observes of the other goroutines are arguments.  The
  primitives of Go's \<open>crypto\<close> packages are the record \<open>crypto\<close>, with the laws they document
  (\<open>crypto_laws\<close>: a sealed text opens to itself, a hash has its length, a key survives its encoding);
  \<open>plain_crypto\<close> meets them.  A callback of the application is a token, and calling it an event.  The
  bounded Go channels between the goroutines are unbounded queues; what their bounds change is in
  \<open>Blocking\<close>, which leaves out only the bound of the sender's channel, whose goroutine never waits.
  \<open>Connect\<close> is cut at its wait; the wait's end and its deferred \<open>close\<close> are one step.  The delivery
  timer is that of a queued packet: a packet leaves the queue when it is acknowledged, and its timer
  is stopped then, where \<open>Stop\<close> is taken at its word although the code calls it on a copy.  In \<open>Link\<close> and
  \<open>Network\<close> the network carries, between the two addresses, only what the two ends have sent, whole.
  A session is intact while its two channels are live and the only ones made between the two
  addresses; the code gives it up when handshake messages are repeated at the wrong time, as
  the error properties of \<open>System\<close> and \<open>Handshake\<close> show.

  \<^bold>\<open>Not modelled.\<close>  The system calls below \<open>term\<close> and the drawing of the statistics table by the
  package \<open>stable\<close>, which are arguments; the layout of the standard log package; what the menu prints;
  the other example programs, which print or use other packages; tests.

  \<^bold>\<open>Further work.\<close>  Several sessions between the same two addresses, one after the other; acknowledgements
  are not bound to a session, so those of an earlier one have to be kept out of the network by a
  hypothesis, as \<open>Lost_Ack\<close> shows.
\<close>

subsection \<open>Properties\<close>

text \<open>
  Messages written on the channel \<open>s\<close> and read on \<open>r\<close>, over a network that delivers the queued
  packets numbered \<open>ns\<close>, in that order, losing the others: what the reader gets is a prefix of the
  messages, and all of them when every packet has arrived at least once.
\<close>

definition delivered_data ::
  "crypto \<Rightarrow> (nat \<Rightarrow> nat \<Rightarrow> wenv) \<Rightarrow> (nat \<Rightarrow> wenv) \<Rightarrow> channel \<Rightarrow> channel \<Rightarrow> bytes list \<Rightarrow> nat list \<Rightarrow> bytes list" where
  "delivered_data L envs envs' s r ms ns =
     map p_data (reads (snd (serve_all L (arrivals (write_messages L envs 0 ms s) envs' ns) r)))"

definition delivers :: "crypto \<Rightarrow> (nat \<Rightarrow> nat \<Rightarrow> wenv) \<Rightarrow> (nat \<Rightarrow> wenv) \<Rightarrow> channel \<Rightarrow> channel \<Rightarrow> bool" where
  "delivers L envs envs' s r \<longleftrightarrow>
     (\<forall>ms ns. window_ok [] ns \<longrightarrow> set ns \<subseteq> {..<length (stream_fragments s ms)} \<longrightarrow>
        (\<exists>k\<le>length ms. delivered_data L envs envs' s r ms ns = take k ms \<and>
           (set ns = {..<length (stream_fragments s ms)} \<longrightarrow> k = length ms)))"

lemma delivers_session:
  assumes "crypto_laws L" "\<And>j k. env_ok (envs j k)" "fresh_sender s" "fresh_receiver r"
    and "k_session (c_crypt r) = k_session (c_crypt s)"
  shows "delivers L envs envs' s r"
  unfolding delivers_def delivered_data_def
proof (intro allI impI)
  fix ms ns
  assume "window_ok [] ns" "set ns \<subseteq> {..<length (stream_fragments s ms)}"
  then have "window_ok [] ns" "\<forall>n\<in>set ns. n < length (stream_fragments s ms)" by auto
  from end_to_end [where envs = envs, OF assms(1-4) decrypt_session [OF assms(5)] this]
  show "\<exists>k\<le>length ms. map p_data (reads (snd (serve_all L (arrivals (write_messages L envs 0 ms s) envs' ns) r))) = take k ms \<and>
      (set ns = {..<length (stream_fragments s ms)} \<longrightarrow> k = length ms)" .
qed

lemma sample_env_ok: "env_ok sample_wenv"
  by (simp add: env_ok_def sample_wenv_def)

lemma sample_tru_key: "t_privateKey sample_tru = Some [1]" "t_senderCh sample_tru = []" "0 \<le> t_maxDataLen sample_tru"
  by (simp_all add: sample_tru_def New_def sample_tenv_def tru_zero_def)

lemma tru_channel_WriteTo_intact: "intact r y t \<Longrightarrow> intact r y (snd (tru_channel_WriteTo L envs x b ds t))"
  using channel_WriteTo_addr [of L envs "get_ch t x" b ds] channel_WriteTo_destroyed [of L envs "get_ch t x" b ds]
  by (auto simp: intact_def tru_channel_WriteTo_def split_def Let_def split: if_splits)

lemma taken_prefix:
  assumes "delivered s B = take j ms"
  shows "map p_data (taken s B) = take (length (taken s B)) (take j ms)"
proof -
  have "take j ms = map p_data (taken s B) @ map p_data (pending s (h_tru B))"
    using assms by (simp add: delivered_def)
  then show ?thesis by simp
qed

text \<open>Two connectors after the handshake, each with its channel 0.\<close>

definition sample_pair :: "tru \<times> tru" where
  "sample_pair = handshake plain_crypto (\<lambda>_. sample_tenv) [7] ''s'' ''c'' sample_tru sample_tru"

lemma sample_stranger: "stranger a sample_tru"
  using sample_tru_ok(1) by (simp add: stranger_def) (simp add: sample_tru_def New_def sample_tenv_def tru_zero_def)

lemma sample_pair_state:
  "intact 0 ''s'' (fst sample_pair)" "intact 0 ''c'' (snd sample_pair)"
  "getChannel ''s'' (fst sample_pair) = Some 0" "getChannel ''c'' (snd sample_pair) = Some 0"
  "c_maxDataLen (get_ch (fst sample_pair) 0) = 0" "t_readerCh (snd sample_pair) = []"
proof -
  have "(case sample_pair of (C, S) \<Rightarrow>
      (map c_addr (t_heap C), map (\<lambda>ch. st_destroyed (c_stat ch)) (t_heap C), map c_addr (t_heap S),
       map (\<lambda>ch. st_destroyed (c_stat ch)) (t_heap S), map c_maxDataLen (t_heap C),
       getChannel ''s'' C, getChannel ''c'' S, t_readerCh S)) =
     ([''s''], [False], [''c''], [False], [0], Some 0, Some 0, [])"
    by code_simp
  then have "map c_addr (t_heap (fst sample_pair)) = [''s'']" "map (\<lambda>ch. st_destroyed (c_stat ch)) (t_heap (fst sample_pair)) = [False]"
    "map c_addr (t_heap (snd sample_pair)) = [''c'']" "map (\<lambda>ch. st_destroyed (c_stat ch)) (t_heap (snd sample_pair)) = [False]"
    "map c_maxDataLen (t_heap (fst sample_pair)) = [0]"
    "getChannel ''s'' (fst sample_pair) = Some 0" "getChannel ''c'' (snd sample_pair) = Some 0" "t_readerCh (snd sample_pair) = []"
    by (simp_all only: case_prod_unfold fst_conv snd_conv prod.inject)
  then show "intact 0 ''s'' (fst sample_pair)" "intact 0 ''c'' (snd sample_pair)"
    "getChannel ''s'' (fst sample_pair) = Some 0" "getChannel ''c'' (snd sample_pair) = Some 0"
    "c_maxDataLen (get_ch (fst sample_pair) 0) = 0" "t_readerCh (snd sample_pair) = []"
    by (auto simp: intact_def less_Suc_eq)
qed

lemma sample_session: "session_start plain_crypto ''c'' ''s'' 0 0 (fst sample_pair) (snd sample_pair)"
proof -
  have "length [7 :: u8] < 256" by simp
  from handshake_session [OF plain_crypto_laws this sample_tru_key sample_stranger sample_tru_key sample_stranger, where env = "\<lambda>_. sample_tenv"
      and sa = "''s''" and ca = "''c''" and C' = "fst sample_pair" and S' = "snd sample_pair"]
  obtain r s where "session_start plain_crypto ''c'' ''s'' r s (fst sample_pair) (snd sample_pair)"
    by (auto simp: sample_pair_def)
  moreover from this have "r = 0" "s = 0"
    using sample_pair_state(3,4) by (simp_all add: session_start_def)
  ultimately show ?thesis by simp
qed





text \<open>The example client has sent its first message.\<close>

definition sample_hello :: tru where
  "sample_hello = snd (client_send plain_crypto (\<lambda>_. sample_wenv) 0 (newConn ''l'' 0 (fst sample_pair)) (fst sample_pair))"

definition sample_echo :: echo where
  "sample_echo = (echo_start ''l'' ''m'' 0 0 (fst sample_pair) (snd sample_pair))
     \<lparr>ec_client := host_step (host0 (fst sample_pair)) (Wrote 0 (hello 0) True) sample_hello, ec_sent := 1, ec_wait := True\<rparr>"

lemma sample_hello_state:
  "fst (client_send plain_crypto (\<lambda>_. sample_wenv) 0 (newConn ''l'' 0 (fst sample_pair)) (fst sample_pair)) = None"
  "t_readerCh sample_hello = []" "sq_items (c_sendQueue (get_ch (snd sample_pair) 0)) = []" "length (hello 0) = 17"
  by code_simp+

lemma sample_echo_run: "echo_step plain_crypto False ''c'' ''s'' 0 0 (echo_start ''l'' ''m'' 0 0 (fst sample_pair) (snd sample_pair)) sample_echo"
proof -
  let ?E = "echo_start ''l'' ''m'' 0 0 (fst sample_pair) (snd sample_pair)"
  have "client_send plain_crypto (\<lambda>_. sample_wenv) (ec_sent ?E) (ec_cconn ?E) (h_tru (ec_client ?E)) = (None, sample_hello)"
    using sample_hello_state(1) by (simp add: echo_start_def sample_hello_def prod_eq_iff)
  from echo_send [OF _ _ this, where nowait = False and x = "''c''" and y = "''s''" and r = 0 and s = 0] sample_env_ok
  show ?thesis by (simp add: sample_echo_def echo_start_def)
qed

lemma prefix_map_upt:
  assumes "prefix xs (map f [0..<n])"
  shows "xs = map f [0..<length xs] \<and> length xs \<le> n"
proof -
  have "length xs \<le> n" using prefix_length_le [OF assms] by simp
  moreover have "xs = take (length xs) (map f [0..<n])"
    using assms by (metis append_eq_conv_conj prefix_def)
  ultimately show ?thesis by (simp add: take_map)
qed





text \<open>
  C3: The net.Conn interface over the whole program. Two connectors run on from the start of a
  session as in C1. A Write on a Conn of the one channel is a step that writes its bytes as one
  message. On a Conn of the other channel that is given the packets the reader goroutine took,
  reading with a buffer of any positive size yields the messages written, each complete and
  closed by one EOF, in order, up to the packets taken; enough reads always end.
\<close>

lemma conn_streams:
  assumes "crypto_laws L" "session_start L x y r s A0 B0" "net_steps L x y (host0 A0, host0 B0) (A, B)"
    and "intact r y (h_tru A)" "intact s x (h_tru B)"
    and few: "length (stream_fragments (get_ch A0 r) (written r A)) \<le> 2 ^ 19"
      "length (stream_fragments (get_ch B0 s) (written s B)) \<le> 2 ^ 19"
    and k: "0 < n" "\<forall>p\<in>set (taken s B). Suc (length (p_data p)) < k" and envs: "\<And>k. env_ok (envs k)"
  shows "(\<exists>j\<le>length (written r A).
       read_messages (length (taken s B)) k n (fst (feed L env (taken s B) (newConn a s B0) (h_tru B))) = Some (take j (written r A))) \<and>
     (let t = snd (conn_Write L envs m (newConn b r A0) (h_tru A)); A' = host_step A (Wrote r m True) t
      in net_step L x y (A, B) (A', B) \<and> written r A' = written r A @ [m])"
proof -
  have r: "r < length (t_heap (h_tru A))" using assms(4) by (simp add: intact_def)
  obtain j where j: "delivered s B = take j (written r A)"
    using session_streams(1) [OF assms(1-7)] by blast
  have "read_messages (length (taken s B)) k n (fst (feed L env (taken s B) (newConn a s B0) (h_tru B))) = Some (map p_data (taken s B))"
    by (rule conn_messages [OF k(1) _ _ _ _ _ k(2)]) (simp_all add: newConn_def conn_ok_def)
  moreover have "map p_data (taken s B) = take (min (length (taken s B)) (min j (length (written r A)))) (written r A)"
    using taken_prefix [OF j] by (metis min.assoc take_all_iff take_take min.cobounded2 nle_le)
  moreover have "net_step L x y (A, B) (host_step A (Wrote r m True) (snd (conn_Write L envs m (newConn b r A0) (h_tru A))), B)"
    using r envs by (intro net_left conn_Write_act) (simp_all add: newConn_def)
  ultimately show ?thesis
    by (auto simp: Let_def intro!: exI [of _ "min (length (taken s B)) (min j (length (written r A)))"])
qed

lemma conn_streams_witness:
  "let t = snd (conn_Write plain_crypto (\<lambda>_. sample_wenv) [1, 2] (newConn ''l'' 0 (fst sample_pair)) (fst sample_pair))
   in net_step plain_crypto ''c'' ''s'' (host0 (fst sample_pair), host0 (snd sample_pair))
     (host_step (host0 (fst sample_pair)) (Wrote 0 [1, 2] True) t, host0 (snd sample_pair))"
  using conn_streams [OF plain_crypto_laws sample_session rtranclp.rtrancl_refl, of 1 1 "\<lambda>_. sample_wenv"] sample_pair_state(1,2)
    sample_env_ok by (simp add: Let_def stream_fragments_def)

text \<open>
  C4: The example client and server over the whole program, from the start of a session as in
  C1, for any interleaving of their loops with every goroutine, timer and other traffic, and any
  growth of their read buffers. The answers that the client has read are the answers to its
  messages 0, 1, 2 and so on, each once and in order; without nowait it is never more than one
  ahead. When both send queues are empty and nothing waits to be read, all messages are
  answered; and whenever a message waits the server's turn returns.
\<close>

lemma echo_session:
  assumes "crypto_laws L" "session_start L x y r s A B"
    and "(echo_step L nowait x y r s)\<^sup>*\<^sup>* (echo_start a b r s A B) E"
    and "intact r y (h_tru (ec_client E))" "intact s x (h_tru (ec_server E))"
    and few: "length (stream_fragments (get_ch A r) (written r (ec_client E))) \<le> 2 ^ 19"
      "length (stream_fragments (get_ch B s) (written s (ec_server E))) \<le> 2 ^ 19"
  shows "ec_got E = map (\<lambda>i. echo_answer (hello i)) [0..<length (ec_got E)] \<and> length (ec_got E) \<le> ec_sent E \<and>
     (\<not> nowait \<longrightarrow> ec_sent E = length (ec_got E) + (if ec_wait E then 1 else 0)) \<and>
     (sq_items (c_sendQueue (get_ch (h_tru (ec_client E)) r)) = [] \<and> sq_items (c_sendQueue (get_ch (h_tru (ec_server E)) s)) = [] \<and>
        pending r (h_tru (ec_client E)) = [] \<and> pending s (h_tru (ec_server E)) = [] \<and>
        cn_queue (ec_cconn E) = [] \<and> cn_queue (ec_sconn E) = [] \<longrightarrow> length (ec_got E) = ec_sent E) \<and>
     (cn_queue (ec_sconn E) \<noteq> [] \<and> (\<forall>k. 0 < room k) \<longrightarrow> server_turn L envs room (ec_sconn E) (h_tru (ec_server E)) \<noteq> None)"
proof -
  obtain served where inv: "echo_inv L nowait x y r s A B E served"
    using echo_steps_inv [OF assms(3,1,2)] by blast
  then have I: "between s (ec_sconn E)" "written r (ec_client E) = map hello [0..<ec_sent E]"
    "map p_data (taken s (ec_server E)) = served @ cn_queue (ec_sconn E)" "written s (ec_server E) = map echo_answer served"
    "map p_data (taken r (ec_client E)) = ec_got E @ cn_queue (ec_cconn E)"
    "\<not> nowait \<longrightarrow> ec_sent E = length (ec_got E) + (if ec_wait E then 1 else 0)"
    by (auto simp: echo_inv_def)
  have run: "net_steps L x y (host0 A, host0 B) (ec_client E, ec_server E)"
    using inv by (simp add: echo_inv_def)
  obtain j where j: "delivered s (ec_server E) = take j (map hello [0..<ec_sent E])"
    "sq_items (c_sendQueue (get_ch (h_tru (ec_client E)) r)) = [] \<longrightarrow> j = ec_sent E"
    using session_streams(1) [OF assms(1,2) run assms(4-7)] unfolding I(2) by auto
  obtain k where k: "delivered r (ec_client E) = take k (map echo_answer served)"
    "sq_items (c_sendQueue (get_ch (h_tru (ec_server E)) s)) = [] \<longrightarrow> k = length served"
    using session_streams(2) [OF assms(1,2) run assms(4-7)] unfolding I(4) by auto
  have "prefix served (take j (map hello [0..<ec_sent E]))"
    unfolding j(1) [symmetric] delivered_def map_append I(3) by simp
  then have served: "served = map hello [0..<length served]" "length served \<le> ec_sent E"
    using prefix_map_upt [of served hello "ec_sent E"] take_is_prefix prefix_order.trans by blast+
  have "prefix (ec_got E) (take k (map echo_answer served))"
    unfolding k(1) [symmetric] delivered_def map_append I(5) by simp
  then have "prefix (ec_got E) (map echo_answer served)"
    using take_is_prefix prefix_order.trans by blast
  moreover have "map echo_answer served = map (\<lambda>i. echo_answer (hello i)) [0..<length served]"
    using arg_cong [OF served(1), of "map echo_answer"] by (simp add: o_def)
  ultimately have got: "ec_got E = map (\<lambda>i. echo_answer (hello i)) [0..<length (ec_got E)]" "length (ec_got E) \<le> length served"
    using prefix_map_upt [of "ec_got E" "\<lambda>i. echo_answer (hello i)" "length served"] by simp_all
  have "length (ec_got E) = ec_sent E"
    if "sq_items (c_sendQueue (get_ch (h_tru (ec_client E)) r)) = []" "sq_items (c_sendQueue (get_ch (h_tru (ec_server E)) s)) = []"
      "pending r (h_tru (ec_client E)) = []" "pending s (h_tru (ec_server E)) = []" "cn_queue (ec_cconn E) = []" "cn_queue (ec_sconn E) = []"
  proof -
    have "served = map hello [0..<ec_sent E]" "ec_got E = map echo_answer served"
      using j k that I(3,5) by (simp_all add: delivered_def)
    then show ?thesis by simp
  qed
  moreover have "server_turn L envs room (ec_sconn E) (h_tru (ec_server E)) \<noteq> None"
    if "cn_queue (ec_sconn E) \<noteq> []" "\<forall>k. 0 < room k"
    using that server_turn_eq [of room s "ec_sconn E" L envs, OF _ I(1)] by (auto split: list.split)
  ultimately show ?thesis
    using got(1) le_trans [OF got(2) served(2)] I(6) by blast
qed

lemma echo_session_witness: "sq_items (c_sendQueue (get_ch sample_hello 0)) \<noteq> []"
proof
  assume empty: "sq_items (c_sendQueue (get_ch sample_hello 0)) = []"
  have h: "h_tru (ec_client sample_echo) = sample_hello" "h_tru (ec_server sample_echo) = snd sample_pair"
    "written 0 (ec_client sample_echo) = [hello 0]" "written 0 (ec_server sample_echo) = []" "ec_got sample_echo = []" "ec_sent sample_echo = 1"
    "cn_queue (ec_cconn sample_echo) = []" "cn_queue (ec_sconn sample_echo) = []"
    by (simp_all add: sample_echo_def echo_start_def newConn_def)
  have eq: "sample_hello = snd (tru_channel_WriteTo plain_crypto (\<lambda>_. sample_wenv) 0 (hello 0) [] (fst sample_pair))"
    by (simp add: sample_hello_def client_send_def conn_Write_def newConn_def Let_def split_def)
  have intact: "intact 0 ''s'' sample_hello"
    unfolding eq by (rule tru_channel_WriteTo_intact [OF sample_pair_state(1)])
  have few: "length (stream_fragments (get_ch (fst sample_pair) 0) [hello 0]) \<le> 2 ^ 19"
    using sample_hello_state(4)
    by (simp add: stream_fragments_def message_fragments_def split_limit_def maxDataLen_def headerLen_def fragments_short sample_pair_state(5))
  have none: "length (stream_fragments (get_ch (snd sample_pair) 0) []) \<le> 2 ^ 19" by (simp add: stream_fragments_def)
  have "pending 0 sample_hello = []" "pending 0 (snd sample_pair) = []"
    using sample_hello_state(2) sample_pair_state(6) by (simp_all add: pending_def)
  moreover have "(echo_step plain_crypto False ''c'' ''s'' 0 0)\<^sup>*\<^sup>* (echo_start ''l'' ''m'' 0 0 (fst sample_pair) (snd sample_pair)) sample_echo"
    using sample_echo_run by (rule r_into_rtranclp)
  ultimately show False
    using echo_session [OF plain_crypto_laws sample_session, where E = sample_echo, unfolded h, OF _ intact sample_pair_state(2) few none]
      empty sample_hello_state(3) by simp
qed

text \<open>
  C5: The whole protocol. After the four handshake messages between two connectors, Connect gets
  its channel, the two ends hold the same 32-byte session key, and each of them delivers to the
  other: the messages written with WriteTo, split, encrypted, marshalled, then lost, repeated
  and reordered by the network within the window of half the identifiers, reach the reader in
  order, each at most once and unchanged, and all of them once every packet has arrived. The
  same channels, run on by any interleaving of their writes, arrivals, timers and closes, are
  two reliable streams.
\<close>

lemma session_delivers:
  assumes "crypto_laws L" "length uuid < 256" "\<And>j k. env_ok (envs j k)"
    and "t_privateKey C = Some kc" "t_senderCh C = []" "0 \<le> t_maxDataLen C"
    and "t_privateKey S = Some ks" "t_senderCh S = []" "0 \<le> t_maxDataLen S"
    and "handshake L env uuid sa ca C S = (C', S')"
  shows "\<exists>rc rs. connect_wait False uuid C' = Some (Connected (Some rc)) \<and>
     getChannel sa C' = Some rc \<and> getChannel ca S' = Some rs \<and>
     length (k_session (c_crypt (get_ch C' rc))) = 32 \<and>
     k_session (c_crypt (get_ch S' rs)) = k_session (c_crypt (get_ch C' rc)) \<and>
     delivers L envs envs' (get_ch C' rc) (get_ch S' rs) \<and> delivers L envs envs' (get_ch S' rs) (get_ch C' rc) \<and>
     reliable L (get_ch C' rc) (get_ch S' rs)"
proof -
  obtain rc rs where h: "connect_wait False uuid C' = Some (Connected (Some rc))" "getChannel sa C' = Some rc"
    "getChannel ca S' = Some rs" "fresh (get_ch C' rc)" "fresh (get_ch S' rs)"
    "length (k_session (c_crypt (get_ch C' rc))) = 32" "k_session (c_crypt (get_ch S' rs)) = k_session (c_crypt (get_ch C' rc))"
    using handshake_agrees [OF assms(1,2,4-10)] by blast
  have "delivers L envs envs' (get_ch C' rc) (get_ch S' rs)" "delivers L envs envs' (get_ch S' rs) (get_ch C' rc)"
    using h(4,5,7) by (intro delivers_session [OF assms(1,3)]; simp add: fresh_def)+
  moreover have "reliable L (get_ch C' rc) (get_ch S' rs)"
    using h(4,5,7) by (intro reliable_fresh [OF assms(1)]) (simp_all add: fresh_def)
  ultimately show ?thesis using h by blast
qed

lemma session_delivers_witness:
  "\<exists>rc. connect_wait False [7] (fst (handshake plain_crypto (\<lambda>_. sample_tenv) [7] ''s'' ''c'' sample_tru sample_tru)) =
     Some (Connected (Some rc))"
proof -
  have "length [7 :: u8] < 256" by simp
  from session_delivers [OF plain_crypto_laws this _ sample_tru_key sample_tru_key, where envs = "\<lambda>_ _. sample_wenv"
      and env = "\<lambda>_. sample_tenv" and sa = "''s''" and ca = "''c''"
      and C' = "fst (handshake plain_crypto (\<lambda>_. sample_tenv) [7] ''s'' ''c'' sample_tru sample_tru)"
      and S' = "snd (handshake plain_crypto (\<lambda>_. sample_tenv) [7] ''s'' ''c'' sample_tru sample_tru)"]
  show ?thesis using sample_env_ok by auto
qed

end
